(* ===== verification/Log_Prelude.thy ===== *)
theory Log_Prelude
  imports
    Main
    "HOL-Library.Word"
    "HOL-Library.Char_ord"
    "HOL-Library.List_Lexorder"
    "HOL-Library.Multiset"
    "HOL-Library.AList"
begin

text \<open>
  Shared vocabulary of the development: C++ exceptions as values, the integer conversions
  the code performs implicitly (\<open>size_t\<close> to \<open>int\<close> and back), the few operations
  of \<open>std::string\<close> and of the fixed-size containers that the sources call, promises,
  and the generic lemmas and lemma collections that the component theories share.
\<close>

named_theorems field_simps_cpp \<open>facts about additional fields of a log message\<close>
named_theorems json_simps \<open>facts about the ordered JSON object\<close>
named_theorems conn_simps \<open>effects of the connection handlers on single components\<close>

section \<open>Exceptions\<close>

text \<open>
  The exceptions the modelled code can raise. A function that can throw returns a value of
  \<open>exn + 'a\<close>. None of them is caught inside a worker thread, so there an \<open>Inl\<close>
  means that \<open>std::terminate\<close> is called.
\<close>

datatype exn =
    Out_of_range
  | Invalid_argument
  | Bad_function_call
  | Json_type_error
  | Format_error string

fun fold_result :: "('a \<Rightarrow> 's \<Rightarrow> exn + 's) \<Rightarrow> 'a list \<Rightarrow> 's \<Rightarrow> exn + 's" where
  "fold_result f [] s = Inr s"
| "fold_result f (x # xs) s =
     (case f x s of Inl e \<Rightarrow> Inl e | Inr s' \<Rightarrow> fold_result f xs s')"

lemma fold_result_append:
  "fold_result f (xs @ ys) s =
     (case fold_result f xs s of Inl e \<Rightarrow> Inl e | Inr s' \<Rightarrow> fold_result f ys s')"
  by (induction xs arbitrary: s) (auto split: sum.splits)

lemma fold_result_inv:
  assumes "fold_result f xs s = Inr s'" and "I s"
    and "\<And>x s s'. x \<in> set xs \<Longrightarrow> I s \<Longrightarrow> f x s = Inr s' \<Longrightarrow> I s'"
  shows "I s'"
  using assms
proof (induction xs arbitrary: s)
  case Nil
  then show ?case by simp
next
  case (Cons x xs)
  then obtain t where t: "f x s = Inr t" "fold_result f xs t = Inr s'"
    by (auto split: sum.splits)
  have "I t" using Cons.prems(2,3) t(1) by auto
  then show ?case using Cons.IH [OF t(2)] Cons.prems(3) by auto
qed

section \<open>Machine integers\<close>

type_synonym int32 = "32 word"
type_synonym int64 = "64 word"

text \<open>An IEEE-754 double is only stored and passed on by the code: its 64 bits.\<close>

type_synonym double = "64 word"

text \<open>
  Implicit conversions: \<open>size_t\<close> (64 bits) to \<open>int\<close> keeps the low 32 bits as a signed
  value; \<open>int\<close> to \<open>size_t\<close> is the value modulo \<open>2 ^ 64\<close>.
\<close>

definition to_int32 :: "nat \<Rightarrow> int" where
  "to_int32 n = signed_take_bit 31 (int n)"

definition to_size_t :: "int \<Rightarrow> nat" where
  "to_size_t i = nat (i mod 2 ^ 64)"

lemma to_int32_small [simp]: "n < 2 ^ 31 \<Longrightarrow> to_int32 n = int n"
  unfolding to_int32_def by (rule signed_take_bit_int_eq_self) auto

lemma to_size_t_nonneg [simp]: "0 \<le> i \<Longrightarrow> i < 2 ^ 64 \<Longrightarrow> to_size_t i = nat i"
  by (simp add: to_size_t_def)

lemma to_size_t_neg: "- (2 ^ 63) \<le> i \<Longrightarrow> i < 0 \<Longrightarrow> 2 ^ 63 \<le> to_size_t i"
proof -
  assume a: "- (2 ^ 63) \<le> i" "i < 0"
  have "i mod 2 ^ 64 = (i + 2 ^ 64) mod 2 ^ 64" by simp
  also have "\<dots> = i + 2 ^ 64" using a by (intro mod_pos_pos_trivial) auto
  finally show ?thesis using a by (simp add: to_size_t_def)
qed

text \<open>
  \<open>duration_cast\<close> to a coarser unit divides the tick count with the \<open>/\<close> of C++,
  which drops the fraction whatever the sign of the count.
\<close>

definition cast_ticks :: "nat \<Rightarrow> int \<Rightarrow> int" where
  "cast_ticks unit ticks =
     (if ticks < 0 then - (- ticks div int unit) else ticks div int unit)"

lemma cast_ticks_nonneg [simp]: "0 \<le> ticks \<Longrightarrow> cast_ticks unit ticks = ticks div int unit"
  by (simp add: cast_ticks_def)

section \<open>Strings and containers\<close>

definition nul :: char where
  "nul = CHR 0x00"

definition newline :: string where
  "newline = [CHR 0x0A]"

text \<open>What a \<open>%s\<close> conversion or the \<open>std::string(const char*)\<close> constructor reads.\<close>

definition c_str :: "string \<Rightarrow> string" where
  "c_str s = takeWhile (\<lambda>c. c \<noteq> nul) s"

lemma c_str_id [simp]: "nul \<notin> set s \<Longrightarrow> c_str s = s"
  unfolding c_str_def by (rule takeWhile_eq_all_conv [THEN iffD2]) auto

lemma c_str_no_nul [simp]: "nul \<notin> set (c_str s)"
  by (auto simp: c_str_def dest: set_takeWhileD)

text \<open>\<open>std::array::at\<close> and \<open>std::vector::at\<close>: range-checked.\<close>

definition at_checked :: "'a list \<Rightarrow> nat \<Rightarrow> exn + 'a" where
  "at_checked xs n = (if n < length xs then Inr (xs ! n) else Inl Out_of_range)"

text \<open>\<open>std::string::find(c)\<close> and \<open>rfind(c)\<close>; \<open>npos\<close> is \<open>None\<close>.\<close>

fun find_char :: "char \<Rightarrow> string \<Rightarrow> nat option" where
  "find_char c [] = None"
| "find_char c (x # xs) = (if x = c then Some 0 else map_option Suc (find_char c xs))"

definition rfind_char :: "char \<Rightarrow> string \<Rightarrow> nat option" where
  "rfind_char c s = map_option (\<lambda>i. length s - Suc i) (find_char c (rev s))"

text \<open>\<open>std::string::substr(pos, n)\<close> for \<open>pos \<le> size()\<close>.\<close>

definition substr :: "string \<Rightarrow> nat \<Rightarrow> nat \<Rightarrow> string" where
  "substr s pos n = take n (drop pos s)"

lemma find_char_None [simp]: "find_char c s = None \<longleftrightarrow> c \<notin> set s"
  by (induction s) auto

lemma find_char_Some:
  "find_char c s = Some i \<Longrightarrow> i < length s \<and> s ! i = c \<and> c \<notin> set (take i s)"
proof (induction s arbitrary: i)
  case Nil
  then show ?case by simp
next
  case (Cons x xs)
  then show ?case by (cases i) (auto split: if_splits)
qed

lemma find_char_split: "find_char c (pre @ c # post) = Some (length pre)" if "c \<notin> set pre"
  using that by (induction pre) auto

lemma rfind_char_None [simp]: "rfind_char c s = None \<longleftrightarrow> c \<notin> set s"
  by (simp add: rfind_char_def)

lemma rfind_char_split:
  "rfind_char c (pre @ c # post) = Some (length pre)" if "c \<notin> set post"
  using that find_char_split [of c "rev post" "rev pre"] by (simp add: rfind_char_def)

lemma split_last_occurrence:
  assumes "c \<in> set s"
  obtains pre post where "s = pre @ c # post" "c \<notin> set post"
  using split_list_last [OF assms] by blast

section \<open>Promises and futures\<close>

text \<open>
  The shared state of a \<open>std::promise\<close>. Destroying the promise before it was set stores a
  \<open>broken_promise\<close> error, which also makes the future ready.
\<close>

datatype promise_state = Unset | Satisfied | Broken

definition future_ready :: "promise_state \<Rightarrow> bool" where
  "future_ready p = (p \<noteq> Unset)"

definition set_value :: "promise_state \<Rightarrow> promise_state" where
  "set_value p = Satisfied"

definition drop_promise :: "promise_state \<Rightarrow> promise_state" where
  "drop_promise p = (if p = Unset then Broken else p)"

lemma future_ready_simps [simp]:
  "\<not> future_ready Unset" "future_ready Satisfied" "future_ready Broken"
  "future_ready (set_value p)" "future_ready (drop_promise p)"
  by (auto simp: future_ready_def set_value_def drop_promise_def)

section \<open>Transition systems\<close>

text \<open>
  The components with an environment (network, scheduler) are step relations. The locale
  gives the reachability and invariant rules once; each relation of the model interprets it.
\<close>

locale transition_system =
  fixes init :: "'s \<Rightarrow> bool"
    and step :: "'s \<Rightarrow> 's \<Rightarrow> bool"
  assumes init_ex: "\<exists>s. init s"
begin

definition reach :: "'s \<Rightarrow> bool" where
  "reach s \<longleftrightarrow> (\<exists>s0. init s0 \<and> step\<^sup>*\<^sup>* s0 s)"

lemma reach_init: "init s \<Longrightarrow> reach s"
  by (auto simp: reach_def)

lemma reach_step: "reach s \<Longrightarrow> step s t \<Longrightarrow> reach t"
  by (auto simp: reach_def intro: rtranclp.rtrancl_into_rtrancl)

lemma reach_ex: "\<exists>s. reach s"
  using init_ex reach_init by blast

lemma steps_preserve:
  assumes "step\<^sup>*\<^sup>* s t" and "I s" and "\<And>s t. I s \<Longrightarrow> step s t \<Longrightarrow> I t"
  shows "I t"
  using assms by (induction rule: rtranclp_induct) auto

lemma invariant:
  assumes "reach s" and "\<And>s. init s \<Longrightarrow> I s" and "\<And>s t. I s \<Longrightarrow> step s t \<Longrightarrow> I t"
  shows "I s"
  using assms steps_preserve unfolding reach_def by metis

end

section \<open>Generic lemmas\<close>

lemma length_filter_remove:
  "xs = us @ x # vs \<Longrightarrow> length (filter P xs) = (if P x then 1 else 0) + length (filter P (us @ vs))"
  by simp

lemma take_append_drop_eq: "n \<le> length xs \<Longrightarrow> s @ take n xs @ drop n xs = s @ xs"
  by simp

lemma sublist_nth_update_fst:
  "i < length xs \<Longrightarrow> fst (xs ! i) = k \<Longrightarrow> map fst (xs[i := (k, v)]) = map fst xs"
  by (simp add: map_update list_update_same_conv)

end
