(* ===== verification/Log_Util.thy ===== *)
theory Log_Util
  imports Log_Prelude
begin

text \<open>
  Model of \<open>include/graylog_logger/LogUtil.hpp\<close> and \<open>src/LogUtil.cpp\<close>: severities,
  additional fields, log messages with \<open>addField\<close>, and the default message formatting of
  \<open>BaseLogHandler\<close>.
\<close>

section \<open>Severity\<close>

text \<open>
  \<open>enum class Severity : int\<close>. Any \<open>int\<close> can be cast to it, so the type wraps the
  32-bit value; the enumerators are constants.
\<close>

datatype Severity = Severity (sev_bits: int32)

definition int_of_severity :: "Severity \<Rightarrow> int" where
  "int_of_severity s = sint (sev_bits s)"

definition Emergency :: Severity where "Emergency = Severity 0"
definition Alert :: Severity where "Alert = Severity 1"
definition Critical :: Severity where "Critical = Severity 2"
definition Error :: Severity where "Error = Severity 3"
definition Warning :: Severity where "Warning = Severity 4"
definition Notice :: Severity where "Notice = Severity 5"
definition Informational :: Severity where "Informational = Severity 6"
definition Info :: Severity where "Info = Severity 6"
definition Debug :: Severity where "Debug = Severity 7"
definition Trace :: Severity where "Trace = Severity 8"

lemmas severity_defs = Emergency_def Alert_def Critical_def Error_def Warning_def Notice_def
  Informational_def Info_def Debug_def Trace_def

text \<open>Severities are ordered by their integer value, as the comparisons of the code do.\<close>

instantiation Severity :: linorder
begin

definition less_eq_Severity :: "Severity \<Rightarrow> Severity \<Rightarrow> bool" where
  "less_eq_Severity a b \<longleftrightarrow> int_of_severity a \<le> int_of_severity b"

definition less_Severity :: "Severity \<Rightarrow> Severity \<Rightarrow> bool" where
  "less_Severity a b \<longleftrightarrow> int_of_severity a < int_of_severity b"

instance
proof (standard, goal_cases)
  case (4 a b)
  then have "sint (sev_bits a) = sint (sev_bits b)"
    by (simp add: less_eq_Severity_def int_of_severity_def)
  then have "sev_bits a = sev_bits b" by (rule signed_word_eqI)
  then show ?case by (rule Severity.expand)
qed (auto simp: less_eq_Severity_def less_Severity_def)

end

section \<open>Additional fields and log messages\<close>

datatype Type = typeStr | typeDbl | typeInt

record AdditionalField =
  FieldType :: Type
  strVal :: string
  intVal :: int64
  dblVal :: double

definition AdditionalField_default :: AdditionalField where
  "AdditionalField_default = \<lparr>FieldType = typeStr, strVal = [], intVal = 0, dblVal = 0\<rparr>"

definition AdditionalField_dbl :: "double \<Rightarrow> AdditionalField" where
  "AdditionalField_dbl v = AdditionalField_default\<lparr>FieldType := typeDbl, dblVal := v\<rparr>"

definition AdditionalField_str :: "string \<Rightarrow> AdditionalField" where
  "AdditionalField_str v = AdditionalField_default\<lparr>FieldType := typeStr, strVal := v\<rparr>"

definition AdditionalField_int :: "int64 \<Rightarrow> AdditionalField" where
  "AdditionalField_int v = AdditionalField_default\<lparr>FieldType := typeInt, intVal := v\<rparr>"

type_synonym fields = "(string \<times> AdditionalField) list"

text \<open>
  \<open>Timestamp\<close> is the number of nanoseconds since the epoch (\<open>std::chrono::system_clock\<close>).
\<close>

record LogMessage =
  MessageString :: string
  Timestamp :: int
  ProcessId :: int32
  ProcessName :: string
  Host :: string
  SeverityLevel :: Severity
  ThreadId :: string
  AdditionalFields :: fields

definition LogMessage_default :: LogMessage where
  "LogMessage_default = \<lparr>MessageString = [], Timestamp = 0, ProcessId = -1, ProcessName = [],
     Host = [], SeverityLevel = Debug, ThreadId = [], AdditionalFields = []\<rparr>"

text \<open>
  \<open>addField\<close>: the search loop leaves the index, narrowed to \<open>int\<close>, in \<open>FieldLoc\<close>, or
  \<open>-1\<close>. The index is converted back to \<open>size_t\<close> for the update. (With \<open>2 ^ 31\<close> fields
  and more the narrowed index no longer designates the element and the C++ access is
  undefined; the lemmas exclude that.)
\<close>

fun find_field :: "string \<Rightarrow> fields \<Rightarrow> nat \<Rightarrow> int" where
  "find_field Key [] i = -1"
| "find_field Key ((k, v) # rest) i =
     (if k = Key then to_int32 i else find_field Key rest (Suc i))"

definition addField :: "string \<Rightarrow> AdditionalField \<Rightarrow> LogMessage \<Rightarrow> LogMessage" where
  "addField Key Value m =
     (let FieldLoc = find_field Key (AdditionalFields m) 0
      in if FieldLoc = -1
         then m\<lparr>AdditionalFields := AdditionalFields m @ [(Key, Value)]\<rparr>
         else m\<lparr>AdditionalFields := (AdditionalFields m)[to_size_t FieldLoc := (Key, Value)]\<rparr>)"

definition addFields :: "fields \<Rightarrow> LogMessage \<Rightarrow> LogMessage" where
  "addFields flds m = foldl (\<lambda>m fld. addField (fst fld) (snd fld) m) m flds"

text \<open>The representable size: indices of the vector fit \<open>int\<close>.\<close>

definition fields_fit :: "nat \<Rightarrow> LogMessage \<Rightarrow> bool" where
  "fields_fit extra m \<longleftrightarrow> length (AdditionalFields m) + extra \<le> 2 ^ 31"

lemma find_field_fresh [field_simps_cpp]:
  "Key \<notin> fst ` set fs \<Longrightarrow> find_field Key fs i = -1"
  by (induction Key fs i rule: find_field.induct) auto

lemma find_field_found [field_simps_cpp]:
  assumes "Key \<in> fst ` set fs" and "i + length fs \<le> 2 ^ 31"
  shows "\<exists>n < length fs. find_field Key fs i = int (i + n) \<and> fst (fs ! n) = Key
           \<and> Key \<notin> fst ` set (take n fs)"
  using assms
proof (induction Key fs i rule: find_field.induct)
  case (1 Key i)
  then show ?case by simp
next
  case (2 Key k v rest i)
  show ?case
  proof (cases "k = Key")
    case True
    with 2 show ?thesis by (auto intro!: exI [of _ 0])
  next
    case False
    with 2 obtain n where "n < length rest" "find_field Key rest (Suc i) = int (Suc i + n)"
      "fst (rest ! n) = Key" "Key \<notin> fst ` set (take n rest)" by auto
    with False show ?thesis by (intro exI [of _ "Suc n"]) auto
  qed
qed

lemma alist_update_split:
  "n < length al \<Longrightarrow> fst (al ! n) = k \<Longrightarrow> k \<notin> fst ` set (take n al) \<Longrightarrow>
     AList.update k v al = al[n := (k, v)]"
proof (induction al arbitrary: n)
  case Nil
  then show ?case by simp
next
  case (Cons p al)
  then show ?case by (cases n) auto
qed

lemma alist_update_fresh: "k \<notin> fst ` set al \<Longrightarrow> AList.update k v al = al @ [(k, v)]"
  by (induction al) auto

lemma addField_update [field_simps_cpp]:
  assumes "fields_fit 0 m"
  shows "AdditionalFields (addField k v m) = AList.update k v (AdditionalFields m)"
proof (cases "k \<in> fst ` set (AdditionalFields m)")
  case True
  then obtain n where n: "n < length (AdditionalFields m)"
    "find_field k (AdditionalFields m) 0 = int n" "fst (AdditionalFields m ! n) = k"
    "k \<notin> fst ` set (take n (AdditionalFields m))"
    using find_field_found [of k "AdditionalFields m" 0] assms by (auto simp: fields_fit_def)
  moreover have "to_size_t (int n) = n"
    using n(1) assms by (simp add: fields_fit_def)
  ultimately show ?thesis
    by (simp add: addField_def alist_update_split)
next
  case False
  then show ?thesis by (simp add: addField_def find_field_fresh alist_update_fresh)
qed

lemma addField_frame [simp]:
  "MessageString (addField k v m) = MessageString m" "Timestamp (addField k v m) = Timestamp m"
  "ProcessId (addField k v m) = ProcessId m" "ProcessName (addField k v m) = ProcessName m"
  "Host (addField k v m) = Host m" "SeverityLevel (addField k v m) = SeverityLevel m"
  "ThreadId (addField k v m) = ThreadId m"
  by (simp_all add: addField_def Let_def)

lemma addFields_simps [simp]:
  "addFields [] m = m"
  "addFields (f # fs) m = addFields fs (addField (fst f) (snd f) m)"
  by (simp_all add: addFields_def)

lemma addFields_frame [simp]:
  "MessageString (addFields fs m) = MessageString m" "Timestamp (addFields fs m) = Timestamp m"
  "ProcessId (addFields fs m) = ProcessId m" "ProcessName (addFields fs m) = ProcessName m"
  "Host (addFields fs m) = Host m" "SeverityLevel (addFields fs m) = SeverityLevel m"
  "ThreadId (addFields fs m) = ThreadId m"
  by (induction fs arbitrary: m) simp_all

lemma length_alist_update_le: "length (AList.update k v al) \<le> Suc (length al)"
  by (induction al) auto

lemma fields_fit_addField: "fields_fit (Suc n) m \<Longrightarrow> fields_fit n (addField k v m)"
  using length_alist_update_le [of k v "AdditionalFields m"]
  by (auto simp: fields_fit_def addField_update)

lemma fields_fit_mono: "fields_fit n m \<Longrightarrow> k \<le> n \<Longrightarrow> fields_fit k m"
  by (auto simp: fields_fit_def)

lemma addFields_updates [field_simps_cpp]:
  "fields_fit (length fs) m \<Longrightarrow>
     AdditionalFields (addFields fs m) = AList.updates (map fst fs) (map snd fs) (AdditionalFields m)"
proof (induction fs arbitrary: m)
  case Nil
  then show ?case by simp
next
  case (Cons f fs)
  then have "fields_fit (length fs) (addField (fst f) (snd f) m)"
    by (auto intro: fields_fit_addField)
  with Cons show ?case
    by (auto simp: addField_update fields_fit_mono [of "Suc (length fs)" m 0])
qed

definition distinct_keys :: "LogMessage \<Rightarrow> bool" where
  "distinct_keys m \<longleftrightarrow> distinct (map fst (AdditionalFields m))"

lemma distinct_keys_addFields:
  "fields_fit (length fs) m \<Longrightarrow> distinct_keys m \<Longrightarrow> distinct_keys (addFields fs m)"
  by (simp add: distinct_keys_def addFields_updates distinct_updates)

lemma fields_fit_addFields: "fields_fit (length fs + n) m \<Longrightarrow> fields_fit n (addFields fs m)"
  by (induction fs arbitrary: m) (auto intro: fields_fit_addField)

section \<open>Message to string\<close>

definition sevToStr :: "string list" where
  "sevToStr = [''EMERGENCY'', ''ALERT'', ''CRITICAL'', ''ERROR'', ''WARNING'', ''Notice'',
     ''Info'', ''Debug'', ''Trace'']"

text \<open>\<open>sevToStr.at(int(SeverityLevel))\<close>: the \<open>int\<close> is converted to \<open>size_t\<close>.\<close>

definition severity_name :: "Severity \<Rightarrow> exn + string" where
  "severity_name s = at_checked sevToStr (to_size_t (int_of_severity s))"

definition known_severity :: "Severity \<Rightarrow> bool" where
  "known_severity s \<longleftrightarrow> 0 \<le> int_of_severity s \<and> int_of_severity s \<le> 8"

lemma severity_name_known:
  "known_severity s \<Longrightarrow> severity_name s = Inr (sevToStr ! nat (int_of_severity s))"
  by (auto simp: severity_name_def known_severity_def at_checked_def sevToStr_def)

lemma severity_name_unknown: "\<not> known_severity s \<Longrightarrow> severity_name s = Inl Out_of_range"
proof -
  assume u: "\<not> known_severity s"
  have b: "- (2 ^ 31) \<le> int_of_severity s" "int_of_severity s < 2 ^ 31"
    unfolding int_of_severity_def using sint_range_size [of "sev_bits s"]
    by (simp_all add: word_size)
  have "9 \<le> to_size_t (int_of_severity s)"
  proof (cases "int_of_severity s < 0")
    case True
    then have "2 ^ 63 \<le> to_size_t (int_of_severity s)"
      by (intro to_size_t_neg) (use b in auto)
    then show ?thesis by simp
  next
    case False
    with u b show ?thesis by (auto simp: known_severity_def)
  qed
  then show ?thesis by (simp add: severity_name_def at_checked_def sevToStr_def)
qed

text \<open>
  \<open>std::strftime(buf, 50, "%F %T", tm)\<close>, where \<open>%F\<close> is \<open>%Y-%m-%d\<close> and \<open>%T\<close> is
  \<open>%H:%M:%S\<close>. The result is 0 characters when the text and its terminator do not fit.
  \<open>localtime\<close> depends on the time zone of the process and is a parameter.
\<close>

record tm =
  tm_year :: int
  tm_mon :: int
  tm_mday :: int
  tm_hour :: int
  tm_min :: int
  tm_sec :: int

definition digit_char :: "nat \<Rightarrow> char" where
  "digit_char d = char_of (48 + d)"

fun show_nat :: "nat \<Rightarrow> string" where
  "show_nat n = (if n < 10 then [digit_char n] else show_nat (n div 10) @ [digit_char (n mod 10)])"

declare show_nat.simps [simp del]

definition show_int :: "int \<Rightarrow> string" where
  "show_int i = (if i < 0 then CHR ''-'' # show_nat (nat (- i)) else show_nat (nat i))"

definition pad2 :: "int \<Rightarrow> string" where
  "pad2 i = (if 0 \<le> i \<and> i < 10 then CHR ''0'' # show_int i else show_int i)"

definition TimeBufferSize :: nat where
  "TimeBufferSize = 50"

definition time_text :: "tm \<Rightarrow> string" where
  "time_text t = show_int (tm_year t + 1900) @ ''-'' @ pad2 (tm_mon t + 1) @ ''-'' @ pad2 (tm_mday t)
     @ '' '' @ pad2 (tm_hour t) @ '':'' @ pad2 (tm_min t) @ '':'' @ pad2 (tm_sec t)"

definition strftime_FT :: "nat \<Rightarrow> tm \<Rightarrow> string" where
  "strftime_FT bufsize t = (if length (time_text t) + 1 \<le> bufsize then time_text t else [])"

definition to_time_t :: "int \<Rightarrow> int" where
  "to_time_t ns = cast_ticks 1000000000 ns"

type_synonym parser = "LogMessage \<Rightarrow> exn + string"

definition default_format :: "(int \<Rightarrow> tm) \<Rightarrow> parser" where
  "default_format localtime m =
     (let stamp = strftime_FT TimeBufferSize (localtime (to_time_t (Timestamp m)))
      in case severity_name (SeverityLevel m) of
           Inl e \<Rightarrow> Inl e
         | Inr name \<Rightarrow>
             Inr (stamp @ '' ('' @ Host m @ '') '' @ name @ '': '' @ MessageString m))"

text \<open>The \<open>MessageParser\<close> member is a \<open>std::function\<close> that may be empty.\<close>

definition messageToString :: "(int \<Rightarrow> tm) \<Rightarrow> parser option \<Rightarrow> LogMessage \<Rightarrow> exn + string" where
  "messageToString localtime MessageParser m =
     (case MessageParser of Some f \<Rightarrow> f m | None \<Rightarrow> default_format localtime m)"

text \<open>What \<open>localtime\<close> returns: fields in their ranges and a 32-bit year.\<close>

definition valid_tm :: "tm \<Rightarrow> bool" where
  "valid_tm t \<longleftrightarrow> - (2 ^ 31) \<le> tm_year t \<and> tm_year t < 2 ^ 31
     \<and> 0 \<le> tm_mon t \<and> tm_mon t \<le> 11 \<and> 1 \<le> tm_mday t \<and> tm_mday t \<le> 31
     \<and> 0 \<le> tm_hour t \<and> tm_hour t \<le> 23 \<and> 0 \<le> tm_min t \<and> tm_min t \<le> 59
     \<and> 0 \<le> tm_sec t \<and> tm_sec t \<le> 60"

lemma length_show_nat: "n < 10 ^ Suc k \<Longrightarrow> length (show_nat n) \<le> Suc k"
proof (induction k arbitrary: n)
  case 0
  then show ?case by (simp add: show_nat.simps)
next
  case (Suc k)
  show ?case
  proof (cases "n < 10")
    case True
    then show ?thesis by (simp add: show_nat.simps)
  next
    case False
    have "n div 10 < 10 ^ Suc k" using Suc.prems by (simp add: less_mult_imp_div_less)
    then have "length (show_nat (n div 10)) \<le> Suc k" by (rule Suc.IH)
    with False show ?thesis by (simp add: show_nat.simps [of n])
  qed
qed

lemma length_show_nat_eq: "10 ^ k \<le> n \<Longrightarrow> n < 10 ^ Suc k \<Longrightarrow> length (show_nat n) = Suc k"
proof (induction k arbitrary: n)
  case 0
  then show ?case by (simp add: show_nat.simps)
next
  case (Suc k)
  have big: "\<not> n < 10" using Suc.prems by (auto simp: not_less intro: order_trans [rotated])
  have "n div 10 < 10 ^ Suc k" using Suc.prems by (simp add: less_mult_imp_div_less)
  moreover have "10 ^ k \<le> n div 10" using Suc.prems by (simp add: less_eq_div_iff_mult_less_eq)
  ultimately have "length (show_nat (n div 10)) = Suc k" by (intro Suc.IH) auto
  with big show ?case by (simp add: show_nat.simps [of n])
qed

definition is_digit :: "char \<Rightarrow> bool" where
  "is_digit c \<longleftrightarrow> 48 \<le> (of_char c :: nat) \<and> (of_char c :: nat) \<le> 57"

lemma is_digit_digit_char [simp]: "d < 10 \<Longrightarrow> is_digit (digit_char d)"
  by (simp add: is_digit_def digit_char_def)

lemma show_nat_digits: "list_all is_digit (show_nat n)"
proof (induction n rule: show_nat.induct)
  case (1 n)
  then show ?case by (cases "n < 10") (simp_all add: show_nat.simps [of n])
qed

lemma length_pad2: "0 \<le> i \<Longrightarrow> i < 100 \<Longrightarrow> length (pad2 i) = 2"
proof (cases "i < 10")
  case True
  assume "0 \<le> i"
  with True show ?thesis by (auto simp: pad2_def show_int_def show_nat.simps [of "nat i"])
next
  case False
  assume "0 \<le> i" "i < 100"
  with False have "length (show_nat (nat i)) = Suc 1" by (intro length_show_nat_eq) auto
  with False show ?thesis by (simp add: pad2_def show_int_def)
qed

lemma pad2_digits: "0 \<le> i \<Longrightarrow> list_all is_digit (pad2 i)"
  using show_nat_digits by (auto simp: pad2_def show_int_def is_digit_def)

text \<open>The pattern \<open>dddd-dd-dd dd:dd:dd\<close> of the default time stamp, one predicate per character.\<close>

definition stamp_pattern :: "(char \<Rightarrow> bool) list" where
  "stamp_pattern = replicate 4 is_digit @ [\<lambda>c. c = CHR ''-''] @ replicate 2 is_digit
     @ [\<lambda>c. c = CHR ''-''] @ replicate 2 is_digit @ [\<lambda>c. c = CHR '' ''] @ replicate 2 is_digit
     @ [\<lambda>c. c = CHR '':''] @ replicate 2 is_digit @ [\<lambda>c. c = CHR '':''] @ replicate 2 is_digit"

definition matches :: "(char \<Rightarrow> bool) list \<Rightarrow> string \<Rightarrow> bool" where
  "matches ps s = list_all2 (\<lambda>p c. p c) ps s"

lemma matches_append: "matches ps s \<Longrightarrow> matches qs t \<Longrightarrow> matches (ps @ qs) (s @ t)"
  unfolding matches_def by (rule list_all2_appendI)

lemma matches_digits: "list_all is_digit s \<Longrightarrow> length s = n \<Longrightarrow> matches (replicate n is_digit) s"
  by (auto simp: matches_def list_all2_conv_all_nth list_all_length)

lemma matches_lit: "matches [\<lambda>c. c = x] [x]"
  by (simp add: matches_def)

lemma matches_pad2: "0 \<le> i \<Longrightarrow> i < 100 \<Longrightarrow> matches (replicate 2 is_digit) (pad2 i)"
  by (intro matches_digits pad2_digits length_pad2)

lemma matches_year: "1000 \<le> i \<Longrightarrow> i \<le> 9999 \<Longrightarrow> matches (replicate 4 is_digit) (show_int i)"
  using length_show_nat_eq [of 3 "nat i"] show_nat_digits
  by (intro matches_digits) (auto simp: show_int_def)

lemma length_show_int: "- (10 ^ Suc k) < i \<Longrightarrow> i < 10 ^ Suc k \<Longrightarrow> length (show_int i) \<le> Suc (Suc k)"
  using length_show_nat [of "nat i" k] length_show_nat [of "nat (- i)" k]
  by (auto simp: show_int_def nat_less_iff le_SucI)

lemma length_time_text: "valid_tm t \<Longrightarrow> length (time_text t) \<le> 26"
  using length_show_int [of 9 "tm_year t + 1900"]
  by (auto simp: time_text_def valid_tm_def length_pad2)

section \<open>Properties\<close>

text \<open>
  \<open>LogMessage::addField\<close> is the update of an insertion-ordered dictionary: the key is
  bound to the new value (whatever type it had), every other key keeps its value, an existing
  key keeps its position and a new one goes to the end.
\<close>

theorem addField_correct:
  assumes "fields_fit 0 m"
  shows "map_of (AdditionalFields (addField k v m)) = (map_of (AdditionalFields m))(k \<mapsto> v)
    \<and> map fst (AdditionalFields (addField k v m)) =
        (if k \<in> fst ` set (AdditionalFields m) then map fst (AdditionalFields m)
         else map fst (AdditionalFields m) @ [k])"
  using assms by (auto simp: addField_update update_conv' update_keys)

theorem addField_correct_witness:
  "map_of (AdditionalFields (addField ''a'' (AdditionalField_int 3)
      (addField ''b'' (AdditionalField_str ''x'') LogMessage_default))) ''a''
   = Some (AdditionalField_int 3)"
  using addField_correct [of "addField ''b'' (AdditionalField_str ''x'') LogMessage_default"
      "''a''" "AdditionalField_int 3"]
  by (simp add: fields_fit_def addField_def LogMessage_default_def)

text \<open>
  The default message text. For a broken-down local time with in-range fields and a
  four-digit year, and one of the nine severities, the text is a \<open>dddd-dd-dd dd:dd:dd\<close>
  stamp (so the 50-byte buffer was large enough), the host in parentheses, the severity's
  name, a colon and the message.
\<close>

theorem messageToString_default_shape:
  assumes "valid_tm (localtime (to_time_t (Timestamp m)))"
    and "1000 \<le> tm_year (localtime (to_time_t (Timestamp m))) + 1900"
    and "tm_year (localtime (to_time_t (Timestamp m))) + 1900 \<le> 9999"
    and "known_severity (SeverityLevel m)"
  shows "\<exists>stamp. matches stamp_pattern stamp \<and>
    messageToString localtime None m =
      Inr (stamp @ '' ('' @ Host m @ '') '' @ sevToStr ! nat (int_of_severity (SeverityLevel m))
           @ '': '' @ MessageString m)"
proof -
  let ?t = "localtime (to_time_t (Timestamp m))"
  have "strftime_FT TimeBufferSize ?t = time_text ?t"
    using length_time_text [OF assms(1)] by (simp add: strftime_FT_def TimeBufferSize_def)
  moreover have "matches stamp_pattern (time_text ?t)"
    unfolding stamp_pattern_def time_text_def using assms(1-3)
    by (intro matches_append matches_lit matches_pad2 matches_year) (auto simp: valid_tm_def)
  ultimately show ?thesis
    using severity_name_known [OF assms(4)]
    by (auto simp: messageToString_def default_format_def Let_def)
qed

definition epoch_localtime :: "int \<Rightarrow> tm" where
  "epoch_localtime s = \<lparr>tm_year = 117, tm_mon = 0, tm_mday = 2, tm_hour = 18, tm_min = 29,
     tm_sec = s mod 60\<rparr>"

theorem messageToString_default_shape_witness:
  "\<exists>stamp. matches stamp_pattern stamp \<and>
    messageToString epoch_localtime None (LogMessage_default\<lparr>Host := ''CI'', SeverityLevel := Error\<rparr>) =
      Inr (stamp @ '' (CI) ERROR: '')"
  using messageToString_default_shape
    [of epoch_localtime "LogMessage_default\<lparr>Host := ''CI'', SeverityLevel := Error\<rparr>"]
  by (simp add: epoch_localtime_def valid_tm_def known_severity_def severity_defs
      int_of_severity_def LogMessage_default_def to_time_t_def sevToStr_def)

end
