(* ===== verification/Threaded_Executor.thy ===== *)
theory Threaded_Executor
  imports Log_Prelude
begin

text \<open>
  Model of \<open>include/graylog_logger/ThreadedExecutor.hpp\<close>: a worker thread that takes work
  items from a concurrent queue and runs them until its destructor's item stops it.

  The queue is \<open>moodycamel::ConcurrentQueue\<close>, a third-party container. It is a parameter
  (\<open>queue_ops\<close>) of every definition that uses it. Its documented behaviour is
  \<open>queue_contract\<close>: seen through \<open>pend\<close>, the items of each producer (thread) are in order,
  a dequeue removes the oldest item of some producer, and nothing is lost or duplicated. The
  documentation promises no order between the items of different producers. An unsuccessful
  \<open>try_dequeue\<close> only says that the queue looked empty.
\<close>

section \<open>The queue parameter\<close>

record ('q, 'w) queue_ops =
  q_enqueue :: "nat \<Rightarrow> 'w \<Rightarrow> 'q \<Rightarrow> 'q"
  q_try_dequeue :: "'q \<Rightarrow> 'w option \<times> 'q"
  q_size_approx :: "'q \<Rightarrow> nat"

definition queue_contract :: "('q, 'w) queue_ops \<Rightarrow> ('q \<Rightarrow> nat \<Rightarrow> 'w list) \<Rightarrow> bool" where
  "queue_contract Q pend \<longleftrightarrow>
     (\<forall>p w q. pend (q_enqueue Q p w q) = (pend q)(p := pend q p @ [w])) \<and>
     (\<forall>q w q'. q_try_dequeue Q q = (Some w, q') \<longrightarrow>
        (\<exists>p ws. pend q p = w # ws \<and> pend q' = (pend q)(p := ws))) \<and>
     (\<forall>q q'. q_try_dequeue Q q = (None, q') \<longrightarrow> pend q' = pend q)"

text \<open>
  Polling finds an item after finitely many attempts when there is one.
\<close>

fun failed_polls :: "('q, 'w) queue_ops \<Rightarrow> nat \<Rightarrow> 'q \<Rightarrow> 'q" where
  "failed_polls Q 0 q = q"
| "failed_polls Q (Suc n) q = snd (q_try_dequeue Q (failed_polls Q n q))"

definition queue_live :: "('q, 'w) queue_ops \<Rightarrow> ('q \<Rightarrow> nat \<Rightarrow> 'w list) \<Rightarrow> bool" where
  "queue_live Q pend \<longleftrightarrow>
     (\<forall>q p. pend q p \<noteq> [] \<longrightarrow>
        (\<exists>n. fst (q_try_dequeue Q (failed_polls Q n q)) \<noteq> None))"

section \<open>State and operations\<close>

text \<open>
  \<open>target\<close> is the object whose members the closures read and write (the closures capture
  \<open>this\<close>); only the worker runs them. The destructor's closure \<open>RunThread = false\<close> is
  \<open>StopTask\<close>.
\<close>

datatype 'w task = Work 'w | StopTask

record ('q, 's) executor =
  RunThread :: bool
  MessageQueue :: 'q
  target :: 's

definition ThreadedExecutor :: "'q \<Rightarrow> 's \<Rightarrow> ('q, 's) executor" where
  "ThreadedExecutor empty_queue s = \<lparr>RunThread = True, MessageQueue = empty_queue, target = s\<rparr>"

definition SendWork ::
  "('q, 'w task) queue_ops \<Rightarrow> nat \<Rightarrow> 'w task \<Rightarrow> ('q, 's) executor \<Rightarrow> ('q, 's) executor" where
  "SendWork Q thread Message ex = ex\<lparr>MessageQueue := q_enqueue Q thread Message (MessageQueue ex)\<rparr>"

definition size_approx :: "('q, 'w task) queue_ops \<Rightarrow> ('q, 's) executor \<Rightarrow> nat" where
  "size_approx Q ex = q_size_approx Q (MessageQueue ex)"

fun run_task ::
  "('w \<Rightarrow> 's \<Rightarrow> exn + 's) \<Rightarrow> 'w task \<Rightarrow> ('q, 's) executor \<Rightarrow> exn + ('q, 's) executor" where
  "run_task run StopTask ex = Inr (ex\<lparr>RunThread := False\<rparr>)"
| "run_task run (Work w) ex =
     (case run w (target ex) of Inl e \<Rightarrow> Inl e | Inr s \<Rightarrow> Inr (ex\<lparr>target := s\<rparr>))"

text \<open>
  \<open>ThreadFunction\<close>: the number bounds the iterations observed so far. An exception of a work
  item leaves the thread function. The \<open>None\<close> branch is the 5 ms sleep.
\<close>

fun ThreadFunction ::
  "('q, 'w task) queue_ops \<Rightarrow> ('w \<Rightarrow> 's \<Rightarrow> exn + 's) \<Rightarrow> nat \<Rightarrow> ('q, 's) executor
     \<Rightarrow> exn + ('q, 's) executor" where
  "ThreadFunction Q run 0 ex = Inr ex"
| "ThreadFunction Q run (Suc n) ex =
     (if RunThread ex then
        (case q_try_dequeue Q (MessageQueue ex) of
           (Some CurrentMessage, q) \<Rightarrow>
             (case run_task run CurrentMessage (ex\<lparr>MessageQueue := q\<rparr>) of
                Inl e \<Rightarrow> Inl e
              | Inr ex' \<Rightarrow> ThreadFunction Q run n ex')
         | (None, q) \<Rightarrow> ThreadFunction Q run n (ex\<lparr>MessageQueue := q\<rparr>))
      else Inr ex)"

text \<open>The destructor: enqueue the stop item from the destroying thread, then join the worker.\<close>

definition destroy_send ::
  "('q, 'w task) queue_ops \<Rightarrow> nat \<Rightarrow> ('q, 's) executor \<Rightarrow> ('q, 's) executor" where
  "destroy_send Q thread ex = SendWork Q thread StopTask ex"

section \<open>Interleavings\<close>

text \<open>
  \<open>takes P ts P'\<close>: the tagged items \<open>ts\<close> (producer, item) were taken one after the other from
  the pending items \<open>P\<close>, each from the front of its producer's list, and leave \<open>P'\<close>.
\<close>

definition of_producer :: "nat \<Rightarrow> (nat \<times> 'w) list \<Rightarrow> 'w list" where
  "of_producer p ts = map snd (filter (\<lambda>t. fst t = p) ts)"

definition takes :: "(nat \<Rightarrow> 'w list) \<Rightarrow> (nat \<times> 'w) list \<Rightarrow> (nat \<Rightarrow> 'w list) \<Rightarrow> bool" where
  "takes P ts P' \<longleftrightarrow> (\<forall>p. P p = of_producer p ts @ P' p)"

lemma of_producer_simps [simp]:
  "of_producer p [] = []"
  "of_producer p ((p', w) # ts) = (if p' = p then w # of_producer p ts else of_producer p ts)"
  "of_producer p (ts @ us) = of_producer p ts @ of_producer p us"
  by (simp_all add: of_producer_def)

lemma of_producer_set: "w \<in> set (of_producer p ts) \<longleftrightarrow> (p, w) \<in> set ts"
  by (force simp: of_producer_def)

lemma of_producer_only:
  fixes h ts :: "(nat \<times> 'w) list"
  assumes "\<forall>x \<in> set h. fst x = p" and "set ts \<subseteq> set h" and "of_producer p h = of_producer p ts"
  shows "ts = h"
proof -
  have only: "map (Pair p) (of_producer p xs) = xs" if "\<forall>x \<in> set xs. fst x = p" for xs :: "(nat \<times> 'w) list"
    using that by (induction xs) auto
  have "\<forall>x \<in> set ts. fst x = p" using assms(1,2) by blast
  from only [OF this] only [OF assms(1)] assms(3) show ?thesis by simp
qed

lemma takes_Nil: "takes P [] P"
  by (simp add: takes_def)

lemma takes_Cons: "P p = w # ws \<Longrightarrow> takes (P(p := ws)) ts P' \<Longrightarrow> takes P ((p, w) # ts) P'"
  unfolding takes_def by (metis append_Cons fun_upd_apply of_producer_simps(2))

lemma takesD: "takes P ts P' \<Longrightarrow> P p = of_producer p ts @ P' p"
  by (simp add: takes_def)

lemma contract_enqueue:
  "queue_contract Q pend \<Longrightarrow> pend (q_enqueue Q p w q) = (pend q)(p := pend q p @ [w])"
  by (simp add: queue_contract_def)

lemma contract_dequeue:
  "queue_contract Q pend \<Longrightarrow> q_try_dequeue Q q = (Some w, q') \<Longrightarrow>
     \<exists>p ws. pend q p = w # ws \<and> pend q' = (pend q)(p := ws)"
  by (simp add: queue_contract_def)

lemma contract_none:
  "queue_contract Q pend \<Longrightarrow> q_try_dequeue Q q = (None, q') \<Longrightarrow> pend q' = pend q"
  by (simp add: queue_contract_def)

text \<open>
  What the worker did in \<open>n\<close> iterations: it took some items in an order that respects every
  producer's own order and ran exactly these, one at a time; only the last one can be the
  stop item, and it is there exactly when the worker has stopped.
\<close>

fun payload :: "'w task list \<Rightarrow> 'w list" where
  "payload [] = []"
| "payload (Work w # ts) = w # payload ts"
| "payload (StopTask # ts) = payload ts"

lemma payload_append [simp]: "payload (ts @ us) = payload ts @ payload us"
  by (induction ts rule: payload.induct) auto

lemma payload_map_Work [simp]: "payload (map Work ws) = ws"
  by (induction ws) auto

lemma ThreadFunction_runs:
  assumes "queue_contract Q pend" and "ThreadFunction Q run n ex = Inr ex'" and "RunThread ex"
  shows "\<exists>ts. takes (pend (MessageQueue ex)) ts (pend (MessageQueue ex'))
    \<and> fold_result run (payload (map snd ts)) (target ex) = Inr (target ex')
    \<and> StopTask \<notin> set (map snd (butlast ts))
    \<and> (RunThread ex' \<longleftrightarrow> StopTask \<notin> set (map snd ts))"
  using assms(2,3)
proof (induction n arbitrary: ex)
  case 0
  then show ?case by (intro exI [of _ "[]"]) (auto simp: takes_Nil)
next
  case (Suc n)
  obtain r q where dq: "q_try_dequeue Q (MessageQueue ex) = (r, q)" by fastforce
  show ?case
  proof (cases r)
    case None
    have "pend q = pend (MessageQueue ex)"
      using contract_none [OF assms(1)] dq None by simp
    with Suc.IH [of "ex\<lparr>MessageQueue := q\<rparr>"] Suc.prems dq None show ?thesis by simp
  next
    case (Some t)
    obtain p ws where pw: "pend (MessageQueue ex) p = t # ws"
      "pend q = (pend (MessageQueue ex))(p := ws)"
      using contract_dequeue [OF assms(1)] dq Some by blast
    show ?thesis
    proof (cases t)
      case StopTask
      from Suc.prems dq Some StopTask have "ex' = ex\<lparr>MessageQueue := q, RunThread := False\<rparr>"
        by (cases n) auto
      with pw StopTask show ?thesis
        by (intro exI [of _ "[(p, StopTask)]"]) (simp add: takes_def)
    next
      case (Work w)
      with Suc.prems dq Some obtain s where s: "run w (target ex) = Inr s"
        "ThreadFunction Q run n (ex\<lparr>MessageQueue := q, target := s\<rparr>) = Inr ex'"
        by (auto split: sum.splits)
      from Suc.IH [OF s(2)] Suc.prems(2) obtain ts where
        "takes (pend q) ts (pend (MessageQueue ex'))"
        "fold_result run (payload (map snd ts)) s = Inr (target ex')"
        "StopTask \<notin> set (map snd (butlast ts))"
        "RunThread ex' \<longleftrightarrow> StopTask \<notin> set (map snd ts)" by auto
      with pw s(1) Work show ?thesis
        by (intro exI [of _ "(p, Work w) # ts"]) (auto intro: takes_Cons)
    qed
  qed
qed

section \<open>Termination of the worker\<close>

lemma ThreadFunction_failed_polls:
  assumes "RunThread ex"
    and "\<forall>k < n. fst (q_try_dequeue Q (failed_polls Q k (MessageQueue ex))) = None"
  shows "ThreadFunction Q run (n + m) ex =
    ThreadFunction Q run m (ex\<lparr>MessageQueue := failed_polls Q n (MessageQueue ex)\<rparr>)"
  using assms
proof (induction n arbitrary: m)
  case 0
  then show ?case by simp
next
  case (Suc n)
  let ?q = "failed_polls Q n (MessageQueue ex)"
  have "ThreadFunction Q run (Suc n + m) ex = ThreadFunction Q run (n + Suc m) ex" by simp
  also have "\<dots> = ThreadFunction Q run (Suc m) (ex\<lparr>MessageQueue := ?q\<rparr>)"
    using Suc by (intro Suc.IH) auto
  also have "\<dots> = ThreadFunction Q run m (ex\<lparr>MessageQueue := failed_polls Q (Suc n) (MessageQueue ex)\<rparr>)"
    using Suc.prems by (cases "q_try_dequeue Q ?q") auto
  finally show ?case .
qed

lemma failed_polls_pend:
  assumes "queue_contract Q pend"
    and "\<forall>k < n. fst (q_try_dequeue Q (failed_polls Q k q)) = None"
  shows "pend (failed_polls Q n q) = pend q"
  using assms(2)
proof (induction n)
  case 0
  then show ?case by simp
next
  case (Suc n)
  obtain r q' where dq: "q_try_dequeue Q (failed_polls Q n q) = (r, q')" by fastforce
  with Suc.prems have "r = None" by auto
  with dq have "pend q' = pend (failed_polls Q n q)" using contract_none [OF assms(1)] by simp
  with Suc dq show ?case by simp
qed

lemma first_success:
  assumes "queue_contract Q pend" and "queue_live Q pend" and "pend q p \<noteq> []"
  obtains n w q' where "\<forall>k < n. fst (q_try_dequeue Q (failed_polls Q k q)) = None"
    and "q_try_dequeue Q (failed_polls Q n q) = (Some w, q')"
proof -
  let ?P = "\<lambda>n. fst (q_try_dequeue Q (failed_polls Q n q)) \<noteq> None"
  have "\<exists>n. ?P n" using assms(2,3) by (auto simp: queue_live_def)
  then have "?P (LEAST n. ?P n)" by (rule LeastI_ex)
  moreover have "\<forall>k < (LEAST n. ?P n). \<not> ?P k" using not_less_Least by blast
  ultimately show ?thesis
    using that by (metis (no_types, lifting) not_None_eq prod.collapse)
qed

definition backlog :: "nat set \<Rightarrow> (nat \<Rightarrow> 'w list) \<Rightarrow> nat" where
  "backlog S P = (\<Sum>p\<in>S. length (P p))"

lemma backlog_take:
  "finite S \<Longrightarrow> p \<in> S \<Longrightarrow> P p = w # ws \<Longrightarrow> backlog S P = Suc (backlog S (P(p := ws)))"
  by (simp add: backlog_def sum.remove)

lemma worker_stops:
  assumes "queue_contract Q pend" and "queue_live Q pend" and "finite S"
    and "\<forall>p. p \<notin> S \<longrightarrow> pend (MessageQueue ex) p = []"
    and "StopTask \<in> set (pend (MessageQueue ex) d)" and "RunThread ex"
  shows "\<exists>n. (\<exists>e. ThreadFunction Q run n ex = Inl e) \<or>
    (\<exists>ex'. ThreadFunction Q run n ex = Inr ex' \<and> \<not> RunThread ex')"
  using assms(4-6)
proof (induction "backlog S (pend (MessageQueue ex))" arbitrary: ex rule: less_induct)
  case less
  have ne: "pend (MessageQueue ex) d \<noteq> []" using less.prems(2) by auto
  obtain n t q where polls: "\<forall>k < n. fst (q_try_dequeue Q (failed_polls Q k (MessageQueue ex))) = None"
    and dq: "q_try_dequeue Q (failed_polls Q n (MessageQueue ex)) = (Some t, q)"
    by (rule first_success [OF assms(1,2) ne])
  have same: "pend (failed_polls Q n (MessageQueue ex)) = pend (MessageQueue ex)"
    by (rule failed_polls_pend [OF assms(1) polls])
  obtain p ws where pw: "pend (MessageQueue ex) p = t # ws"
    "pend q = (pend (MessageQueue ex))(p := ws)"
    using contract_dequeue [OF assms(1) dq] same by metis
  have loop: "ThreadFunction Q run (n + m) ex =
    ThreadFunction Q run m (ex\<lparr>MessageQueue := failed_polls Q n (MessageQueue ex)\<rparr>)" for m
    by (rule ThreadFunction_failed_polls [OF less.prems(3) polls])
  show ?case
  proof (cases t)
    case StopTask
    with loop [of 1] dq less.prems(3)
    have "ThreadFunction Q run (n + 1) ex = Inr (ex\<lparr>MessageQueue := q, RunThread := False\<rparr>)"
      by simp
    then show ?thesis by (intro exI disjI2 conjI, assumption) simp
  next
    case (Work w)
    show ?thesis
    proof (cases "run w (target ex)")
      case (Inl e)
      with loop [of 1] dq less.prems(3) Work have "ThreadFunction Q run (n + 1) ex = Inl e" by simp
      then show ?thesis by blast
    next
      case (Inr s)
      let ?ex = "ex\<lparr>MessageQueue := q, target := s\<rparr>"
      have "p \<in> S" using pw(1) less.prems(1) by fastforce
      then have "backlog S (pend q) < backlog S (pend (MessageQueue ex))"
        using backlog_take [where P = "pend (MessageQueue ex)", OF assms(3) _ pw(1)] pw(2) by simp
      moreover have "StopTask \<in> set (pend q d)"
        using less.prems(2) pw Work by (auto split: if_splits)
      moreover have "\<forall>p. p \<notin> S \<longrightarrow> pend q p = []" using less.prems(1) pw(2) \<open>p \<in> S\<close> by auto
      ultimately obtain m where "(\<exists>e. ThreadFunction Q run m ?ex = Inl e) \<or>
          (\<exists>ex'. ThreadFunction Q run m ?ex = Inr ex' \<and> \<not> RunThread ex')"
        using less.hyps [of ?ex] less.prems(3) by auto
      moreover have "ThreadFunction Q run (n + Suc m) ex = ThreadFunction Q run m ?ex"
        using loop [of "Suc m"] dq less.prems(3) Inr Work by simp
      ultimately show ?thesis by metis
    qed
  qed
qed

text \<open>An exception that ends the worker comes from running the items in such an order.\<close>

lemma ThreadFunction_throws:
  assumes "queue_contract Q pend" and "ThreadFunction Q run n ex = Inl e" and "RunThread ex"
  shows "\<exists>ts P'. takes (pend (MessageQueue ex)) ts P' \<and> StopTask \<notin> set (map snd ts)
    \<and> fold_result run (payload (map snd ts)) (target ex) = Inl e"
  using assms(2,3)
proof (induction n arbitrary: ex)
  case 0
  then show ?case by simp
next
  case (Suc n)
  obtain r q where dq: "q_try_dequeue Q (MessageQueue ex) = (r, q)" by fastforce
  show ?case
  proof (cases r)
    case None
    have "pend q = pend (MessageQueue ex)"
      using contract_none [OF assms(1)] dq None by simp
    with Suc.IH [of "ex\<lparr>MessageQueue := q\<rparr>"] Suc.prems dq None show ?thesis by simp
  next
    case (Some t)
    obtain p ws where pw: "pend (MessageQueue ex) p = t # ws"
      "pend q = (pend (MessageQueue ex))(p := ws)"
      using contract_dequeue [OF assms(1)] dq Some by blast
    obtain w where w: "t = Work w"
      using Suc.prems dq Some by (cases t; cases n) auto
    show ?thesis
    proof (cases "run w (target ex)")
      case (Inl e')
      with Suc.prems dq Some w have "e' = e" by simp
      with Inl pw w show ?thesis
        by (intro exI [of _ "[(p, Work w)]"] exI [of _ "pend q"]) (simp add: takes_def)
    next
      case (Inr s)
      with Suc.prems dq Some w
      have "ThreadFunction Q run n (ex\<lparr>MessageQueue := q, target := s\<rparr>) = Inl e" by simp
      from Suc.IH [OF this] Suc.prems(2) obtain ts P' where "takes (pend q) ts P'"
        "StopTask \<notin> set (map snd ts)" "fold_result run (payload (map snd ts)) s = Inl e" by auto
      with pw Inr w show ?thesis
        by (intro exI [of _ "(p, Work w) # ts"] exI [of _ P']) (auto intro: takes_Cons)
    qed
  qed
qed

lemma ThreadFunction_stopped: "\<not> RunThread ex \<Longrightarrow> ThreadFunction Q run n ex = Inr ex"
  by (cases n) simp_all

lemma ThreadFunction_Suc:
  "ThreadFunction Q run (Suc n) ex =
     (case ThreadFunction Q run 1 ex of Inl e \<Rightarrow> Inl e | Inr ex' \<Rightarrow> ThreadFunction Q run n ex')"
proof (cases "RunThread ex")
  case True
  obtain r q where "q_try_dequeue Q (MessageQueue ex) = (r, q)" by fastforce
  with True show ?thesis by (cases r) (auto split: sum.split)
qed (simp add: ThreadFunction_stopped)

lemma ThreadFunction_add:
  "ThreadFunction Q run (n + m) ex =
     (case ThreadFunction Q run n ex of Inl e \<Rightarrow> Inl e | Inr ex' \<Rightarrow> ThreadFunction Q run m ex')"
proof (induction n arbitrary: ex)
  case (Suc n)
  show ?case
    by (simp only: add_Suc ThreadFunction_Suc [of Q run "n + m"] ThreadFunction_Suc [of Q run n] Suc.IH)
      (simp split: sum.split)
qed simp

text \<open>A worker that stops at all stops in one state, however many iterations it gets.\<close>

lemma ThreadFunction_stops_once:
  assumes "ThreadFunction Q run n ex = Inr ex'" and "\<not> RunThread ex'"
  shows "\<exists>ex''. ThreadFunction Q run m ex = Inr ex'' \<and> (\<not> RunThread ex'' \<longrightarrow> ex'' = ex')"
proof (cases "n \<le> m")
  case True
  with assms ThreadFunction_add [of Q run n "m - n" ex] show ?thesis
    by (simp add: ThreadFunction_stopped)
next
  case False
  then have eq: "ThreadFunction Q run n ex = (case ThreadFunction Q run m ex of
      Inl e \<Rightarrow> Inl e | Inr y \<Rightarrow> ThreadFunction Q run (n - m) y)"
    using ThreadFunction_add [of Q run m "n - m" ex] by simp
  then obtain y where y: "ThreadFunction Q run m ex = Inr y" "ThreadFunction Q run (n - m) y = Inr ex'"
    using assms(1) by (auto split: sum.splits)
  have "y = ex'" if "\<not> RunThread y" using ThreadFunction_stopped [OF that, of Q run "n - m"] y(2) by simp
  with y(1) show ?thesis by blast
qed

section \<open>Invariants of worker-owned objects\<close>

text \<open>
  The contract between the executor and the class that owns it: every work item keeps the
  invariant of the object. Then so does the worker, whatever the order of the items.
\<close>

locale worker_object =
  fixes run :: "'w \<Rightarrow> 's \<Rightarrow> exn + 's"
    and inv :: "'s \<Rightarrow> bool"
    and allowed :: "'w \<Rightarrow> bool"
  assumes run_inv: "inv s \<Longrightarrow> allowed w \<Longrightarrow> run w s = Inr s' \<Longrightarrow> inv s'"
begin

lemma fold_inv:
  "fold_result run ws s = Inr s' \<Longrightarrow> inv s \<Longrightarrow> \<forall>w \<in> set ws. allowed w \<Longrightarrow> inv s'"
  by (rule fold_result_inv [where I = inv and f = run and xs = ws]) (auto intro: run_inv)

lemma payload_set: "Work w \<in> set ts \<longleftrightarrow> w \<in> set (payload ts)"
  by (induction ts rule: payload.induct) auto

lemma worker_inv:
  assumes "queue_contract Q pend" and "ThreadFunction Q run n ex = Inr ex'" and "RunThread ex"
    and "\<And>p w. Work w \<in> set (pend (MessageQueue ex) p) \<Longrightarrow> allowed w"
    and "inv (target ex)"
  shows "inv (target ex')"
proof -
  obtain ts where ts: "takes (pend (MessageQueue ex)) ts (pend (MessageQueue ex'))"
    "fold_result run (payload (map snd ts)) (target ex) = Inr (target ex')"
    using ThreadFunction_runs [OF assms(1-3)] by blast
  have "allowed w" if "w \<in> set (payload (map snd ts))" for w
  proof -
    from that obtain p where "(p, Work w) \<in> set ts" by (auto simp: payload_set [symmetric])
    then have "Work w \<in> set (pend (MessageQueue ex) p)"
      using ts(1) by (simp add: takes_def of_producer_set)
    then show ?thesis by (rule assms(4))
  qed
  with ts(2) assms(5) show ?thesis by (blast intro: fold_inv)
qed

end

section \<open>A queue instance\<close>

text \<open>A single list in arrival order satisfies the contract; the witnesses run on it.\<close>

definition list_queue :: "((nat \<times> 'w) list, 'w) queue_ops" where
  "list_queue = \<lparr>q_enqueue = (\<lambda>p w q. q @ [(p, w)]),
     q_try_dequeue = (\<lambda>q. case q of [] \<Rightarrow> (None, []) | t # ts \<Rightarrow> (Some (snd t), ts)),
     q_size_approx = length\<rparr>"

definition list_pend :: "(nat \<times> 'w) list \<Rightarrow> nat \<Rightarrow> 'w list" where
  "list_pend q p = of_producer p q"

lemma list_queue_contract: "queue_contract list_queue list_pend"
  by (auto simp: queue_contract_def list_queue_def list_pend_def of_producer_def fun_eq_iff
      split: list.splits)

lemma list_queue_live: "queue_live list_queue list_pend"
proof -
  have "fst (q_try_dequeue list_queue (failed_polls list_queue 0 q)) \<noteq> None"
    if "list_pend q p \<noteq> []" for q :: "(nat \<times> 'a) list" and p
    using that by (cases q) (auto simp: list_queue_def list_pend_def)
  then show ?thesis unfolding queue_live_def by blast
qed

text \<open>
  Work of a single producer that does not throw: any number of iterations runs a prefix of it,
  and some number of iterations runs all of it.
\<close>

lemma single_producer_step:
  assumes "queue_contract Q pend" and "pend q = (\<lambda>_. [])(p := map Work ws)"
    and "q_try_dequeue Q q = (Some t, q')"
  obtains w vs where "ws = w # vs" "t = Work w" "pend q' = (\<lambda>_. [])(p := map Work vs)"
proof -
  obtain p' ts where "pend q p' = t # ts" "pend q' = (pend q)(p' := ts)"
    using contract_dequeue [OF assms(1,3)] by blast
  moreover from this(1) assms(2) have "p' = p" by (auto split: if_splits)
  ultimately show ?thesis using assms(2) by (cases ws) (auto intro: that)
qed

lemma single_producer_run:
  assumes "queue_contract Q pend" and "RunThread ex"
    and "pend (MessageQueue ex) = (\<lambda>_. [])(p := map Work ws)"
    and "fold_result run ws (target ex) = Inr s"
  shows "\<exists>k ex'. ThreadFunction Q run n ex = Inr ex' \<and> RunThread ex' \<and> k \<le> length ws
    \<and> fold_result run (take k ws) (target ex) = Inr (target ex')
    \<and> pend (MessageQueue ex') = (\<lambda>_. [])(p := map Work (drop k ws))"
  using assms(2-4)
proof (induction n arbitrary: ex ws)
  case 0
  then show ?case by (intro exI [of _ 0] exI [of _ ex]) simp
next
  case (Suc n)
  obtain r q where rq: "q_try_dequeue Q (MessageQueue ex) = (r, q)" by fastforce
  show ?case
  proof (cases r)
    case None
    then have "pend q = pend (MessageQueue ex)" using contract_none [OF assms(1)] rq by blast
    with Suc.IH [of "ex\<lparr>MessageQueue := q\<rparr>" ws] Suc.prems rq None show ?thesis by simp
  next
    case (Some t)
    then obtain w vs where w: "ws = w # vs" "t = Work w" "pend q = (\<lambda>_. [])(p := map Work vs)"
      using single_producer_step [OF assms(1) Suc.prems(2)] rq by metis
    with Suc.prems(3) obtain s1 where s1: "run w (target ex) = Inr s1" "fold_result run vs s1 = Inr s"
      by (auto split: sum.splits)
    let ?ex = "ex\<lparr>MessageQueue := q, target := s1\<rparr>"
    have "\<exists>k ex'. ThreadFunction Q run n ?ex = Inr ex' \<and> RunThread ex' \<and> k \<le> length vs
      \<and> fold_result run (take k vs) (target ?ex) = Inr (target ex')
      \<and> pend (MessageQueue ex') = (\<lambda>_. [])(p := map Work (drop k vs))"
      by (rule Suc.IH) (use Suc.prems(1) w(3) s1(2) in simp_all)
    then obtain k ex' where "ThreadFunction Q run n ?ex = Inr ex'"
      "RunThread ex'" "k \<le> length vs" "fold_result run (take k vs) s1 = Inr (target ex')"
      "pend (MessageQueue ex') = (\<lambda>_. [])(p := map Work (drop k vs))" by auto
    with Suc.prems(1) rq Some w s1 show ?thesis by (intro exI [of _ "Suc k"] exI [of _ ex']) simp
  qed
qed

lemma single_producer_drains:
  assumes "queue_contract Q pend" and "queue_live Q pend" and "RunThread ex"
    and "pend (MessageQueue ex) = (\<lambda>_. [])(p := map Work ws)"
    and "fold_result run ws (target ex) = Inr s"
  shows "\<exists>n ex'. ThreadFunction Q run n ex = Inr ex' \<and> RunThread ex' \<and> target ex' = s
    \<and> pend (MessageQueue ex') = (\<lambda>_. [])"
  using assms(3-5)
proof (induction ws arbitrary: ex)
  case Nil
  then show ?case by (intro exI [of _ 0] exI [of _ ex]) (simp add: fun_upd_idem)
next
  case (Cons w ws)
  have "pend (MessageQueue ex) p \<noteq> []" using Cons.prems(2) by simp
  then obtain n t q' where n: "\<forall>k < n. fst (q_try_dequeue Q (failed_polls Q k (MessageQueue ex))) = None"
    "q_try_dequeue Q (failed_polls Q n (MessageQueue ex)) = (Some t, q')"
    using first_success [OF assms(1,2)] by blast
  have "pend (failed_polls Q n (MessageQueue ex)) = (\<lambda>_. [])(p := map Work (w # ws))"
    using failed_polls_pend [OF assms(1) n(1)] Cons.prems(2) by (rule trans)
  from single_producer_step [OF assms(1) this n(2)]
  have t: "t = Work w" "pend q' = (\<lambda>_. [])(p := map Work ws)" by auto
  obtain s1 where s1: "run w (target ex) = Inr s1" "fold_result run ws s1 = Inr s"
    using Cons.prems(3) by (auto split: sum.splits)
  let ?ex = "ex\<lparr>MessageQueue := q', target := s1\<rparr>"
  from Cons.IH [of ?ex] Cons.prems(1) t(2) s1(2) obtain m ex' where
    m: "ThreadFunction Q run m ?ex = Inr ex'" "RunThread ex'" "target ex' = s"
    "pend (MessageQueue ex') = (\<lambda>_. [])" by auto
  have "ThreadFunction Q run (n + Suc m) ex = ThreadFunction Q run m ?ex"
    using ThreadFunction_failed_polls [OF Cons.prems(1) n(1), of run "Suc m"] n(2) t(1) s1(1) Cons.prems(1)
    by simp
  with m show ?case by metis
qed

text \<open>Work of a single producer: the worker has run a prefix of it.\<close>

lemma single_producer_prefix:
  assumes "queue_contract Q pend" and "RunThread ex"
    and "pend (MessageQueue ex) = (\<lambda>_. [])(p := map Work ws)"
    and "ThreadFunction Q run n ex = Inr ex'"
  shows "\<exists>k. fold_result run (take k ws) (target ex) = Inr (target ex')
    \<and> pend (MessageQueue ex') p = map Work (drop k ws)"
proof -
  obtain ts where ts: "takes ((\<lambda>_. [])(p := map Work ws)) ts (pend (MessageQueue ex'))"
    "fold_result run (payload (map snd ts)) (target ex) = Inr (target ex')"
    using ThreadFunction_runs [OF assms(1,4,2)] assms(3) by auto
  have "of_producer p' ts = []" if "p' \<noteq> p" for p'
    using takesD [OF ts(1), of p'] that by simp
  then have "filter (\<lambda>t. fst t = p) ts = ts"
    by (metis (mono_tags, lifting) filter_True list.distinct(1) list.set_cases of_producer_set
        prod.collapse list.set_intros(1))
  then have "map Work ws = map snd ts @ pend (MessageQueue ex') p"
    using takesD [OF ts(1), of p] by (simp add: of_producer_def)
  then obtain us vs where uv: "ws = us @ vs" "map snd ts = map Work us"
    "pend (MessageQueue ex') p = map Work vs"
    by (auto simp: map_eq_append_conv)
  then show ?thesis using ts(2) by (intro exI [of _ "length us"]) simp
qed

section \<open>Properties\<close>

lemma takes_stop_last:
  assumes "takes (P(d := P d @ [w])) ts P'" and "\<And>p. w \<notin> set (P p)" and "w \<in> set (map snd ts)"
  shows "of_producer d ts = P d @ [w]" and "P' d = []"
proof -
  from assms(3) obtain p where "(p, w) \<in> set ts" by auto
  then have "w \<in> set (of_producer p ts)" by (simp add: of_producer_set)
  moreover from assms(1) have eqs: "(P(d := P d @ [w])) p = of_producer p ts @ P' p" for p
    by (simp add: takes_def)
  ultimately have pd: "p = d" using assms(2) [of p] by (metis Un_iff fun_upd_apply set_append)
  have e: "P d @ [w] = of_producer d ts @ P' d" using eqs [of d] by simp
  show "P' d = []"
  proof (rule ccontr)
    assume "P' d \<noteq> []"
    then have "P d = of_producer d ts @ butlast (P' d)"
      using e by (metis butlast_append butlast_snoc)
    then show False using \<open>w \<in> set (of_producer p ts)\<close> pd assms(2) [of d] by simp
  qed
  with e show "of_producer d ts = P d @ [w]" by simp
qed

lemma destroyed_ran_own:
  assumes "queue_contract Q pend" and "RunThread ex"
    and "\<And>p. StopTask \<notin> set (pend (MessageQueue ex) p)"
    and "ThreadFunction Q run n (destroy_send Q d ex) = Inr ex'" and "\<not> RunThread ex'"
  shows "\<exists>ts. of_producer d ts = pend (MessageQueue ex) d @ [StopTask]
    \<and> (\<forall>p. \<exists>rest. pend (MessageQueue ex) p @ (if p = d then [StopTask] else []) = of_producer p ts @ rest)
    \<and> fold_result run (payload (map snd ts)) (target ex) = Inr (target ex')
    \<and> pend (MessageQueue ex') d = []"
proof -
  let ?P = "pend (MessageQueue ex)"
  obtain ts where ts: "takes (?P(d := ?P d @ [StopTask])) ts (pend (MessageQueue ex'))"
    "fold_result run (payload (map snd ts)) (target ex) = Inr (target ex')"
    "StopTask \<in> set (map snd ts)"
    using ThreadFunction_runs [OF assms(1,4)] assms(2,5)
    by (auto simp: destroy_send_def SendWork_def contract_enqueue [OF assms(1)])
  note last = takes_stop_last [OF ts(1) assms(3) ts(3)]
  have "?P p @ (if p = d then [StopTask] else []) = of_producer p ts @ pend (MessageQueue ex') p" for p
    using takesD [OF ts(1), of p] by (cases "p = d") simp_all
  with last ts(2) show ?thesis by blast
qed

text \<open>
  C23: destroying the executor loses none of the destroying thread's work. When the worker has
  stopped, it has run, one at a time and in an order compatible with every producer's own
  order, all items that thread had sent before (items of other threads that were still
  queued may be dropped), and the object's state is the result of exactly these items.
\<close>

theorem destructor_runs_own_work:
  assumes "queue_contract Q pend" and "RunThread ex"
    and "\<And>p. StopTask \<notin> set (pend (MessageQueue ex) p)"
    and "ThreadFunction Q run n (destroy_send Q d ex) = Inr ex'" and "\<not> RunThread ex'"
  shows "\<exists>ts. of_producer d ts = pend (MessageQueue ex) d @ [StopTask]
    \<and> (\<forall>p. \<exists>rest. pend (MessageQueue ex) p @ (if p = d then [StopTask] else []) = of_producer p ts @ rest)
    \<and> fold_result run (payload (map snd ts)) (target ex) = Inr (target ex')
    \<and> pend (MessageQueue ex') d = []"
  by (rule destroyed_ran_own [OF assms])

theorem destructor_runs_own_work_witness:
  "\<exists>ts. of_producer (0::nat) ts = [Work (5::nat), StopTask]
    \<and> fold_result (\<lambda>w s. Inr (s + w)) (payload (map snd ts)) 0 = Inr (7::nat)"
proof -
  let ?ex = "ThreadedExecutor [(1::nat, Work (2::nat)), (0, Work 5)] (0::nat)"
  let ?run = "\<lambda>w s. Inr (s + w)"
  let ?ex' = "\<lparr>RunThread = False, MessageQueue = [], target = 7::nat\<rparr>"
  have r: "ThreadFunction list_queue ?run 3 (destroy_send list_queue 0 ?ex) = Inr ?ex'"
    by (simp add: destroy_send_def SendWork_def ThreadedExecutor_def list_queue_def
        numeral_3_eq_3)
  have ns: "StopTask \<notin> set (list_pend (MessageQueue ?ex) p)" for p
    by (simp add: ThreadedExecutor_def list_pend_def)
  show ?thesis
    using destructor_runs_own_work [OF list_queue_contract _ ns r]
    by (auto simp: ThreadedExecutor_def list_pend_def)
qed

lemma destroyed_stops_or_throws:
  assumes "queue_contract Q pend" and "queue_live Q pend" and "RunThread ex"
    and "finite {p. pend (MessageQueue ex) p \<noteq> []}"
  shows "\<exists>n. (\<exists>e. ThreadFunction Q run n (destroy_send Q d ex) = Inl e) \<or>
    (\<exists>ex'. ThreadFunction Q run n (destroy_send Q d ex) = Inr ex' \<and> \<not> RunThread ex')"
proof (rule worker_stops [OF assms(1,2), where S = "insert d {p. pend (MessageQueue ex) p \<noteq> []}" and d = d])
  show "StopTask \<in> set (pend (MessageQueue (destroy_send Q d ex)) d)"
    by (simp add: destroy_send_def SendWork_def contract_enqueue [OF assms(1)])
  show "\<forall>p. p \<notin> insert d {p. pend (MessageQueue ex) p \<noteq> []} \<longrightarrow>
    pend (MessageQueue (destroy_send Q d ex)) p = []"
    by (simp add: destroy_send_def SendWork_def contract_enqueue [OF assms(1)])
qed (use assms(3,4) in \<open>auto simp: destroy_send_def SendWork_def\<close>)

lemma fold_result_total: "(\<And>w s. \<exists>s'. run w s = Inr s') \<Longrightarrow> fold_result run ws s \<noteq> Inl e"
proof (induction ws arbitrary: s)
  case Nil
  then show ?case by simp
next
  case (Cons w ws)
  from Cons.prems obtain s1 where "run w s = Inr s1" by blast
  with Cons show ?case by simp
qed

text \<open>
  An object that one thread has used: its destructor runs all queued work in order, or the
  work throws.
\<close>

lemma single_thread_destroyed:
  assumes "queue_contract Q pend" and "queue_live Q pend" and "RunThread ex"
    and P: "pend (MessageQueue ex) = (\<lambda>_. [])(d := map Work ws)"
  shows "\<exists>n. case fold_result run ws (target ex) of
      Inl e \<Rightarrow> ThreadFunction Q run n (destroy_send Q d ex) = Inl e
    | Inr s \<Rightarrow> \<exists>ex'. ThreadFunction Q run n (destroy_send Q d ex) = Inr ex'
               \<and> \<not> RunThread ex' \<and> target ex' = s"
proof -
  have fin: "finite {p. pend (MessageQueue ex) p \<noteq> []}"
    by (rule finite_subset [of _ "{d}"]) (auto simp: P)
  let ?ex = "destroy_send Q d ex"
  have Pd: "pend (MessageQueue ?ex) = (\<lambda>_. [])(d := map Work ws @ [StopTask])"
    by (simp add: destroy_send_def SendWork_def contract_enqueue [OF assms(1)] P)
  have run: "RunThread ?ex" "target ?ex = target ex"
    using assms(3) by (auto simp: destroy_send_def SendWork_def)
  have own: "map snd ts = of_producer d ts"
    if "takes (pend (MessageQueue ?ex)) ts P'" for ts P'
  proof -
    have "fst t = d" if "t \<in> set ts" for t
    proof (rule ccontr)
      assume "fst t \<noteq> d"
      then have "of_producer (fst t) ts = []"
        using takesD [OF \<open>takes (pend (MessageQueue ?ex)) ts P'\<close>, of "fst t"] by (simp add: Pd)
      then show False using that of_producer_set [of "snd t" "fst t" ts] by auto
    qed
    then show ?thesis by (simp add: of_producer_def)
  qed
  from destroyed_stops_or_throws [OF assms(1-3) fin]
  obtain n where "(\<exists>e. ThreadFunction Q run n ?ex = Inl e) \<or>
    (\<exists>ex'. ThreadFunction Q run n ?ex = Inr ex' \<and> \<not> RunThread ex')" by blast
  then show ?thesis
  proof (elim disjE exE conjE)
    fix e
    assume e: "ThreadFunction Q run n ?ex = Inl e"
    obtain ts P' where ts: "takes (pend (MessageQueue ?ex)) ts P'" "StopTask \<notin> set (map snd ts)"
      "fold_result run (payload (map snd ts)) (target ex) = Inl e"
      using ThreadFunction_throws [OF assms(1) e run(1)] run(2) by auto
    have "map Work ws @ [StopTask] = map snd ts @ P' d"
      using takesD [OF ts(1), of d] own [OF ts(1)] by (simp add: Pd)
    moreover from this have "StopTask \<in> set (map snd ts @ P' d)"
      by (metis in_set_conv_decomp)
    ultimately obtain us vs where "ws = us @ vs" "map snd ts = map Work us"
      using ts(2) by (cases "P' d" rule: rev_cases) (auto simp: map_eq_append_conv)
    then have "fold_result run ws (target ex) = Inl e"
      using ts(3) by (simp add: fold_result_append)
    with e show ?thesis by auto
  next
    fix ex'
    assume r: "ThreadFunction Q run n ?ex = Inr ex'" "\<not> RunThread ex'"
    have "\<And>p. StopTask \<notin> set (pend (MessageQueue ex) p)" by (auto simp: P)
    from destroyed_ran_own [OF assms(1,3) this r]
    obtain ts where "of_producer d ts = map Work ws @ [StopTask]"
      "fold_result run (payload (map snd ts)) (target ex) = Inr (target ex')"
      "\<forall>p. \<exists>rest. pend (MessageQueue ex) p @ (if p = d then [StopTask] else []) = of_producer p ts @ rest"
      by (auto simp: P)
    moreover from this(3) have "of_producer p ts = []" if "p \<noteq> d" for p
      using that by (auto simp: P dest: spec [of _ p])
    then have "fst t = d" if "t \<in> set ts" for t
      using that of_producer_set [of "snd t" "fst t" ts] by (cases "fst t = d") auto
    then have "map snd ts = of_producer d ts" by (simp add: of_producer_def)
    ultimately have "fold_result run ws (target ex) = Inr (target ex')" by simp
    with r show ?thesis by auto
  qed
qed

text \<open>
  C24: the destructor returns. If polling a non-empty queue eventually finds an item, only
  finitely many items are queued and no work item throws, then after finitely many iterations
  the worker has met the stop item and the join of the destructor succeeds.
\<close>

theorem destructor_terminates:
  assumes "queue_contract Q pend" and "queue_live Q pend" and "RunThread ex"
    and "finite {p. pend (MessageQueue ex) p \<noteq> []}"
    and "\<And>w s. \<exists>s'. run w s = Inr s'"
  shows "\<exists>n ex'. ThreadFunction Q run n (destroy_send Q d ex) = Inr ex' \<and> \<not> RunThread ex'"
proof -
  obtain n where n: "(\<exists>e. ThreadFunction Q run n (destroy_send Q d ex) = Inl e) \<or>
      (\<exists>ex'. ThreadFunction Q run n (destroy_send Q d ex) = Inr ex' \<and> \<not> RunThread ex')"
    using destroyed_stops_or_throws [OF assms(1-4)] by blast
  have "RunThread (destroy_send Q d ex)" using assms(3) by (simp add: destroy_send_def SendWork_def)
  then have "ThreadFunction Q run n (destroy_send Q d ex) \<noteq> Inl e" for e
    using ThreadFunction_throws [OF assms(1)] fold_result_total [of run, OF assms(5)] by metis
  with n show ?thesis by blast
qed

theorem destructor_terminates_witness:
  "\<exists>n ex'. ThreadFunction list_queue (\<lambda>w s. Inr (s + w)) n
     (destroy_send list_queue 1 (ThreadedExecutor [(0, Work (2::nat))] (0::nat))) = Inr ex'
     \<and> \<not> RunThread ex'"
proof (rule destructor_terminates [OF list_queue_contract list_queue_live])
  have "{p. list_pend [(0::nat, Work (2::nat))] p \<noteq> []} \<subseteq> {0}" by (auto simp: list_pend_def)
  then show "finite {p. list_pend (MessageQueue (ThreadedExecutor [(0::nat, Work (2::nat))] (0::nat))) p \<noteq> []}"
    by (simp add: ThreadedExecutor_def finite_subset)
qed (simp_all add: ThreadedExecutor_def)

text \<open>
  Work sent by one thread runs in the order in which it was sent: after any number of
  iterations the worker has run exactly the first \<open>k\<close> items, for some \<open>k\<close>, and the others are
  still queued in order.
\<close>

theorem single_producer_fifo:
  assumes "queue_contract Q pend" and "RunThread ex"
    and "pend (MessageQueue ex) = (\<lambda>_. [])(p := map Work ws)"
    and "ThreadFunction Q run n ex = Inr ex'"
  shows "\<exists>k. fold_result run (take k ws) (target ex) = Inr (target ex')
    \<and> pend (MessageQueue ex') p = map Work (drop k ws)"
  by (rule single_producer_prefix [OF assms])

theorem single_producer_fifo_witness:
  "\<exists>k. fold_result (\<lambda>w s. Inr (s @ [w])) (take k [1, 2, 3]) [] = Inr [1, 2::nat]
    \<and> list_pend [(7::nat, Work (3::nat))] 7 = map Work (drop k [1, 2, 3])"
proof -
  let ?ex = "ThreadedExecutor [(7, Work 1), (7, Work 2), (7, Work 3)] ([]::nat list)"
  have p: "list_pend (MessageQueue ?ex) = (\<lambda>_. [])(7 := map Work [1, 2, 3::nat])"
    by (simp add: ThreadedExecutor_def list_pend_def fun_eq_iff)
  have r: "ThreadFunction list_queue (\<lambda>w s. Inr (s @ [w])) 2 ?ex =
      Inr \<lparr>RunThread = True, MessageQueue = [(7, Work 3)], target = [1, 2]\<rparr>"
    by (simp add: ThreadedExecutor_def list_queue_def numeral_2_eq_2)
  show ?thesis
    using single_producer_fifo [OF list_queue_contract _ p r] by (simp add: ThreadedExecutor_def)
qed

end
