(* ===== verification/Base_Handler.thy ===== *)
theory Base_Handler
  imports Log_Util Threaded_Executor
begin

text \<open>
  The abstract class \<open>BaseLogHandler\<close> of \<open>include/graylog_logger/LogUtil.hpp\<close>: its data
  member, its non-virtual operation, and the contract of the virtual \<open>addMessage\<close> that
  \<open>LoggingBase\<close> relies on, as a locale. \<open>ConsoleInterface\<close> and \<open>FileInterface\<close> satisfy
  the strong form (no message is refused), \<open>GraylogInterface\<close> the weak one.
\<close>

record handler_base =
  MessageParser :: "parser option"

definition setMessageStringCreatorFunction ::
  "parser option \<Rightarrow> 'a handler_base_scheme \<Rightarrow> 'a handler_base_scheme" where
  "setMessageStringCreatorFunction ParserFunction h = h\<lparr>MessageParser := ParserFunction\<rparr>"

text \<open>
  \<open>accepted thr h\<close> are the messages that \<open>h\<close> has taken from thread \<open>thr\<close> and not processed
  yet, oldest first. \<open>usable h\<close> carries what the third-party queue of the handler promises.
\<close>

locale log_handler =
  fixes addMessage :: "nat \<Rightarrow> LogMessage \<Rightarrow> 'h \<Rightarrow> exn + 'h"
    and accepted :: "nat \<Rightarrow> 'h \<Rightarrow> 'm list"
    and encode :: "LogMessage \<Rightarrow> 'm"
    and usable :: "'h \<Rightarrow> bool"
  assumes add_accepts: "usable h \<Longrightarrow> addMessage thr m h = Inr h' \<Longrightarrow>
      accepted thr h' = accepted thr h @ [encode m] \<or> accepted thr h' = accepted thr h"
    and add_other: "usable h \<Longrightarrow> addMessage thr m h = Inr h' \<Longrightarrow> thr' \<noteq> thr \<Longrightarrow>
      accepted thr' h' = accepted thr' h"
    and add_usable: "usable h \<Longrightarrow> addMessage thr m h = Inr h' \<Longrightarrow> usable h'"
begin

lemma fold_usable:
  "usable h \<Longrightarrow> fold_result (addMessage thr) ms h = Inr h' \<Longrightarrow> usable h'"
  by (rule fold_result_inv [where I = usable and f = "addMessage thr" and xs = ms])
    (auto intro: add_usable)

text \<open>A handler never invents, duplicates or reorders messages.\<close>

lemma fold_accepts:
  assumes "usable h" and "fold_result (addMessage thr) ms h = Inr h'"
  shows "\<exists>ks \<in> set (subseqs ms). accepted thr h' = accepted thr h @ map encode ks"
  using assms
proof (induction ms arbitrary: h)
  case Nil
  then show ?case by simp
next
  case (Cons m ms)
  then obtain h1 where h1: "addMessage thr m h = Inr h1"
    "fold_result (addMessage thr) ms h1 = Inr h'" by (auto split: sum.splits)
  from Cons.IH [OF add_usable [OF Cons.prems(1) h1(1)] h1(2)] obtain ks where
    ks: "ks \<in> set (subseqs ms)" "accepted thr h' = accepted thr h1 @ map encode ks" by blast
  from add_accepts [OF Cons.prems(1) h1(1)] show ?case
  proof
    assume "accepted thr h1 = accepted thr h @ [encode m]"
    with ks show ?thesis by (intro bexI [of _ "m # ks"]) (auto simp: Let_def)
  next
    assume "accepted thr h1 = accepted thr h"
    with ks show ?thesis by (intro bexI [of _ ks]) (auto simp: Let_def)
  qed
qed

end

locale reliable_log_handler = log_handler +
  assumes add_total: "\<exists>h'. addMessage thr m h = Inr h'"
    and add_keeps: "usable h \<Longrightarrow> addMessage thr m h = Inr h' \<Longrightarrow>
      accepted thr h' = accepted thr h @ [encode m]"
begin

lemma fold_total: "\<exists>h'. fold_result (addMessage thr) ms h = Inr h'"
proof (induction ms arbitrary: h)
  case Nil
  then show ?case by simp
next
  case (Cons m ms)
  obtain h1 where "addMessage thr m h = Inr h1" using add_total by blast
  with Cons show ?case by simp
qed

lemma fold_keeps:
  assumes "usable h" and "fold_result (addMessage thr) ms h = Inr h'"
  shows "accepted thr h' = accepted thr h @ map encode ms"
  using assms
proof (induction ms arbitrary: h)
  case Nil
  then show ?case by simp
next
  case (Cons m ms)
  then obtain h1 where h1: "addMessage thr m h = Inr h1"
    "fold_result (addMessage thr) ms h1 = Inr h'" by (auto split: sum.splits)
  from Cons.IH [OF add_usable [OF Cons.prems(1) h1(1)] h1(2)] add_keeps [OF Cons.prems(1) h1(1)]
  show ?case by simp
qed

end

end
