(* ===== verification/Console_Interface.thy ===== *)
theory Console_Interface
  imports Base_Handler
begin

text \<open>
  Model of \<open>src/ConsoleInterface.cpp\<close>. The closures that the class sends to its executor are
  the constructors of \<open>console_work\<close>; \<open>run_console\<close> is their bodies. \<open>Stdout\<close> is what this
  handler has written to standard output, \<open>Flushed\<close> how much of it has left the stream
  buffer, \<open>Fulfilled\<close> the promises (numbered by the caller) that have been set.
\<close>

section \<open>State and operations\<close>

record console_state = handler_base +
  Stdout :: string
  Flushed :: nat
  Fulfilled :: "nat list"

datatype console_work =
    PrintMessage LogMessage
  | SetParser "parser option"
  | FlushCout nat

type_synonym 'q console = "('q, console_state) executor"
type_synonym 'q console_queue = "('q, console_work task) queue_ops"

definition ConsoleStringCreator :: parser where
  "ConsoleStringCreator m =
     (case severity_name (SeverityLevel m) of
        Inl e \<Rightarrow> Inl e
      | Inr name \<Rightarrow> Inr (name @ '': '' @ MessageString m))"

definition ConsoleInterface :: "'q \<Rightarrow> 'q console" where
  "ConsoleInterface empty_queue = ThreadedExecutor empty_queue
     (setMessageStringCreatorFunction (Some ConsoleStringCreator)
        \<lparr>MessageParser = None, Stdout = [], Flushed = 0, Fulfilled = []\<rparr>)"

fun run_console :: "console_work \<Rightarrow> console_state \<Rightarrow> exn + console_state" where
  "run_console (PrintMessage m) s =
     (case MessageParser s of
        None \<Rightarrow> Inl Bad_function_call
      | Some f \<Rightarrow>
          (case f m of
             Inl e \<Rightarrow> Inl e
           | Inr text \<Rightarrow> Inr (s\<lparr>Stdout := Stdout s @ c_str (text @ newline)\<rparr>)))"
| "run_console (SetParser f) s = Inr (setMessageStringCreatorFunction f s)"
| "run_console (FlushCout promise) s =
     Inr (s\<lparr>Flushed := length (Stdout s), Fulfilled := promise # Fulfilled s\<rparr>)"

definition console_addMessage ::
  "'q console_queue \<Rightarrow> nat \<Rightarrow> LogMessage \<Rightarrow> 'q console \<Rightarrow> exn + 'q console" where
  "console_addMessage Q thr Message h = Inr (SendWork Q thr (Work (PrintMessage Message)) h)"

definition console_setParser ::
  "'q console_queue \<Rightarrow> nat \<Rightarrow> parser option \<Rightarrow> 'q console \<Rightarrow> 'q console" where
  "console_setParser Q thr ParserFunction h = SendWork Q thr (Work (SetParser ParserFunction)) h"

text \<open>
  \<open>flush\<close>: the promise is fresh; \<open>budget\<close> is the number of iterations that the worker gets
  done before \<open>TimeOut\<close>. The result is whether the future is ready then.
\<close>

definition console_flush ::
  "'q console_queue \<Rightarrow> nat \<Rightarrow> nat \<Rightarrow> nat \<Rightarrow> 'q console \<Rightarrow> exn + (bool \<times> 'q console)" where
  "console_flush Q thr promise budget h =
     (case ThreadFunction Q run_console budget (SendWork Q thr (Work (FlushCout promise)) h) of
        Inl e \<Rightarrow> Inl e
      | Inr h' \<Rightarrow> Inr (promise \<in> set (Fulfilled (target h')), h'))"

definition console_emptyQueue :: "'q console_queue \<Rightarrow> 'q console \<Rightarrow> bool" where
  "console_emptyQueue Q h = (size_approx Q h = 0)"

definition console_queueSize :: "'q console_queue \<Rightarrow> 'q console \<Rightarrow> nat" where
  "console_queueSize Q h = size_approx Q h"

section \<open>The handler contract\<close>

fun print_of :: "console_work task \<Rightarrow> LogMessage list" where
  "print_of (Work (PrintMessage m)) = [m]"
| "print_of _ = []"

definition console_accepted ::
  "('q \<Rightarrow> nat \<Rightarrow> console_work task list) \<Rightarrow> nat \<Rightarrow> 'q console \<Rightarrow> LogMessage list" where
  "console_accepted pend thr h = concat (map print_of (pend (MessageQueue h) thr))"

interpretation console_sink: reliable_log_handler "console_addMessage Q" "console_accepted pend"
  "\<lambda>m. m" "\<lambda>_. queue_contract Q pend"
  for Q :: "'q console_queue" and pend
  by unfold_locales
    (auto simp: console_addMessage_def console_accepted_def SendWork_def contract_enqueue)

section \<open>Lemmas\<close>

definition printable :: "LogMessage \<Rightarrow> bool" where
  "printable m \<longleftrightarrow> known_severity (SeverityLevel m) \<and> nul \<notin> set (MessageString m)"

definition console_line :: "LogMessage \<Rightarrow> string" where
  "console_line m = sevToStr ! nat (int_of_severity (SeverityLevel m)) @ '': '' @ MessageString m @ newline"

lemma severity_names_no_nul: "n < 9 \<Longrightarrow> nul \<notin> set (sevToStr ! n)"
  by (auto simp: sevToStr_def nul_def less_Suc_eq numeral_eq_Suc)

lemma newline_no_nul [simp]: "nul \<notin> set newline"
  by (simp add: newline_def nul_def)

lemma run_console_print:
  assumes "MessageParser s = Some ConsoleStringCreator" and "printable m"
  shows "run_console (PrintMessage m) s = Inr (s\<lparr>Stdout := Stdout s @ console_line m\<rparr>)"
proof -
  from assms(2) have k: "known_severity (SeverityLevel m)" and z: "nul \<notin> set (MessageString m)"
    by (auto simp: printable_def)
  have "nat (int_of_severity (SeverityLevel m)) < 9" using k by (auto simp: known_severity_def)
  then have "nul \<notin> set (console_line m)"
    using z severity_names_no_nul newline_no_nul unfolding console_line_def nul_def by auto
  then show ?thesis
    using assms(1) severity_name_known [OF k] by (simp add: ConsoleStringCreator_def console_line_def)
qed

lemma run_console_prints:
  assumes "MessageParser s = Some ConsoleStringCreator" and "\<forall>m \<in> set ms. printable m"
  shows "fold_result run_console (map PrintMessage ms) s =
    Inr (s\<lparr>Stdout := Stdout s @ concat (map console_line ms)\<rparr>)"
  using assms
proof (induction ms arbitrary: s)
  case Nil
  then show ?case by simp
next
  case (Cons m ms)
  then show ?case by (simp add: run_console_print del: run_console.simps)
qed

text \<open>The state after construction and a sequence of \<open>addMessage\<close> calls of one thread.\<close>

lemma console_queue_after_adds:
  assumes "queue_contract Q pend"
    and "fold_result (console_addMessage Q t) ms h = Inr h'"
  shows "pend (MessageQueue h') = (pend (MessageQueue h))
      (t := pend (MessageQueue h) t @ map (Work \<circ> PrintMessage) ms)
    \<and> target h' = target h \<and> RunThread h' = RunThread h"
  using assms(2)
  by (induction ms arbitrary: h)
    (auto simp: console_addMessage_def SendWork_def contract_enqueue [OF assms(1)])

text \<open>Output only grows, and what was flushed stays flushed.\<close>

definition stream_ok :: "console_state \<Rightarrow> bool" where
  "stream_ok s \<longleftrightarrow> Flushed s \<le> length (Stdout s)"

lemma run_console_stream_ok: "run_console w s = Inr s' \<Longrightarrow> stream_ok s \<Longrightarrow> stream_ok s'"
  by (cases w) (auto simp: stream_ok_def setMessageStringCreatorFunction_def
      split: option.splits sum.splits)

interpretation console_worker: worker_object run_console stream_ok "\<lambda>_. True"
  by unfold_locales (auto intro: run_console_stream_ok)

lemma fulfilled_only_by_flush:
  "fold_result run_console ws s = Inr s' \<Longrightarrow>
     set (Fulfilled s') = set (Fulfilled s) \<union> {p. FlushCout p \<in> set ws}"
proof (induction ws arbitrary: s)
  case Nil
  then show ?case by simp
next
  case (Cons w ws)
  then show ?case
    by (cases w) (fastforce simp: setMessageStringCreatorFunction_def
        split: option.splits sum.splits)+
qed

lemma run_console_grows:
  "fold_result run_console ws s = Inr s' \<Longrightarrow>
     (\<exists>more. Stdout s' = Stdout s @ more) \<and>
     (stream_ok s \<longrightarrow> Flushed s \<le> Flushed s')"
proof (induction ws arbitrary: s)
  case Nil
  then show ?case by simp
next
  case (Cons w ws)
  then obtain s1 where s1: "run_console w s = Inr s1" "fold_result run_console ws s1 = Inr s'"
    by (auto split: sum.splits)
  have "\<exists>more. Stdout s1 = Stdout s @ more" "stream_ok s \<longrightarrow> Flushed s \<le> Flushed s1"
    using s1(1) by (cases w; auto simp: setMessageStringCreatorFunction_def stream_ok_def
        split: option.splits sum.splits)+
  with Cons.IH [OF s1(2)] run_console_stream_ok [OF s1(1)] show ?case
    by (metis append.assoc order_trans)
qed

text \<open>Work of one thread behind a freshly constructed handler.\<close>

lemma console_fresh_queue:
  assumes "queue_contract Q pend" and "pend q0 = (\<lambda>_. [])"
    and "fold_result (console_addMessage Q t) ms (ConsoleInterface q0) = Inr h"
  shows "pend (MessageQueue h) = (\<lambda>_. [])(t := map Work (map PrintMessage ms))"
    and "RunThread h" and "target h = target (ConsoleInterface q0)"
    and "MessageParser (target h) = Some ConsoleStringCreator" and "Stdout (target h) = []"
  using console_queue_after_adds [OF assms(1,3)]
  by (auto simp: ConsoleInterface_def ThreadedExecutor_def assms(2)
      setMessageStringCreatorFunction_def)

text \<open>
  A queue that satisfies the contract and serves the producer of the newest item first, so
  that a later item of another thread overtakes.
\<close>

fun take_first :: "nat \<Rightarrow> (nat \<times> 'w) list \<Rightarrow> ('w \<times> (nat \<times> 'w) list) option" where
  "take_first p [] = None"
| "take_first p ((p', w) # ts) =
     (if p' = p then Some (w, ts)
      else map_option (\<lambda>(v, us). (v, (p', w) # us)) (take_first p ts))"

definition newest_first_queue :: "((nat \<times> 'w) list, 'w) queue_ops" where
  "newest_first_queue = \<lparr>q_enqueue = (\<lambda>p w q. q @ [(p, w)]),
     q_try_dequeue = (\<lambda>q. if q = [] then (None, q)
        else (case take_first (fst (last q)) q of None \<Rightarrow> (None, q) | Some (w, q') \<Rightarrow> (Some w, q'))),
     q_size_approx = length\<rparr>"

lemma take_first_Some:
  "take_first p q = Some (w, q') \<Longrightarrow>
     of_producer p q = w # of_producer p q' \<and> (\<forall>p'. p' \<noteq> p \<longrightarrow> of_producer p' q' = of_producer p' q)"
  by (induction p q arbitrary: q' rule: take_first.induct) (auto split: if_splits)

lemma take_first_member: "p \<in> fst ` set q \<Longrightarrow> take_first p q \<noteq> None"
  by (induction p q rule: take_first.induct) auto

lemma newest_first_contract: "queue_contract newest_first_queue list_pend"
proof -
  have "\<exists>p ws. list_pend q p = w # ws \<and> list_pend q' = (list_pend q)(p := ws)"
    if "q_try_dequeue newest_first_queue q = (Some w, q')" for q :: "(nat \<times> 'a) list" and w q'
  proof -
    from that have "take_first (fst (last q)) q = Some (w, q')"
      by (auto simp: newest_first_queue_def split: if_splits option.splits)
    from take_first_Some [OF this] show ?thesis
      by (intro exI [of _ "fst (last q)"] exI [of _ "of_producer (fst (last q)) q'"])
        (auto simp: list_pend_def fun_eq_iff)
  qed
  moreover have "list_pend q' = list_pend q" if "q_try_dequeue newest_first_queue q = (None, q')"
    for q q' :: "(nat \<times> 'a) list"
    using that by (auto simp: newest_first_queue_def split: if_splits option.splits)
  moreover have "list_pend (q_enqueue newest_first_queue p w q) =
      (list_pend q)(p := list_pend q p @ [w])" for p w and q :: "(nat \<times> 'a) list"
    by (simp add: newest_first_queue_def list_pend_def fun_eq_iff)
  ultimately show ?thesis unfolding queue_contract_def by blast
qed

lemma newest_first_live: "queue_live newest_first_queue list_pend"
proof -
  have nf: "fst (q_try_dequeue newest_first_queue q) \<noteq> None"
    if "q \<noteq> []" for q :: "(nat \<times> 'a) list"
  proof -
    have "take_first (fst (last q)) q \<noteq> None"
      by (intro take_first_member) (use that in simp)
    then show ?thesis
      using that by (auto simp: newest_first_queue_def)
  qed
  show ?thesis
    unfolding queue_live_def
  proof (intro allI impI exI)
    fix q :: "(nat \<times> 'a) list" and p
    assume "list_pend q p \<noteq> []"
    then have "q \<noteq> []" by (auto simp: list_pend_def)
    then show "fst (q_try_dequeue newest_first_queue (failed_polls newest_first_queue 0 q)) \<noteq> None"
      using nf by simp
  qed
qed

section \<open>Properties\<close>

text \<open>
  Everything logged to a console handler appears on standard output. A handler is
  constructed, one thread adds messages (severities 0 to 8, no NUL character) and destroys
  it: the worker stops after finitely many iterations, and standard output then holds exactly
  one line per message, in order.
\<close>

theorem console_prints_all:
  assumes "queue_contract Q pend" and "queue_live Q pend" and "pend q0 = (\<lambda>_. [])"
    and "\<forall>m \<in> set ms. printable m"
    and "fold_result (console_addMessage Q t) ms (ConsoleInterface q0) = Inr h"
  shows "\<exists>n h'. ThreadFunction Q run_console n (destroy_send Q t h) = Inr h'
    \<and> \<not> RunThread h' \<and> Stdout (target h') = concat (map console_line ms)"
proof -
  note fresh = console_fresh_queue [OF assms(1,3,5)]
  have "fold_result run_console (map PrintMessage ms) (target h) =
    Inr ((target h)\<lparr>Stdout := concat (map console_line ms)\<rparr>)"
    using run_console_prints [OF fresh(4) assms(4)] fresh(5) by simp
  with single_thread_destroyed [OF assms(1,2) fresh(2,1), where run = run_console]
  show ?thesis by fastforce
qed

theorem console_prints_all_witness:
  "\<exists>n h'. ThreadFunction list_queue run_console n
      (destroy_send list_queue 0
        (SendWork list_queue 0 (Work (PrintMessage (LogMessage_default\<lparr>MessageString := ''hi''\<rparr>)))
          (ConsoleInterface []))) = Inr h'
    \<and> \<not> RunThread h' \<and> Stdout (target h') = ''Debug: hi'' @ newline"
proof -
  let ?m = "LogMessage_default\<lparr>MessageString := ''hi''\<rparr>"
  have k: "known_severity (SeverityLevel ?m)" "int_of_severity (SeverityLevel ?m) = 7"
    by (simp_all add: LogMessage_default_def known_severity_def int_of_severity_def Debug_def)
  then have "\<forall>m \<in> set [?m]. printable m" by (simp add: printable_def nul_def)
  moreover have "list_pend [] = (\<lambda>_. [] :: console_work task list)" by (simp add: list_pend_def fun_eq_iff)
  moreover have "fold_result (console_addMessage list_queue 0) [?m] (ConsoleInterface []) =
      Inr (SendWork list_queue 0 (Work (PrintMessage ?m)) (ConsoleInterface []))"
    by (simp add: console_addMessage_def)
  ultimately show ?thesis
    using console_prints_all [OF list_queue_contract list_queue_live, of "[]" "[?m]"] k
    by (simp add: console_line_def sevToStr_def)
qed

text \<open>
  A message whose severity is outside 0 to 8 kills the process: the bounds-checked lookup
  of the severity's name throws on the worker thread, after the messages before it were
  printed and before any later one.
\<close>

theorem console_unknown_severity_throws:
  assumes "queue_contract Q pend" and "queue_live Q pend" and "pend q0 = (\<lambda>_. [])"
    and "\<forall>m \<in> set ms. printable m" and "\<not> known_severity (SeverityLevel bad)"
    and "fold_result (console_addMessage Q t) (ms @ bad # later) (ConsoleInterface q0) = Inr h"
  shows "\<exists>n. ThreadFunction Q run_console n (destroy_send Q t h) = Inl Out_of_range"
proof -
  note fresh = console_fresh_queue [OF assms(1,3,6)]
  let ?s = "(target h)\<lparr>Stdout := concat (map console_line ms)\<rparr>"
  have "fold_result run_console (map PrintMessage ms) (target h) = Inr ?s"
    using run_console_prints [OF fresh(4) assms(4)] fresh(5) by simp
  moreover have "run_console (PrintMessage bad) ?s = Inl Out_of_range"
    using fresh(4) severity_name_unknown [OF assms(5)] by (simp add: ConsoleStringCreator_def)
  ultimately have "fold_result run_console (map PrintMessage (ms @ bad # later)) (target h) = Inl Out_of_range"
    by (simp add: fold_result_append del: run_console.simps)
  with single_thread_destroyed [OF assms(1,2) fresh(2,1), where run = run_console]
  show ?thesis by simp
qed

theorem console_unknown_severity_throws_witness:
  "\<exists>n. ThreadFunction list_queue run_console n
      (destroy_send list_queue 0
        (SendWork list_queue 0
          (Work (PrintMessage (LogMessage_default\<lparr>SeverityLevel := Severity (- 7)\<rparr>)))
          (ConsoleInterface []))) = Inl Out_of_range"
proof -
  let ?m = "LogMessage_default\<lparr>SeverityLevel := Severity (- 7)\<rparr>"
  have "\<not> known_severity (SeverityLevel ?m)" by (simp add: known_severity_def int_of_severity_def)
  moreover have "list_pend [] = (\<lambda>_. [] :: console_work task list)" by (simp add: list_pend_def fun_eq_iff)
  moreover have "fold_result (console_addMessage list_queue 0) ([] @ [?m]) (ConsoleInterface []) =
      Inr (SendWork list_queue 0 (Work (PrintMessage ?m)) (ConsoleInterface []))"
    by (simp add: console_addMessage_def)
  ultimately show ?thesis
    using console_unknown_severity_throws [OF list_queue_contract list_queue_live,
        of "[]" "[]" ?m 0 "[]"] by simp
qed

text \<open>
  C30: \<open>flush\<close> keeps its promise to the thread that calls it. When it returns true, the worker
  has taken items from the queue (\<open>ts\<close>, of any thread, each thread's own in order) until
  nothing of the calling thread was left (\<open>P t = []\<close>), and everything printed by then, the
  calling thread's messages included, is not only written but flushed.
\<close>

theorem console_flush_own_messages:
  assumes "queue_contract Q pend" and "RunThread h" and "stream_ok (target h)"
    and "promise \<notin> set (Fulfilled (target h))"
    and "\<And>p. Work (FlushCout promise) \<notin> set (pend (MessageQueue h) p)"
    and "console_flush Q t promise budget h = Inr (True, h')"
  shows "\<exists>ts P s1. takes (pend (MessageQueue h)) ts P \<and> P t = []
    \<and> fold_result run_console (payload (map snd ts)) (target h) = Inr s1
    \<and> take (length (Stdout s1)) (Stdout (target h')) = Stdout s1
    \<and> length (Stdout s1) \<le> Flushed (target h')"
proof -
  let ?w = "Work (FlushCout promise)"
  let ?h = "SendWork Q t ?w h"
  have r: "ThreadFunction Q run_console budget ?h = Inr h'"
    and ful: "promise \<in> set (Fulfilled (target h'))"
    using assms(6) by (auto simp: console_flush_def split: sum.splits)
  have Pt: "pend (MessageQueue ?h) = (pend (MessageQueue h))(t := pend (MessageQueue h) t @ [?w])"
    by (simp add: SendWork_def contract_enqueue [OF assms(1)])
  obtain ts where ts: "takes (pend (MessageQueue ?h)) ts (pend (MessageQueue h'))"
    "fold_result run_console (payload (map snd ts)) (target h) = Inr (target h')"
    using ThreadFunction_runs [OF assms(1) r] assms(2) by (auto simp: SendWork_def)
  have "FlushCout promise \<in> set (payload (map snd ts))"
    using fulfilled_only_by_flush [OF ts(2)] ful assms(4) by auto
  then have mem: "?w \<in> set (map snd ts)" by (simp only: console_worker.payload_set)
  note own = takes_stop_last(1) [OF ts(1) [unfolded Pt] assms(5) mem]
    and none_left = takes_stop_last(2) [OF ts(1) [unfolded Pt] assms(5) mem]
  obtain ts1 p ts2 where split: "ts = ts1 @ (p, ?w) # ts2" "?w \<notin> set (map snd ts1)"
    using split_list_first [OF mem] by (auto simp: map_eq_append_conv)
  have "(p, ?w) \<in> set ts" using split by simp
  then have "?w \<in> set (pend (MessageQueue ?h) p)"
    using takesD [OF ts(1), of p] by (simp add: of_producer_set)
  then have pt: "p = t" using assms(5) [of p] by (auto simp: Pt split: if_splits)
  have own1: "of_producer t ts1 @ ?w # of_producer t ts2 = pend (MessageQueue h) t @ [?w]"
    using own split(1) pt by simp
  have "of_producer t ts2 = []"
  proof (rule ccontr)
    assume "of_producer t ts2 \<noteq> []"
    then obtain us u where "of_producer t ts2 = us @ [u]" by (cases rule: rev_cases) auto
    with own1 have "pend (MessageQueue h) t = of_producer t ts1 @ ?w # us" by simp
    with assms(5) [of t] show False by simp
  qed
  with own1 have own2: "of_producer t ts1 = pend (MessageQueue h) t" by simp
  obtain s1 where s1: "fold_result run_console (payload (map snd ts1)) (target h) = Inr s1"
    and rest: "fold_result run_console (payload (map snd ts2))
      (s1\<lparr>Flushed := length (Stdout s1), Fulfilled := promise # Fulfilled s1\<rparr>) = Inr (target h')"
    using ts(2) split(1) by (auto simp: fold_result_append split: sum.splits)
  let ?P = "\<lambda>p. of_producer p ((t, ?w) # ts2) @ pend (MessageQueue h') p"
  have "takes (pend (MessageQueue h)) ts1 (?P(t := []))"
  proof -
    have "pend (MessageQueue h) p = of_producer p ts1 @ ?P p" if "p \<noteq> t" for p
      using takesD [OF ts(1), of p] that split(1) pt by (simp add: Pt)
    with own2 show ?thesis by (simp add: takes_def)
  qed
  with run_console_grows [OF rest] s1 show ?thesis
    by (intro exI [of _ ts1] exI [of _ "?P(t := [])"] exI [of _ s1]) (auto simp: stream_ok_def)
qed

theorem console_flush_own_messages_witness:
  "\<exists>ts P s1 h'. takes ((\<lambda>_. [])(0 := [Work (PrintMessage LogMessage_default)],
        1 := [Work (SetParser None)])) ts P \<and> P 0 = []
    \<and> fold_result run_console (payload (map snd ts))
        (target (ConsoleInterface ([] :: (nat \<times> console_work task) list))) = Inr s1
    \<and> take (length (Stdout s1)) (Stdout (target h')) = Stdout s1
    \<and> length (Stdout s1) \<le> Flushed (target (h' :: (nat \<times> console_work task) list console))"
proof -
  let ?h = "\<lparr>RunThread = True, MessageQueue = [(0, Work (PrintMessage LogMessage_default)), (1, Work (SetParser None))],
    target = target (ConsoleInterface ([] :: (nat \<times> console_work task) list))\<rparr>"
  have name: "severity_name Debug = Inr ''Debug''"
    by (simp add: severity_name_def int_of_severity_def Debug_def at_checked_def sevToStr_def)
  have out: "c_str (''Debug: '' @ newline) = ''Debug: '' @ newline"
    by (rule c_str_id) (auto simp: nul_def newline_def)
  have "console_flush list_queue 0 5 3 ?h = Inr (True, \<lparr>RunThread = True, MessageQueue = [],
    target = \<lparr>MessageParser = None, Stdout = ''Debug: '' @ newline,
      Flushed = 8, Fulfilled = [5]\<rparr>\<rparr>)"
    using name out
    by (simp add: console_flush_def SendWork_def ConsoleInterface_def ThreadedExecutor_def
        list_queue_def numeral_3_eq_3 setMessageStringCreatorFunction_def ConsoleStringCreator_def
        LogMessage_default_def newline_def)
  note fl = this
  have st: "RunThread ?h" "stream_ok (target ?h)" "5 \<notin> set (Fulfilled (target ?h))"
    by (simp_all add: ConsoleInterface_def ThreadedExecutor_def stream_ok_def
        setMessageStringCreatorFunction_def)
  have np: "Work (FlushCout 5) \<notin> set (list_pend (MessageQueue ?h) p)" for p
    by (simp add: list_pend_def)
  have pe: "list_pend (MessageQueue ?h) = (\<lambda>_. [])(0 := [Work (PrintMessage LogMessage_default)],
      1 := [Work (SetParser None)])" by (simp add: list_pend_def fun_eq_iff)
  from console_flush_own_messages [OF list_queue_contract st np fl]
  show ?thesis unfolding pe by (elim exE conjE) (intro exI conjI, assumption+, simp)
qed

text \<open>
  C31: the documented guarantee of \<open>flush\<close> ("waits for all messages created before the call
  to flush to be printed") is not given when another thread calls it, as
  \<open>LoggingBase::flush\<close> does: with a queue that orders the items of one producer only, as the
  third-party queue does, the flush item of thread 1 can overtake the message that thread 0
  had added to a freshly constructed handler before: \<open>flush\<close> returns true while the message is
  still queued and nothing is printed. \<open>newest_first_queue\<close> is such a queue.
\<close>

theorem console_flush_may_overtake:
  "queue_contract newest_first_queue list_pend \<and> queue_live newest_first_queue list_pend
   \<and> (\<exists>h h'. console_addMessage newest_first_queue 0 m (ConsoleInterface []) = Inr h
       \<and> console_flush newest_first_queue 1 promise 1 h = Inr (True, h')
       \<and> list_pend (MessageQueue h') 0 = [Work (PrintMessage m)]
       \<and> Stdout (target h') = [] \<and> RunThread h')"
proof -
  let ?h = "SendWork newest_first_queue 0 (Work (PrintMessage m)) (ConsoleInterface [])"
  let ?h' = "\<lparr>RunThread = True, MessageQueue = [(0, Work (PrintMessage m))],
    target = (target (ConsoleInterface ([] :: (nat \<times> console_work task) list)))\<lparr>Fulfilled := [promise]\<rparr>\<rparr>"
  have "console_addMessage newest_first_queue 0 m (ConsoleInterface []) = Inr ?h"
    by (simp add: console_addMessage_def)
  moreover have "console_flush newest_first_queue 1 promise 1 ?h = Inr (True, ?h')"
    by (simp add: console_flush_def SendWork_def ConsoleInterface_def ThreadedExecutor_def
        newest_first_queue_def setMessageStringCreatorFunction_def)
  moreover have "list_pend (MessageQueue ?h') 0 = [Work (PrintMessage m)]"
    by (simp add: list_pend_def)
  moreover have "Stdout (target ?h') = []"
    by (simp add: ConsoleInterface_def ThreadedExecutor_def setMessageStringCreatorFunction_def)
  moreover have "RunThread ?h'" by simp
  ultimately show ?thesis using newest_first_contract newest_first_live by blast
qed

end
