(* ===== verification/File_Interface.thy ===== *)
theory File_Interface
  imports Base_Handler "HOL-Library.Sublist"
begin

text \<open>
  Model of \<open>src/FileInterface.cpp\<close>. Its \<open>std::ofstream\<close> is a file (\<open>Content\<close>), the buffer in
  front of it (\<open>Buffer\<close>) and the state bits (\<open>StreamGood\<close>). The file system and the policy of
  the stream buffer are a parameter (\<open>disk\<close>): how many characters of a text the stream accepts,
  and how many buffered characters reach the file when, which may be none, some or all.
  \<open>localtime\<close> is the parameter of the default message format.
\<close>

section \<open>State and operations\<close>

record file_state = handler_base +
  Content :: string
  Buffer :: string
  StreamGood :: bool
  StreamOpen :: bool
  FileFulfilled :: "nat list"

text \<open>
  \<open>d_put content buffer text\<close> is the number of characters of \<open>text\<close> that the stream accepts behind
  \<open>buffer\<close>, and the number of characters that go to the file at this moment; \<open>d_sync content
  buffer\<close> is the number of characters that a flush or the closing of the file gets written.
\<close>

record disk =
  d_put :: "string \<Rightarrow> string \<Rightarrow> string \<Rightarrow> nat \<times> nat"
  d_sync :: "string \<Rightarrow> string \<Rightarrow> nat"

datatype file_work =
    WriteMessage LogMessage
  | SetFileParser "parser option"
  | FlushFile nat

type_synonym 'q file_handler = "('q, file_state) executor"
type_synonym 'q file_queue = "('q, file_work task) queue_ops"

text \<open>
  The constructor opens the file for appending (\<open>existing\<close> is its content, \<open>None\<close> if it
  cannot be opened; a failed open sets the fail bit) and reports the outcome through
  \<open>Log::Msg\<close>: the second component is that call. \<open>MaxQueueLength\<close> is not used.
\<close>

definition file_opened_text :: "string \<Rightarrow> string" where
  "file_opened_text Name = ''Started logging to log file: '' @ [CHR 0x22] @ Name @ [CHR 0x22]"

definition file_failed_text :: "string \<Rightarrow> string" where
  "file_failed_text Name = ''Unable to open log file for logging: '' @ [CHR 0x22] @ Name @ [CHR 0x22]"

definition FileInterface ::
  "string option \<Rightarrow> 'q \<Rightarrow> string \<Rightarrow> nat \<Rightarrow> 'q file_handler \<times> (Severity \<times> string)" where
  "FileInterface existing empty_queue Name MaxQueueLength =
     (let s = (case existing of
                 Some c \<Rightarrow> \<lparr>MessageParser = None, Content = c, Buffer = [], StreamGood = True,
                            StreamOpen = True, FileFulfilled = []\<rparr>
               | None \<Rightarrow> \<lparr>MessageParser = None, Content = [], Buffer = [], StreamGood = False,
                          StreamOpen = False, FileFulfilled = []\<rparr>)
      in (ThreadedExecutor empty_queue s,
          if StreamOpen s \<and> StreamGood s then (Info, file_opened_text Name)
          else (Error, file_failed_text Name)))"

text \<open>
  \<open>FileStream << text\<close>: a stream that does not accept the whole text goes bad; what it accepted
  stays in the buffer or is in the file.
\<close>

definition stream_put :: "disk \<Rightarrow> string \<Rightarrow> file_state \<Rightarrow> file_state" where
  "stream_put disk text s =
     (let (accepted, written) = d_put disk (Content s) (Buffer s) text;
          buffered = Buffer s @ take accepted text
      in s\<lparr>Content := Content s @ take written buffered, Buffer := drop written buffered,
           StreamGood := (length text \<le> accepted)\<rparr>)"

text \<open>What \<open>sync\<close> writes of the buffer.\<close>

definition stream_sync :: "disk \<Rightarrow> file_state \<Rightarrow> file_state" where
  "stream_sync disk s =
     (let written = d_sync disk (Content s) (Buffer s)
      in s\<lparr>Content := Content s @ take written (Buffer s), Buffer := drop written (Buffer s)\<rparr>)"

text \<open>
  \<open>FileStream.flush()\<close> does nothing on a stream that is not good; it makes the stream bad when
  part of the buffer could not be written.
\<close>

definition stream_flush :: "disk \<Rightarrow> file_state \<Rightarrow> file_state" where
  "stream_flush disk s =
     (if StreamGood s then
        (let s' = stream_sync disk s in s'\<lparr>StreamGood := (Buffer s' = [])\<rparr>)
      else s)"

fun run_file ::
  "(int \<Rightarrow> tm) \<Rightarrow> disk \<Rightarrow> file_work \<Rightarrow> file_state \<Rightarrow> exn + file_state" where
  "run_file localtime disk (WriteMessage m) s =
     (if StreamGood s \<and> StreamOpen s then
        (case messageToString localtime (MessageParser s) m of
           Inl e \<Rightarrow> Inl e
         | Inr text \<Rightarrow> Inr (stream_put disk (text @ newline) s))
      else Inr s)"
| "run_file localtime disk (SetFileParser f) s = Inr (setMessageStringCreatorFunction f s)"
| "run_file localtime disk (FlushFile promise) s =
     (let s' = stream_flush disk s in Inr (s'\<lparr>FileFulfilled := promise # FileFulfilled s'\<rparr>))"

text \<open>
  The destructor of the handler joins the worker (\<open>Executor\<close> is the last member) and then
  destroys the stream, which writes what is buffered and closes the file.
\<close>

definition close_stream :: "disk \<Rightarrow> file_state \<Rightarrow> file_state" where
  "close_stream disk s = (if StreamOpen s then (stream_sync disk s)\<lparr>StreamOpen := False\<rparr> else s)"

definition file_addMessage ::
  "'q file_queue \<Rightarrow> nat \<Rightarrow> LogMessage \<Rightarrow> 'q file_handler \<Rightarrow> exn + 'q file_handler" where
  "file_addMessage Q thr Message h = Inr (SendWork Q thr (Work (WriteMessage Message)) h)"

definition file_setParser ::
  "'q file_queue \<Rightarrow> nat \<Rightarrow> parser option \<Rightarrow> 'q file_handler \<Rightarrow> 'q file_handler" where
  "file_setParser Q thr ParserFunction h = SendWork Q thr (Work (SetFileParser ParserFunction)) h"

definition file_flush ::
  "(int \<Rightarrow> tm) \<Rightarrow> disk \<Rightarrow> 'q file_queue \<Rightarrow> nat \<Rightarrow> nat \<Rightarrow> nat
     \<Rightarrow> 'q file_handler \<Rightarrow> exn + (bool \<times> 'q file_handler)" where
  "file_flush localtime disk Q thr promise budget h =
     (case ThreadFunction Q (run_file localtime disk) budget
             (SendWork Q thr (Work (FlushFile promise)) h) of
        Inl e \<Rightarrow> Inl e
      | Inr h' \<Rightarrow> Inr (promise \<in> set (FileFulfilled (target h')), h'))"

definition file_emptyQueue :: "'q file_queue \<Rightarrow> 'q file_handler \<Rightarrow> bool" where
  "file_emptyQueue Q h = (size_approx Q h = 0)"

definition file_queueSize :: "'q file_queue \<Rightarrow> 'q file_handler \<Rightarrow> nat" where
  "file_queueSize Q h = size_approx Q h"

section \<open>The handler contract\<close>

fun write_of :: "file_work task \<Rightarrow> LogMessage list" where
  "write_of (Work (WriteMessage m)) = [m]"
| "write_of _ = []"

definition file_accepted ::
  "('q \<Rightarrow> nat \<Rightarrow> file_work task list) \<Rightarrow> nat \<Rightarrow> 'q file_handler \<Rightarrow> LogMessage list" where
  "file_accepted pend thr h = concat (map write_of (pend (MessageQueue h) thr))"

interpretation file_sink: reliable_log_handler "file_addMessage Q" "file_accepted pend"
  "\<lambda>m. m" "\<lambda>_. queue_contract Q pend"
  for Q :: "'q file_queue" and pend
  by unfold_locales
    (auto simp: file_addMessage_def file_accepted_def SendWork_def contract_enqueue)

section \<open>Lemmas\<close>

text \<open>A stream that cannot be written keeps the file as it is.\<close>

definition stream_dead :: "file_state \<Rightarrow> bool" where
  "stream_dead s \<longleftrightarrow> \<not> (StreamGood s \<and> StreamOpen s)"

lemma run_file_dead:
  "stream_dead s \<Longrightarrow> fold_result (run_file localtime disk) (map WriteMessage ms) s = Inr s"
  by (induction ms) (auto simp: stream_dead_def)

definition file_line :: "(int \<Rightarrow> tm) \<Rightarrow> parser option \<Rightarrow> LogMessage \<Rightarrow> string" where
  "file_line localtime p m =
     (case messageToString localtime p m of Inl _ \<Rightarrow> [] | Inr text \<Rightarrow> text @ newline)"

definition formats :: "(int \<Rightarrow> tm) \<Rightarrow> parser option \<Rightarrow> LogMessage \<Rightarrow> bool" where
  "formats localtime p m \<longleftrightarrow> (\<exists>text. messageToString localtime p m = Inr text)"

text \<open>
  The stream from the file's old content on: everything accepted so far stands in the file or
  in the buffer, in order. \<open>put_text\<close> is what a stream that was good before has accepted of a text.
\<close>

definition stream_text :: "file_state \<Rightarrow> string" where
  "stream_text s = Content s @ Buffer s"

lemma stream_put_text:
  "\<exists>a. stream_text (stream_put disk text s) = stream_text s @ take a text
     \<and> (StreamGood (stream_put disk text s) \<longleftrightarrow> length text \<le> a)
     \<and> StreamOpen (stream_put disk text s) = StreamOpen s
     \<and> MessageParser (stream_put disk text s) = MessageParser s"
proof -
  obtain a w where "d_put disk (Content s) (Buffer s) text = (a, w)" by fastforce
  then show ?thesis
    by (intro exI [of _ a]) (simp add: stream_put_def stream_text_def Let_def del: take_append drop_append)
qed

text \<open>A disk that takes everything.\<close>

definition reliable_disk :: "disk \<Rightarrow> bool" where
  "reliable_disk disk \<longleftrightarrow> (\<forall>content buffer text. length text \<le> fst (d_put disk content buffer text))
     \<and> (\<forall>content buffer. length buffer \<le> d_sync disk content buffer)"

lemma reliable_put:
  assumes "reliable_disk disk"
  shows "stream_text (stream_put disk text s) = stream_text s @ text" and "StreamGood (stream_put disk text s)"
    and "StreamOpen (stream_put disk text s) = StreamOpen s"
    and "MessageParser (stream_put disk text s) = MessageParser s"
proof -
  have "StreamGood (stream_put disk text s)"
    using assms by (simp add: stream_put_def reliable_disk_def Let_def split: prod.split) (metis fst_conv)
  with stream_put_text [of disk "text" s]
  show "stream_text (stream_put disk text s) = stream_text s @ text" "StreamGood (stream_put disk text s)"
    "StreamOpen (stream_put disk text s) = StreamOpen s" "MessageParser (stream_put disk text s) = MessageParser s"
    by auto
qed

lemma reliable_close:
  "reliable_disk disk \<Longrightarrow> StreamOpen s \<Longrightarrow> Content (close_stream disk s) = stream_text s"
  by (simp add: close_stream_def stream_sync_def stream_text_def reliable_disk_def Let_def)

lemma run_file_writes:
  assumes "\<forall>m \<in> set ms. formats localtime (MessageParser s) m" and "\<not> stream_dead s"
  shows "\<exists>j s'. fold_result (run_file localtime disk) (map WriteMessage ms) s = Inr s'
    \<and> stream_text s' = stream_text s @ take j (concat (map (file_line localtime (MessageParser s)) ms))
    \<and> StreamOpen s' = StreamOpen s
    \<and> (length (concat (map (file_line localtime (MessageParser s)) ms)) \<le> j \<longleftrightarrow> StreamGood s')"
  using assms
proof (induction ms arbitrary: s)
  case Nil
  then show ?case by (simp add: stream_dead_def)
next
  case (Cons m ms)
  obtain str where str: "messageToString localtime (MessageParser s) m = Inr str"
    using Cons.prems(1) by (auto simp: formats_def)
  let ?line = "str @ newline" and ?s = "stream_put disk (str @ newline) s"
  have line: "file_line localtime (MessageParser s) m = ?line" using str by (simp add: file_line_def)
  have step: "run_file localtime disk (WriteMessage m) s = Inr ?s"
    using Cons.prems(2) str by (simp add: stream_dead_def)
  obtain a where a: "stream_text ?s = stream_text s @ take a ?line" "StreamGood ?s \<longleftrightarrow> length ?line \<le> a"
    "StreamOpen ?s = StreamOpen s" "MessageParser ?s = MessageParser s"
    using stream_put_text [of disk ?line s] by blast
  show ?case
  proof (cases "StreamGood ?s")
    case True
    then have "\<not> stream_dead ?s" using a(3) Cons.prems(2) by (simp add: stream_dead_def)
    with Cons.IH [of ?s] Cons.prems(1) a(4) obtain j s' where s':
      "fold_result (run_file localtime disk) (map WriteMessage ms) ?s = Inr s'"
      "stream_text s' = stream_text ?s @ take j (concat (map (file_line localtime (MessageParser s)) ms))"
      "StreamOpen s' = StreamOpen ?s"
      "length (concat (map (file_line localtime (MessageParser s)) ms)) \<le> j \<longleftrightarrow> StreamGood s'" by auto
    have "stream_text ?s = stream_text s @ ?line" using a(1,2) True by simp
    with s' step line a(3) show ?thesis
      by (intro exI [of _ "length ?line + j"] exI [of _ s']) (simp del: run_file.simps)
  next
    case False
    then have dead: "stream_dead ?s" by (simp add: stream_dead_def)
    have "take a (?line @ rest) = take a ?line" for rest using False a(2) by simp
    with step run_file_dead [OF dead] a False line show ?thesis
      by (intro exI [of _ a] exI [of _ ?s]) (simp del: run_file.simps take_append append.assoc)
  qed
qed

text \<open>Closing the file.\<close>

lemma close_stream_content:
  assumes "StreamOpen s" and "stream_text s = old @ text"
    and "prefix old (Content s)"
  shows "\<exists>j. Content (close_stream disk s) = old @ take j text
    \<and> (length text \<le> j \<longleftrightarrow> length (Buffer s) \<le> d_sync disk (Content s) (Buffer s))"
proof -
  obtain c where c: "Content s = old @ c" using assms(3) by (auto simp: prefix_def)
  let ?n = "d_sync disk (Content s) (Buffer s)"
  have parts: "text = c @ Buffer s" using assms(2) c by (simp add: stream_text_def)
  have "Content (close_stream disk s) = old @ c @ take ?n (Buffer s)"
    using assms(1) c by (simp add: close_stream_def stream_sync_def Let_def)
  then show ?thesis by (intro exI [of _ "length c + ?n"]) (simp add: parts)
qed

lemma run_file_keeps:
  "fold_result (run_file localtime disk) ws s = Inr s' \<Longrightarrow> prefix (Content s) (Content s')"
proof (induction ws arbitrary: s)
  case (Cons w ws)
  then obtain s1 where s1: "run_file localtime disk w s = Inr s1" "fold_result (run_file localtime disk) ws s1 = Inr s'"
    by (auto split: sum.splits)
  have "prefix (Content s) (Content s1)"
    using s1(1) by (cases w) (auto simp: stream_put_def stream_flush_def stream_sync_def Let_def
        setMessageStringCreatorFunction_def split: if_splits sum.splits prod.splits)
  from prefix_order.trans [OF this Cons.IH [OF s1(2)]] show ?case .
qed simp

lemma file_queue_after_adds:
  assumes "queue_contract Q pend"
    and "fold_result (file_addMessage Q t) ms h = Inr h'"
  shows "pend (MessageQueue h') = (pend (MessageQueue h))
      (t := pend (MessageQueue h) t @ map (Work \<circ> WriteMessage) ms)
    \<and> target h' = target h \<and> RunThread h' = RunThread h"
  using assms(2)
  by (induction ms arbitrary: h)
    (auto simp: file_addMessage_def SendWork_def contract_enqueue [OF assms(1)])

section \<open>Properties\<close>

text \<open>
  C32: what a file handler leaves in the file. A handler on a file that could be opened is
  given messages by one thread, which then destroys it. The worker stops and the stream is
  closed. What the file held before is kept, and after it stand the first \<open>j\<close> characters of the
  formatted lines of all messages in their order (perhaps with a torn line at the end): nothing
  is lost, repeated or out of order before that point. All lines are there exactly if the
  stream accepted every line completely and closing it wrote all that was still buffered.
\<close>

theorem file_contains_prefix:
  assumes "queue_contract Q pend" and "queue_live Q pend" and "pend q0 = (\<lambda>_. [])"
    and "\<forall>m \<in> set ms. formats localtime None m"
    and "fold_result (file_addMessage Q t) ms (fst (FileInterface (Some old) q0 Name MaxQueueLength)) = Inr h"
  shows "\<exists>n h' j. ThreadFunction Q (run_file localtime disk) n (destroy_send Q t h) = Inr h'
    \<and> \<not> RunThread h'
    \<and> Content (close_stream disk (target h')) = old @ take j (concat (map (file_line localtime None) ms))
    \<and> (length (concat (map (file_line localtime None) ms)) \<le> j \<longleftrightarrow>
         StreamGood (target h') \<and>
         length (Buffer (target h')) \<le> d_sync disk (Content (target h')) (Buffer (target h')))"
proof -
  let ?text = "concat (map (file_line localtime None) ms)" and ?run = "run_file localtime disk"
  from file_queue_after_adds [OF assms(1,5)] assms(3)
  have h: "pend (MessageQueue h) = (\<lambda>_. [])(t := map Work (map WriteMessage ms))" "RunThread h"
    "target h = \<lparr>MessageParser = None, Content = old, Buffer = [], StreamGood = True, StreamOpen = True,
        FileFulfilled = []\<rparr>"
    by (auto simp: FileInterface_def ThreadedExecutor_def)
  obtain j s' where s': "fold_result ?run (map WriteMessage ms) (target h) = Inr s'"
    "stream_text s' = old @ take j ?text" "StreamOpen s'" "length ?text \<le> j \<longleftrightarrow> StreamGood s'"
    using run_file_writes [of ms localtime "target h" disk] assms(4)
    by (auto simp: h(3) stream_dead_def stream_text_def)
  have "prefix old (Content s')" using run_file_keeps [OF s'(1)] by (simp add: h(3))
  from close_stream_content [OF s'(3,2) this, of disk] obtain i where
    i: "Content (close_stream disk s') = old @ take i (take j ?text)"
    "length (take j ?text) \<le> i \<longleftrightarrow> length (Buffer s') \<le> d_sync disk (Content s') (Buffer s')" by blast
  obtain n h' where "ThreadFunction Q ?run n (destroy_send Q t h) = Inr h'" "\<not> RunThread h'" "target h' = s'"
    using single_thread_destroyed [OF assms(1,2) h(2,1), where run = ?run] s'(1) by auto
  moreover have "Content (close_stream disk s') = old @ take (min i j) ?text" using i(1) by (simp add: min_def)
  moreover have "length ?text \<le> min i j \<longleftrightarrow>
      StreamGood s' \<and> length (Buffer s') \<le> d_sync disk (Content s') (Buffer s')"
    using i(2) s'(4) by (auto simp: min_def split: if_splits)
  ultimately show ?thesis by blast
qed

text \<open>
  Two disks: one that writes blocks of eight characters and takes everything, and one that is
  full after eight characters and tears a line.
\<close>

definition block_disk :: disk where
  "block_disk = \<lparr>d_put = (\<lambda>content buffer text. (length text, 8 * ((length buffer + length text) div 8))),
     d_sync = (\<lambda>content buffer. length buffer)\<rparr>"

definition full_disk :: disk where
  "full_disk = \<lparr>d_put = (\<lambda>content buffer text. (8 - length content - length buffer, 4)),
     d_sync = (\<lambda>content buffer. 8 - length content)\<rparr>"

lemma full_disk_tears_line:
  "let s = stream_put full_disk ''a line'' (target (fst (FileInterface (Some ''old'') () ''log.txt'' 100)))
   in \<not> StreamGood s \<and> Content s = ''olda li'' \<and> Content (close_stream full_disk s) = ''olda lin''"
  by code_simp

lemma block_disk_good:
  assumes "run_file localtime block_disk w s = Inr s'" and "StreamGood s"
  shows "StreamGood s'"
  using assms
  by (cases w) (auto simp: stream_put_def stream_flush_def stream_sync_def block_disk_def Let_def
      setMessageStringCreatorFunction_def split: if_splits sum.splits)

definition two_messages :: "LogMessage list" where
  "two_messages = [LogMessage_default\<lparr>MessageString := ''one''\<rparr>, LogMessage_default\<lparr>MessageString := ''two''\<rparr>]"

definition given_two :: "((nat \<times> file_work task) list) file_handler" where
  "given_two = SendWork list_queue 0 (Work (WriteMessage (two_messages ! 1)))
     (SendWork list_queue 0 (Work (WriteMessage (two_messages ! 0)))
       (fst (FileInterface (Some ''old'') [] ''log.txt'' 100)))"

theorem file_contains_prefix_witness:
  "\<exists>n h'. ThreadFunction list_queue (run_file epoch_localtime block_disk) n (destroy_send list_queue 0 given_two) = Inr h'
    \<and> \<not> RunThread h'
    \<and> Content (close_stream block_disk (target h')) =
        ''old'' @ concat (map (file_line epoch_localtime None) two_messages)"
proof -
  have "severity_name Debug = Inr ''Debug''"
    by (simp add: severity_name_def int_of_severity_def Debug_def at_checked_def sevToStr_def)
  then have f: "\<forall>m \<in> set two_messages. formats epoch_localtime None m"
    by (simp add: formats_def messageToString_def default_format_def LogMessage_default_def two_messages_def)
  have e: "list_pend [] = (\<lambda>_. [] :: file_work task list)" by (simp add: list_pend_def fun_eq_iff)
  have g: "fold_result (file_addMessage list_queue 0) two_messages
      (fst (FileInterface (Some ''old'') [] ''log.txt'' 100)) = Inr given_two"
    by (simp add: file_addMessage_def two_messages_def given_two_def)
  from file_contains_prefix [OF list_queue_contract list_queue_live e f g, of block_disk] obtain n h' j where
    h': "ThreadFunction list_queue (run_file epoch_localtime block_disk) n (destroy_send list_queue 0 given_two) = Inr h'"
    "\<not> RunThread h'"
    "Content (close_stream block_disk (target h')) =
        ''old'' @ take j (concat (map (file_line epoch_localtime None) two_messages))"
    "length (concat (map (file_line epoch_localtime None) two_messages)) \<le> j \<longleftrightarrow>
         StreamGood (target h') \<and>
         length (Buffer (target h')) \<le> d_sync block_disk (Content (target h')) (Buffer (target h'))"
    by blast
  have start: "RunThread (destroy_send list_queue 0 given_two)" "StreamGood (target (destroy_send list_queue 0 given_two))"
    by (simp_all add: given_two_def destroy_send_def SendWork_def FileInterface_def ThreadedExecutor_def)
  from ThreadFunction_runs [OF list_queue_contract h'(1) start(1)] obtain ts :: "(nat \<times> file_work task) list" where
    "fold_result (run_file epoch_localtime block_disk) (payload (map snd ts))
       (target (destroy_send list_queue 0 given_two)) = Inr (target h')"
    by blast
  from fold_result_inv [OF this, of StreamGood] start(2) block_disk_good have "StreamGood (target h')" by blast
  then have "length (concat (map (file_line epoch_localtime None) two_messages)) \<le> j"
    unfolding h'(4) by (simp add: block_disk_def)
  with h'(1-3) show ?thesis by (metis take_all)
qed

text \<open>
  \<open>flush\<close> makes no statement about the file: its closure sets the promise also when the stream
  has gone bad before, and then writes nothing.
\<close>

theorem file_flush_ignores_bad_stream:
  assumes "\<not> StreamGood s"
  shows "run_file localtime disk (FlushFile promise) s = Inr (s\<lparr>FileFulfilled := promise # FileFulfilled s\<rparr>)"
  using assms by (simp add: stream_flush_def)

text \<open>
  A handler whose file could not be opened reports an error through the logger and then
  swallows every message: its worker neither throws nor changes anything, whatever the
  messages are.
\<close>

theorem file_unopened_is_inert:
  "snd (FileInterface None q0 Name MaxQueueLength) = (Error, file_failed_text Name)
   \<and> fold_result (run_file localtime disk) (map WriteMessage ms)
        (target (fst (FileInterface None q0 Name MaxQueueLength)))
      = Inr (target (fst (FileInterface None q0 Name MaxQueueLength)))"
proof -
  let ?s = "target (fst (FileInterface None q0 Name MaxQueueLength))"
  have "stream_dead ?s" by (simp add: FileInterface_def ThreadedExecutor_def stream_dead_def)
  from run_file_dead [OF this] show ?thesis by (simp add: FileInterface_def Let_def)
qed

end
