(* ===== verification/Graylog_Json.thy ===== *)
theory Graylog_Json
  imports Log_Util
begin

text \<open>
  Model of \<open>GraylogInterface::logMsgToJSON\<close> in \<open>src/GraylogInterface.cpp\<close>: the GELF object
  of a log message. A \<open>nlohmann::json\<close> object is a finite map from keys to values on which
  the code uses \<open>operator[]\<close> and assignment only, so it is a partial map here. Its
  serialisation \<open>dump\<close> (which throws on strings that are not UTF-8) and the conversion of
  the millisecond count to a \<open>double\<close> number of seconds are parameters.
\<close>

section \<open>Definitions\<close>

datatype jval = JString string | JInt int | JDouble double

type_synonym json = "string \<rightharpoonup> jval"

definition milliseconds :: "int \<Rightarrow> int" where
  "milliseconds ns = cast_ticks 1000000 ns"

definition field_value :: "AdditionalField \<Rightarrow> jval" where
  "field_value f =
     (case FieldType f of
        typeStr \<Rightarrow> JString (strVal f)
      | typeDbl \<Rightarrow> JDouble (dblVal f)
      | typeInt \<Rightarrow> JInt (sint (intVal f)))"

definition under :: "string \<Rightarrow> string" where
  "under key = CHR ''_'' # key"

definition set_field :: "string \<times> AdditionalField \<Rightarrow> json \<Rightarrow> json" where
  "set_field field JsonObject = JsonObject(under (fst field) \<mapsto> field_value (snd field))"

definition standard_object :: "(int \<Rightarrow> double) \<Rightarrow> LogMessage \<Rightarrow> json" where
  "standard_object to_seconds m = Map.empty
     (''short_message'' \<mapsto> JString (MessageString m),
      ''version'' \<mapsto> JString ''1.1'',
      ''level'' \<mapsto> JInt (int_of_severity (SeverityLevel m)),
      ''host'' \<mapsto> JString (Host m),
      ''timestamp'' \<mapsto> JDouble (to_seconds (milliseconds (Timestamp m))),
      ''_process_id'' \<mapsto> JInt (sint (ProcessId m)),
      ''_process'' \<mapsto> JString (ProcessName m),
      ''_thread_id'' \<mapsto> JString (ThreadId m))"

definition logMsgObject :: "(int \<Rightarrow> double) \<Rightarrow> LogMessage \<Rightarrow> json" where
  "logMsgObject to_seconds m = fold set_field (AdditionalFields m) (standard_object to_seconds m)"

definition logMsgToJSON ::
  "(json \<Rightarrow> exn + string) \<Rightarrow> (int \<Rightarrow> double) \<Rightarrow> LogMessage \<Rightarrow> exn + string" where
  "logMsgToJSON dump to_seconds m = dump (logMsgObject to_seconds m)"

section \<open>Lemmas\<close>

text \<open>The part of the object that the additional fields contribute.\<close>

definition extra_object :: "fields \<Rightarrow> json" where
  "extra_object fs k =
     (case k of
        [] \<Rightarrow> None
      | c # key \<Rightarrow> if c = CHR ''_'' then map_option field_value (map_of (rev fs) key) else None)"

lemma extra_object_under [json_simps]:
  "extra_object fs (under key) = map_option field_value (map_of (rev fs) key)"
  by (simp add: extra_object_def under_def)

lemma extra_object_snoc [json_simps]:
  "extra_object (fs @ [f]) = (extra_object fs)(under (fst f) \<mapsto> field_value (snd f))"
  by (rule ext) (auto simp: extra_object_def under_def split: list.splits)

lemma fold_set_field [json_simps]: "fold set_field fs obj = obj ++ extra_object fs"
proof (induction fs rule: rev_induct)
  case Nil
  have "extra_object [] = Map.empty" by (rule ext) (auto simp: extra_object_def split: list.splits)
  then show ?case by simp
next
  case (snoc f fs)
  have "fold set_field (fs @ [f]) obj = set_field f (obj ++ extra_object fs)" using snoc by simp
  also have "\<dots> = obj ++ extra_object (fs @ [f])"
    by (simp only: set_field_def extra_object_snoc map_add_upd)
  finally show ?case .
qed

lemma map_of_rev_distinct: "distinct (map fst fs) \<Longrightarrow> map_of (rev fs) = map_of fs"
  by (subst map_of_inject_set) (auto simp: rev_map [symmetric])

definition reserved_key :: "string \<Rightarrow> bool" where
  "reserved_key key \<longleftrightarrow> key \<in> {''process_id'', ''process'', ''thread_id''}"

section \<open>Properties\<close>

lemma map_of_under:
  "map_of (map (\<lambda>(key, f). (CHR ''_'' # key, g f)) fs) k =
     (case k of [] \<Rightarrow> None | c # key \<Rightarrow> if c = CHR ''_'' then map_option g (map_of fs key) else None)"
  by (induction fs) (auto split: list.splits)

text \<open>
  C29: the GELF object, entry by entry. For a message whose field keys are pairwise distinct
  (as \<open>addField\<close> keeps them), every additional field gives the entry \<open>_key\<close> with the value of
  the member that its type names: a string, a floating-point number or a signed integer. All
  other entries are the eight standard ones, each with the value of its member of the message:
  text, version 1.1, the level as an integer, host, time stamp in whole milliseconds converted
  to seconds, process number, process and thread. There are no others.
\<close>

theorem gelf_object_exact:
  assumes "distinct (map fst (AdditionalFields m))"
  shows "logMsgObject to_seconds m k =
    (case map_of (map (\<lambda>(key, f). (CHR ''_'' # key,
             case FieldType f of
               typeStr \<Rightarrow> JString (strVal f)
             | typeDbl \<Rightarrow> JDouble (dblVal f)
             | typeInt \<Rightarrow> JInt (sint (intVal f)))) (AdditionalFields m)) k of
       Some v \<Rightarrow> Some v
     | None \<Rightarrow> map_of
         [(''short_message'', JString (MessageString m)),
          (''version'', JString ''1.1''),
          (''level'', JInt (int_of_severity (SeverityLevel m))),
          (''host'', JString (Host m)),
          (''timestamp'', JDouble (to_seconds
             (if 0 \<le> Timestamp m then Timestamp m div 1000000 else - (- Timestamp m div 1000000)))),
          (''_process_id'', JInt (sint (ProcessId m))),
          (''_process'', JString (ProcessName m)),
          (''_thread_id'', JString (ThreadId m))] k)"
proof -
  have "map_of (rev (AdditionalFields m)) = map_of (AdditionalFields m)"
    using assms by (rule map_of_rev_distinct)
  then have extra: "extra_object (AdditionalFields m) k =
      map_of (map (\<lambda>(key, f). (CHR ''_'' # key, field_value f)) (AdditionalFields m)) k"
    by (cases k) (simp_all add: extra_object_def map_of_under)
  show ?thesis
    by (simp only: logMsgObject_def fold_set_field map_add_def extra field_value_def)
      (simp add: standard_object_def milliseconds_def cast_ticks_def split: option.split)
qed

theorem gelf_object_exact_witness:
  "map (logMsgObject (\<lambda>t. of_int t) (LogMessage_default\<lparr>Timestamp := 7000000, Host := ''h'',
      AdditionalFields := [(''k'', AdditionalField_int (- 5)), (''s'', AdditionalField_str ''x'')]\<rparr>))
     [''_k'', ''_s'', ''level'', ''host'', ''timestamp'', ''k'']
   = [Some (JInt (- 5)), Some (JString ''x''), Some (JInt 7), Some (JString ''h''), Some (JDouble 7), None]"
proof -
  let ?m = "LogMessage_default\<lparr>Timestamp := 7000000, Host := ''h'',
      AdditionalFields := [(''k'', AdditionalField_int (- 5)), (''s'', AdditionalField_str ''x'')]\<rparr>"
  have "distinct (map fst (AdditionalFields ?m))" by simp
  from gelf_object_exact [OF this, of "\<lambda>t. of_int t"] show ?thesis
    by (simp add: AdditionalField_int_def AdditionalField_str_def LogMessage_default_def
        int_of_severity_def Debug_def)
qed

text \<open>
  No additional field, whatever its key, can remove or falsify what the GELF format
  requires: version, host, text, time stamp and level of the object are those of the message.
  The three underscored process entries are the message's as long as no field uses their name.
\<close>

theorem gelf_mandatory_fields:
  "map (logMsgObject to_seconds m) [''version'', ''host'', ''short_message'', ''level'', ''timestamp''] =
     [Some (JString ''1.1''), Some (JString (Host m)), Some (JString (MessageString m)),
      Some (JInt (int_of_severity (SeverityLevel m))),
      Some (JDouble (to_seconds (milliseconds (Timestamp m))))]
   \<and> (list_all (\<lambda>f. \<not> reserved_key (fst f)) (AdditionalFields m) \<longrightarrow>
        map (logMsgObject to_seconds m) [''_process_id'', ''_process'', ''_thread_id''] =
          [Some (JInt (sint (ProcessId m))), Some (JString (ProcessName m)), Some (JString (ThreadId m))])"
proof -
  let ?fs = "AdditionalFields m"
  have look: "logMsgObject to_seconds m k =
    (case extra_object ?fs k of None \<Rightarrow> standard_object to_seconds m k | Some v \<Rightarrow> Some v)" for k
    by (simp add: logMsgObject_def fold_set_field map_add_def)
  have none: "extra_object ?fs (under key) = None"
    if "list_all (\<lambda>f. \<not> reserved_key (fst f)) ?fs" "reserved_key key" for key
  proof -
    from that have "key \<notin> fst ` set (rev ?fs)" by (auto simp: list_all_iff)
    then have "map_of (rev ?fs) key = None" by (simp add: map_of_eq_None_iff)
    then show ?thesis by (simp add: extra_object_under)
  qed
  have "extra_object ?fs k = None" if "k \<in> {''version'', ''host'', ''short_message'', ''level'', ''timestamp''}" for k
    using that by (auto simp: extra_object_def)
  moreover have "extra_object ?fs ''_process_id'' = None" "extra_object ?fs ''_process'' = None"
    "extra_object ?fs ''_thread_id'' = None" if "list_all (\<lambda>f. \<not> reserved_key (fst f)) ?fs"
    using none [OF that, of "''process_id''"] none [OF that, of "''process''"]
      none [OF that, of "''thread_id''"] by (simp_all add: under_def reserved_key_def)
  ultimately show ?thesis by (simp add: look standard_object_def)
qed

theorem gelf_mandatory_fields_witness:
  "logMsgObject (\<lambda>_. 0) (LogMessage_default\<lparr>ProcessName := ''app'',
      AdditionalFields := [(''version'', AdditionalField_str ''9'')]\<rparr>) ''_process'' = Some (JString ''app'')"
  using gelf_mandatory_fields [of "\<lambda>_. 0" "LogMessage_default\<lparr>ProcessName := ''app'',
      AdditionalFields := [(''version'', AdditionalField_str ''9'')]\<rparr>"]
  by (simp add: reserved_key_def)

end
