(* ===== verification/Graylog_Connection.thy ===== *)
theory Graylog_Connection
  imports Graylog_Json Threaded_Executor
begin

text \<open>
  Model of \<open>src/GraylogConnection.cpp\<close>, \<open>src/GraylogConnection.hpp\<close> and
  \<open>include/graylog_logger/ConnectionStatus.hpp\<close>: the handlers of the connection to the
  Graylog server, and the step relation of the I/O thread that runs them.

  The asynchronous operations of asio are data here: a handler that calls \<open>async_xyz\<close>
  appends the operation to \<open>Inflight\<close>; when it completes, its completion, with the outcome
  that the network chose, moves to \<open>Ready\<close>, from where the I/O thread invokes the handler.
  Closing the socket completes the operations that use it with an error. Parameters: the
  bounded queue \<open>moodycamel::BlockingConcurrentQueue\<close> (\<open>Q\<close>) and \<open>std::sort\<close>
  (\<open>srt\<close>, which may order equivalent elements as it likes).
\<close>

section \<open>Data\<close>

datatype Status = ADDR_LOOKUP | ADDR_RETRY_WAIT | CONNECT | SEND_LOOP

datatype ReconnectDelay = LONG | SHORT

definition delay_ms :: "ReconnectDelay \<Rightarrow> nat" where
  "delay_ms d = (case d of SHORT \<Rightarrow> 100 | LONG \<Rightarrow> 10000)"

record endpoint =
  address :: string
  is_v6 :: bool
  ep_port :: nat

definition endpoint_default :: endpoint where
  "endpoint_default = \<lparr>address = ''0.0.0.0'', is_v6 = False, ep_port = 0\<rparr>"

record QueryResult =
  EndpointList :: "endpoint list"
  NextEndpoint :: nat

definition v4_first :: "endpoint \<Rightarrow> endpoint \<Rightarrow> bool" where
  "v4_first a b \<longleftrightarrow> \<not> is_v6 a \<and> is_v6 b"

text \<open>\<open>std::sort\<close> with the comparison \<open>v4_first\<close>: some sorted permutation.\<close>

definition is_std_sort :: "(endpoint list \<Rightarrow> endpoint list) \<Rightarrow> bool" where
  "is_std_sort srt \<longleftrightarrow>
     (\<forall>es. mset (srt es) = mset es \<and> sorted_wrt (\<lambda>a b. \<not> v4_first b a) (srt es))"

fun copy_endpoints :: "endpoint list \<Rightarrow> endpoint list \<Rightarrow> endpoint list" where
  "copy_endpoints [] eps = eps"
| "copy_endpoints (CEndpoint # it) eps = copy_endpoints it (eps @ [CEndpoint])"

definition make_QueryResult :: "(endpoint list \<Rightarrow> endpoint list) \<Rightarrow> endpoint list \<Rightarrow> QueryResult" where
  "make_QueryResult srt it = \<lparr>EndpointList = srt (copy_endpoints it []), NextEndpoint = 0\<rparr>"

definition getNextEndpoint :: "QueryResult \<Rightarrow> endpoint \<times> QueryResult" where
  "getNextEndpoint r =
     (if NextEndpoint r < length (EndpointList r)
      then (EndpointList r ! NextEndpoint r, r\<lparr>NextEndpoint := Suc (NextEndpoint r)\<rparr>)
      else (endpoint_default, r))"

definition isDone :: "QueryResult \<Rightarrow> bool" where
  "isDone r \<longleftrightarrow> length (EndpointList r) \<le> NextEndpoint r"

text \<open>
  The queue holds closures: \<open>sendMessage\<close> enqueues one that returns the message, \<open>flush\<close>
  one that sets a promise and returns the empty string.
\<close>

datatype queued = MsgFunc string | FlushFunc nat

record 'q bounded_queue_ops =
  b_try_enqueue :: "nat \<Rightarrow> queued \<Rightarrow> 'q \<Rightarrow> bool \<times> 'q"
  b_wait_dequeue_timed :: "'q \<Rightarrow> queued option \<times> 'q"
  b_size_approx :: "'q \<Rightarrow> nat"

definition bounded_contract :: "'q bounded_queue_ops \<Rightarrow> ('q \<Rightarrow> nat \<Rightarrow> queued list) \<Rightarrow> bool" where
  "bounded_contract Q pend \<longleftrightarrow>
     (\<forall>p f q q'. b_try_enqueue Q p f q = (True, q') \<longrightarrow> pend q' = (pend q)(p := pend q p @ [f])) \<and>
     (\<forall>p f q q'. b_try_enqueue Q p f q = (False, q') \<longrightarrow> pend q' = pend q) \<and>
     (\<forall>q f q'. b_wait_dequeue_timed Q q = (Some f, q') \<longrightarrow>
        (\<exists>p fs. pend q p = f # fs \<and> pend q' = (pend q)(p := fs))) \<and>
     (\<forall>q q'. b_wait_dequeue_timed Q q = (None, q') \<longrightarrow> pend q' = pend q)"

datatype async_op =
    Async_resolve
  | Async_connect endpoint QueryResult
  | Async_wait
  | Async_receive
  | Async_write string

datatype completion =
    Resolved bool "endpoint list"
  | Connected bool QueryResult
  | Waited
  | Received bool
  | Written bool string
  | Posted

text \<open>
  The members of \<open>Impl\<close>, the state of its asio objects (\<open>SocketOpen\<close>, \<open>Expiry\<close>,
  \<open>Inflight\<close>, \<open>Ready\<close>), the promises of \<open>flush\<close> calls, and \<open>Sent\<close>: all bytes that
  completed writes have reported as sent.
\<close>

record 'q impl =
  ConnectionState :: Status
  MessageBuffer :: string
  HostAddress :: string
  HostPort :: string
  LogMessages :: 'q
  SocketOpen :: bool
  Expiry :: ReconnectDelay
  Inflight :: "async_op list"
  Ready :: "completion list"
  Promises :: "nat \<Rightarrow> promise_state"
  Sent :: string

definition MessageAdditionLimit :: nat where
  "MessageAdditionLimit = 3000"

section \<open>Asio operations\<close>

definition start_op :: "async_op \<Rightarrow> 'q impl \<Rightarrow> 'q impl" where
  "start_op op s = s\<lparr>Inflight := Inflight s @ [op]\<rparr>"

definition post :: "'q impl \<Rightarrow> 'q impl" where
  "post s = s\<lparr>Ready := Ready s @ [Posted]\<rparr>"

fun on_socket :: "async_op \<Rightarrow> bool" where
  "on_socket (Async_connect ep r) = True"
| "on_socket Async_receive = True"
| "on_socket (Async_write data) = True"
| "on_socket _ = False"

fun aborted :: "async_op \<Rightarrow> completion" where
  "aborted Async_resolve = Resolved True []"
| "aborted (Async_connect ep r) = Connected True r"
| "aborted Async_wait = Waited"
| "aborted Async_receive = Received True"
| "aborted (Async_write data) = Written True data"

definition cancel_ops :: "(async_op \<Rightarrow> bool) \<Rightarrow> 'q impl \<Rightarrow> 'q impl" where
  "cancel_ops P s = s\<lparr>Inflight := filter (\<lambda>op. \<not> P op) (Inflight s),
     Ready := Ready s @ map aborted (filter P (Inflight s))\<rparr>"

definition close_socket :: "'q impl \<Rightarrow> 'q impl" where
  "close_socket s = cancel_ops on_socket (s\<lparr>SocketOpen := False\<rparr>)"

text \<open>\<open>async_connect\<close> opens the socket if it is closed.\<close>

definition async_connect :: "endpoint \<Rightarrow> QueryResult \<Rightarrow> 'q impl \<Rightarrow> 'q impl" where
  "async_connect ep r s = start_op (Async_connect ep r) (s\<lparr>SocketOpen := True\<rparr>)"

text \<open>\<open>expires_after\<close> cancels a pending wait of the timer.\<close>

definition expires_after :: "ReconnectDelay \<Rightarrow> 'q impl \<Rightarrow> 'q impl" where
  "expires_after d s = cancel_ops (\<lambda>op. op = Async_wait) (s\<lparr>Expiry := d\<rparr>)"

section \<open>Handlers\<close>

definition setState :: "Status \<Rightarrow> 'q impl \<Rightarrow> 'q impl" where
  "setState NewState s = s\<lparr>ConnectionState := NewState\<rparr>"

definition getConnectionStatus :: "'q impl \<Rightarrow> Status" where
  "getConnectionStatus s = ConnectionState s"

definition doAddressQuery :: "'q impl \<Rightarrow> 'q impl" where
  "doAddressQuery s = start_op Async_resolve (setState ADDR_LOOKUP s)"

definition tryConnect :: "QueryResult \<Rightarrow> 'q impl \<Rightarrow> 'q impl" where
  "tryConnect AllEndpoints s =
     (let (CurrentEndpoint, AllEndpoints') = getNextEndpoint AllEndpoints
      in setState CONNECT (async_connect CurrentEndpoint AllEndpoints' s))"

definition reConnect :: "ReconnectDelay \<Rightarrow> 'q impl \<Rightarrow> 'q impl" where
  "reConnect Delay s = setState ADDR_RETRY_WAIT (start_op Async_wait (expires_after Delay s))"

definition resolverHandler ::
  "(endpoint list \<Rightarrow> endpoint list) \<Rightarrow> bool \<Rightarrow> endpoint list \<Rightarrow> 'q impl \<Rightarrow> 'q impl" where
  "resolverHandler srt Err EndpointIter s =
     (if Err then reConnect LONG (setState ADDR_RETRY_WAIT s)
      else tryConnect (make_QueryResult srt EndpointIter) s)"

text \<open>Calling a dequeued closure: its result, and the promise it sets.\<close>

fun call_queued :: "queued \<Rightarrow> 'q impl \<Rightarrow> string \<times> 'q impl" where
  "call_queued (MsgFunc Msg) s = (Msg, s)"
| "call_queued (FlushFunc p) s = ([], s\<lparr>Promises := (Promises s)(p := set_value (Promises s p))\<rparr>)"

definition async_write :: "'q impl \<Rightarrow> 'q impl" where
  "async_write s = start_op (Async_write (MessageBuffer s)) s"

definition trySendMessage :: "'q bounded_queue_ops \<Rightarrow> 'q impl \<Rightarrow> 'q impl" where
  "trySendMessage Q s =
     (if \<not> SocketOpen s then s
      else if length (MessageBuffer s) > MessageAdditionLimit then async_write s
      else
        (case b_wait_dequeue_timed Q (LogMessages s) of
           (Some NewMessageFunc, q) \<Rightarrow>
             (let (NewMessage, s') = call_queued NewMessageFunc (s\<lparr>LogMessages := q\<rparr>)
              in if NewMessage = [] then
                   (if MessageBuffer s' \<noteq> [] then async_write s' else post s')
                 else async_write
                   (s'\<lparr>MessageBuffer := MessageBuffer s' @ NewMessage @ [nul]\<rparr>))
         | (None, q) \<Rightarrow>
             (if MessageBuffer s \<noteq> [] then async_write (s\<lparr>LogMessages := q\<rparr>)
              else post (s\<lparr>LogMessages := q\<rparr>))))"

definition connectHandler ::
  "'q bounded_queue_ops \<Rightarrow> bool \<Rightarrow> QueryResult \<Rightarrow> 'q impl \<Rightarrow> 'q impl" where
  "connectHandler Q Err AllEndpoints s =
     (if \<not> Err then trySendMessage Q (start_op Async_receive (setState SEND_LOOP s))
      else
        (let s' = close_socket s
         in if isDone AllEndpoints then reConnect LONG s' else tryConnect AllEndpoints s'))"

definition receiveHandler :: "bool \<Rightarrow> 'q impl \<Rightarrow> 'q impl" where
  "receiveHandler Err s =
     (if Err then reConnect SHORT (close_socket s) else start_op Async_receive s)"

definition sentMessageHandler ::
  "'q bounded_queue_ops \<Rightarrow> bool \<Rightarrow> nat \<Rightarrow> 'q impl \<Rightarrow> 'q impl" where
  "sentMessageHandler Q Err BytesSent s =
     (let s' = (if BytesSent = length (MessageBuffer s) then s\<lparr>MessageBuffer := []\<rparr>
                else if BytesSent > 0 then s\<lparr>MessageBuffer := drop BytesSent (MessageBuffer s)\<rparr>
                else s)
      in if Err then close_socket s' else trySendMessage Q s')"

section \<open>Construction, client calls and destruction\<close>

definition Impl :: "string \<Rightarrow> int \<Rightarrow> 'q \<Rightarrow> 'q impl" where
  "Impl host port empty_queue = doAddressQuery
     \<lparr>ConnectionState = ADDR_LOOKUP, MessageBuffer = [], HostAddress = host,
      HostPort = show_int port, LogMessages = empty_queue, SocketOpen = False, Expiry = LONG,
      Inflight = [], Ready = [], Promises = (\<lambda>_. Unset), Sent = []\<rparr>"

definition sendMessage :: "'q bounded_queue_ops \<Rightarrow> nat \<Rightarrow> string \<Rightarrow> 'q impl \<Rightarrow> 'q impl" where
  "sendMessage Q thr Msg s = s\<lparr>LogMessages := snd (b_try_enqueue Q thr (MsgFunc Msg) (LogMessages s))\<rparr>"

text \<open>
  \<open>flush\<close>: the first half enqueues the closure that owns the promise (a refused closure is
  destroyed at the end of the statement, and the promise with it); the second half is the
  value that \<open>wait_for\<close> leads to in the state at the deadline.
\<close>

definition flush_start :: "'q bounded_queue_ops \<Rightarrow> nat \<Rightarrow> nat \<Rightarrow> 'q impl \<Rightarrow> 'q impl" where
  "flush_start Q thr p s =
     (case b_try_enqueue Q thr (FlushFunc p) (LogMessages s) of
        (True, q) \<Rightarrow> s\<lparr>LogMessages := q\<rparr>
      | (False, q) \<Rightarrow> s\<lparr>LogMessages := q, Promises := (Promises s)(p := drop_promise (Promises s p))\<rparr>)"

definition flush_result :: "nat \<Rightarrow> 'q impl \<Rightarrow> bool" where
  "flush_result p s = future_ready (Promises s p)"

definition queueSize :: "'q bounded_queue_ops \<Rightarrow> 'q impl \<Rightarrow> nat" where
  "queueSize Q s = b_size_approx Q (LogMessages s)"

definition messageQueueEmpty :: "'q bounded_queue_ops \<Rightarrow> 'q impl \<Rightarrow> bool" where
  "messageQueueEmpty Q s = (queueSize Q s = 0)"

text \<open>The destructor stops the service: no handler runs any more, and the socket is closed.\<close>

definition destroy_Impl :: "'q impl \<Rightarrow> 'q impl" where
  "destroy_Impl s = s\<lparr>Inflight := [], Ready := [], SocketOpen := False\<rparr>"

text \<open>\<open>GraylogInterface::addMessage\<close>.\<close>

definition graylog_addMessage ::
  "(json \<Rightarrow> exn + string) \<Rightarrow> (int \<Rightarrow> double) \<Rightarrow> 'q bounded_queue_ops \<Rightarrow> nat \<Rightarrow> LogMessage
     \<Rightarrow> 'q impl \<Rightarrow> exn + 'q impl" where
  "graylog_addMessage dump to_seconds Q thr Message s =
     (case logMsgToJSON dump to_seconds Message of
        Inl e \<Rightarrow> Inl e
      | Inr Msg \<Rightarrow> Inr (sendMessage Q thr Msg s))"

text \<open>
  The other operations of the handler class \<open>GraylogInterface\<close>, through its base class
  \<open>GraylogConnection\<close>, which forwards to \<open>Impl\<close>. The queue is created with the given length.
\<close>

definition GraylogInterface :: "(nat \<Rightarrow> 'q) \<Rightarrow> string \<Rightarrow> int \<Rightarrow> nat \<Rightarrow> 'q impl" where
  "GraylogInterface new_queue host port MaxQueueLength = Impl host port (new_queue MaxQueueLength)"

definition graylog_emptyQueue :: "'q bounded_queue_ops \<Rightarrow> 'q impl \<Rightarrow> bool" where
  "graylog_emptyQueue Q s = messageQueueEmpty Q s"

definition graylog_queueSize :: "'q bounded_queue_ops \<Rightarrow> 'q impl \<Rightarrow> nat" where
  "graylog_queueSize Q s = queueSize Q s"

section \<open>The I/O thread\<close>

text \<open>\<open>completes op c\<close>: the network can complete \<open>op\<close> with \<open>c\<close>.\<close>

fun completes :: "async_op \<Rightarrow> completion \<Rightarrow> bool" where
  "completes Async_resolve (Resolved Err eps) = True"
| "completes (Async_connect ep r) (Connected Err r') = (r' = r)"
| "completes Async_wait Waited = True"
| "completes Async_receive (Received Err) = True"
| "completes (Async_write data) (Written Err data') = (data' = data)"
| "completes _ _ = False"

text \<open>
  The byte count given to the write handler: never more than the buffer, and all of it when
  there is no error (\<open>asio::async_write\<close> writes everything or fails).
\<close>

fun count_ok :: "completion \<Rightarrow> nat \<Rightarrow> bool" where
  "count_ok (Written Err data) n = (n \<le> length data \<and> (Err \<or> n = length data))"
| "count_ok _ n = True"

fun run_handler ::
  "'q bounded_queue_ops \<Rightarrow> (endpoint list \<Rightarrow> endpoint list) \<Rightarrow> completion \<Rightarrow> nat
     \<Rightarrow> 'q impl \<Rightarrow> 'q impl" where
  "run_handler Q srt (Resolved Err eps) n s = resolverHandler srt Err eps s"
| "run_handler Q srt (Connected Err r) n s = connectHandler Q Err r s"
| "run_handler Q srt Waited n s = doAddressQuery s"
| "run_handler Q srt (Received Err) n s = receiveHandler Err s"
| "run_handler Q srt (Written Err data) n s =
     sentMessageHandler Q Err n (s\<lparr>Sent := Sent s @ take n data\<rparr>)"
| "run_handler Q srt Posted n s = trySendMessage Q s"

text \<open>
  One step of the I/O thread: an operation completes, or a ready handler runs. With
  \<open>fifo\<close> the handlers run in the order in which they became ready, as the queue of a
  service that a single thread runs does; without it any ready handler may run next.
\<close>

inductive io_step ::
  "'q bounded_queue_ops \<Rightarrow> (endpoint list \<Rightarrow> endpoint list) \<Rightarrow> bool \<Rightarrow> 'q impl \<Rightarrow> 'q impl \<Rightarrow> bool"
  for Q :: "'q bounded_queue_ops" and srt :: "endpoint list \<Rightarrow> endpoint list" and fifo :: bool
  where
  complete_op: "Inflight s = us @ op # vs \<Longrightarrow> completes op c \<Longrightarrow>
    io_step Q srt fifo s (s\<lparr>Inflight := us @ vs, Ready := Ready s @ [c]\<rparr>)"
| run_ready: "Ready s = us @ c # vs \<Longrightarrow> fifo \<longrightarrow> us = [] \<Longrightarrow> count_ok c n \<Longrightarrow>
    io_step Q srt fifo s (run_handler Q srt c n (s\<lparr>Ready := us @ vs\<rparr>))"

inductive_cases io_stepE: "io_step Q srt fifo s t"

lemma io_step_weaken: "io_step Q srt True s t \<Longrightarrow> io_step Q srt fifo s t"
  by (induction rule: io_step.induct)
    (auto intro: io_step.intros io_step.run_ready [where us = "[]", simplified])

text \<open>
  A step of the system: one of the I/O thread, or a call of \<open>sendMessage\<close> or \<open>flush\<close> by
  a client thread.
\<close>

inductive conn_step ::
  "'q bounded_queue_ops \<Rightarrow> (endpoint list \<Rightarrow> endpoint list) \<Rightarrow> bool \<Rightarrow> 'q impl \<Rightarrow> 'q impl \<Rightarrow> bool"
  for Q :: "'q bounded_queue_ops" and srt :: "endpoint list \<Rightarrow> endpoint list" and fifo :: bool
  where
  by_io: "io_step Q srt fifo s t \<Longrightarrow> conn_step Q srt fifo s t"
| client_send: "conn_step Q srt fifo s (sendMessage Q thr Msg s)"
| client_flush: "conn_step Q srt fifo s (flush_start Q thr p s)"

inductive_cases conn_stepE: "conn_step Q srt fifo s t"

lemma conn_step_weaken: "conn_step Q srt True s t \<Longrightarrow> conn_step Q srt fifo s t"
  by (induction rule: conn_step.induct) (auto intro: conn_step.intros io_step_weaken)

text \<open>
  Runs with their history: \<open>conn_run Q srt fifo s0 h s\<close> leads from \<open>s0\<close> to \<open>s\<close>, and
  \<open>h\<close> lists the closures that the queue accepted, with the thread that enqueued each.
\<close>

definition enqueued ::
  "'q bounded_queue_ops \<Rightarrow> nat \<Rightarrow> queued \<Rightarrow> 'q impl \<Rightarrow> (nat \<times> queued) list" where
  "enqueued Q thr f s = (if fst (b_try_enqueue Q thr f (LogMessages s)) then [(thr, f)] else [])"

inductive conn_run ::
  "'q bounded_queue_ops \<Rightarrow> (endpoint list \<Rightarrow> endpoint list) \<Rightarrow> bool \<Rightarrow> 'q impl
     \<Rightarrow> (nat \<times> queued) list \<Rightarrow> 'q impl \<Rightarrow> bool"
  for Q :: "'q bounded_queue_ops" and srt :: "endpoint list \<Rightarrow> endpoint list" and fifo :: bool
    and s0 :: "'q impl"
  where
  run_start: "conn_run Q srt fifo s0 [] s0"
| run_io: "conn_run Q srt fifo s0 h s \<Longrightarrow> io_step Q srt fifo s t \<Longrightarrow> conn_run Q srt fifo s0 h t"
| run_send: "conn_run Q srt fifo s0 h s \<Longrightarrow>
    conn_run Q srt fifo s0 (h @ enqueued Q thr (MsgFunc Msg) s) (sendMessage Q thr Msg s)"
| run_flush: "conn_run Q srt fifo s0 h s \<Longrightarrow>
    conn_run Q srt fifo s0 (h @ enqueued Q thr (FlushFunc p) s) (flush_start Q thr p s)"

lemma conn_run_steps: "conn_run Q srt fifo s0 h s \<Longrightarrow> (conn_step Q srt fifo)\<^sup>*\<^sup>* s0 s"
  by (induction rule: conn_run.induct)
    (auto intro: rtranclp.rtrancl_into_rtrancl conn_step.intros)

text \<open>A connection as its constructor leaves it, with a fresh queue.\<close>

definition constructed :: "'q impl \<Rightarrow> bool" where
  "constructed s \<longleftrightarrow> (\<exists>host port q. s = Impl host port q)"

interpretation conn: transition_system constructed "conn_step Q srt fifo" for Q srt fifo
  by unfold_locales (auto simp: constructed_def)

lemma conn_run_reach: "conn_run Q srt fifo s0 h s \<Longrightarrow> constructed s0 \<Longrightarrow> conn.reach Q srt fifo s"
  by (auto simp: conn.reach_def dest: conn_run_steps)

end
