(* ===== verification/Graylog_Machine.thy ===== *)
theory Graylog_Machine
  imports Graylog_Connection
begin

text \<open>
  Invariants of the connection state machine of \<open>Graylog_Connection\<close>: exactly one control
  operation is outstanding and the published status names it; at most one write is
  outstanding and it writes the message buffer; the bytes sent and buffered are the framed
  messages taken from the queue.
\<close>

section \<open>Control operations\<close>

text \<open>
  The operations that drive the connection, each with the status during which it is
  outstanding. Writes and posted sends are not among them.
\<close>

fun op_ctl :: "async_op \<Rightarrow> Status list" where
  "op_ctl Async_resolve = [ADDR_LOOKUP]"
| "op_ctl (Async_connect ep r) = [CONNECT]"
| "op_ctl Async_wait = [ADDR_RETRY_WAIT]"
| "op_ctl Async_receive = [SEND_LOOP]"
| "op_ctl (Async_write data) = []"

fun done_ctl :: "completion \<Rightarrow> Status list" where
  "done_ctl (Resolved Err eps) = [ADDR_LOOKUP]"
| "done_ctl (Connected Err r) = [CONNECT]"
| "done_ctl Waited = [ADDR_RETRY_WAIT]"
| "done_ctl (Received Err) = [SEND_LOOP]"
| "done_ctl (Written Err data) = []"
| "done_ctl Posted = []"

definition control :: "'q impl \<Rightarrow> Status multiset" where
  "control s = mset (concat (map op_ctl (Inflight s))) + mset (concat (map done_ctl (Ready s)))"

definition control_inv :: "'q impl \<Rightarrow> bool" where
  "control_inv s \<longleftrightarrow> control s = {#ConnectionState s#}"

lemma done_ctl_aborted [simp]: "done_ctl (aborted op) = op_ctl op"
  by (cases op) auto

lemma done_ctl_completes: "completes op c \<Longrightarrow> done_ctl c = op_ctl op"
  by (cases op; cases c) auto

lemma control_cancel [conn_simps]: "control (cancel_ops P s) = control s"
proof -
  have "mset (concat (map op_ctl (filter (\<lambda>op. \<not> P op) ops))) +
      mset (concat (map op_ctl (filter P ops))) = mset (concat (map op_ctl ops))" for ops
    by (induction ops) auto
  then show ?thesis
    by (simp add: control_def cancel_ops_def o_def union_assoc union_lcomm)
qed

lemma control_updates [conn_simps]:
  "control (s\<lparr>SocketOpen := b\<rparr>) = control s"
  "control (s\<lparr>Expiry := d\<rparr>) = control s"
  "control (s\<lparr>ConnectionState := st\<rparr>) = control s"
  "control (s\<lparr>MessageBuffer := mb\<rparr>) = control s"
  "control (s\<lparr>LogMessages := q\<rparr>) = control s"
  "control (s\<lparr>Promises := ps\<rparr>) = control s"
  "control (s\<lparr>Sent := bs\<rparr>) = control s"
  by (simp_all add: control_def)

lemma control_start [conn_simps]: "control (start_op op s) = mset (op_ctl op) + control s"
  by (simp add: control_def start_op_def)

lemma control_post [conn_simps]: "control (post s) = control s"
  by (simp add: control_def post_def)

lemma state_ops [conn_simps]:
  "ConnectionState (cancel_ops P s) = ConnectionState s"
  "ConnectionState (start_op op s) = ConnectionState s"
  "ConnectionState (post s) = ConnectionState s"
  "ConnectionState (async_write s) = ConnectionState s"
  by (simp_all add: cancel_ops_def start_op_def post_def async_write_def)

lemma call_queued_frame [conn_simps]:
  "call_queued f s = (m, s') \<Longrightarrow> control s' = control s \<and> ConnectionState s' = ConnectionState s
     \<and> MessageBuffer s' = MessageBuffer s \<and> Inflight s' = Inflight s \<and> Ready s' = Ready s
     \<and> SocketOpen s' = SocketOpen s \<and> LogMessages s' = LogMessages s \<and> Sent s' = Sent s"
  by (cases f) (auto simp: control_def)

section \<open>Effect of the handlers on the control operations\<close>

lemma doAddressQuery_control [conn_simps]:
  "control (doAddressQuery s) = {#ADDR_LOOKUP#} + control s"
  "ConnectionState (doAddressQuery s) = ADDR_LOOKUP"
  by (simp_all add: doAddressQuery_def setState_def conn_simps)

lemma tryConnect_control [conn_simps]:
  "control (tryConnect r s) = {#CONNECT#} + control s"
  "ConnectionState (tryConnect r s) = CONNECT"
  by (simp_all add: tryConnect_def async_connect_def setState_def conn_simps split: prod.splits)

lemma reConnect_control [conn_simps]:
  "control (reConnect d s) = {#ADDR_RETRY_WAIT#} + control s"
  "ConnectionState (reConnect d s) = ADDR_RETRY_WAIT"
  by (simp_all add: reConnect_def expires_after_def setState_def conn_simps)

lemma async_write_control [conn_simps]: "control (async_write s) = control s"
  by (simp add: async_write_def conn_simps)

lemma close_socket_control [conn_simps]:
  "control (close_socket s) = control s" "ConnectionState (close_socket s) = ConnectionState s"
  by (simp_all add: close_socket_def conn_simps)

lemma trySendMessage_control [conn_simps]:
  "control (trySendMessage Q s) = control s \<and> ConnectionState (trySendMessage Q s) = ConnectionState s"
  by (auto simp: trySendMessage_def conn_simps split: prod.splits option.splits
      dest!: call_queued_frame)

lemma sentMessageHandler_control [conn_simps]:
  "control (sentMessageHandler Q Err n s) = control s
    \<and> ConnectionState (sentMessageHandler Q Err n s) = ConnectionState s"
  by (simp add: sentMessageHandler_def Let_def conn_simps)

lemma resolverHandler_control:
  "control s = {#} \<Longrightarrow> control_inv (resolverHandler srt Err eps s)"
  by (simp add: control_inv_def resolverHandler_def setState_def conn_simps)

lemma connectHandler_control:
  "control s = {#} \<Longrightarrow> control_inv (connectHandler Q Err r s)"
  by (simp add: control_inv_def connectHandler_def setState_def Let_def conn_simps)

lemma receiveHandler_control:
  "control s = {#} \<Longrightarrow> ConnectionState s = SEND_LOOP \<Longrightarrow> control_inv (receiveHandler Err s)"
  by (simp add: control_inv_def receiveHandler_def conn_simps)

text \<open>Running a handler consumes its completion and restores the invariant.\<close>

lemma run_handler_control:
  assumes "control_inv s" and "Ready s = us @ c # vs"
  shows "control_inv (run_handler Q srt c n (s\<lparr>Ready := us @ vs\<rparr>))"
proof -
  let ?s = "s\<lparr>Ready := us @ vs\<rparr>"
  have split: "mset (done_ctl c) + control ?s = {#ConnectionState s#}"
    using assms by (simp add: control_inv_def control_def ac_simps)
  show ?thesis
  proof (cases c)
    case (Resolved Err eps)
    with split show ?thesis by (auto intro: resolverHandler_control)
  next
    case (Connected Err r)
    with split show ?thesis by (auto intro: connectHandler_control)
  next
    case Waited
    with split show ?thesis by (auto simp: control_inv_def conn_simps)
  next
    case (Received Err)
    with split have "SEND_LOOP = ConnectionState s" "control ?s = {#}" by auto
    with Received show ?thesis by (auto intro!: receiveHandler_control)
  next
    case (Written Err data)
    with split show ?thesis by (simp add: control_inv_def conn_simps)
  next
    case Posted
    with split show ?thesis by (simp add: control_inv_def conn_simps)
  qed
qed

lemma client_control [conn_simps]:
  "control (sendMessage Q thr m s) = control s" "control (flush_start Q thr p s) = control s"
  "ConnectionState (sendMessage Q thr m s) = ConnectionState s"
  "ConnectionState (flush_start Q thr p s) = ConnectionState s"
  by (auto simp: sendMessage_def flush_start_def conn_simps split: prod.splits bool.splits)

lemma io_step_control: "io_step Q srt fifo s t \<Longrightarrow> control_inv s \<Longrightarrow> control_inv t"
proof (induction rule: io_step.induct)
  case (complete_op s us op vs c)
  then show ?case
    using done_ctl_completes [of op c] by (simp add: control_inv_def control_def ac_simps)
next
  case (run_ready s us c vs n)
  then show ?case by (blast intro: run_handler_control)
qed

lemma conn_step_control: "conn_step Q srt fifo s t \<Longrightarrow> control_inv s \<Longrightarrow> control_inv t"
  by (induction rule: conn_step.induct)
    (auto intro: io_step_control simp: conn_simps control_inv_def [of "sendMessage _ _ _ _"]
      control_inv_def [of "flush_start _ _ _ _"] simp flip: control_inv_def)

lemma constructed_control: "constructed s \<Longrightarrow> control_inv s"
  by (auto simp: constructed_def Impl_def control_inv_def conn_simps) (simp add: control_def)

lemma reach_control: "conn.reach Q srt fifo s \<Longrightarrow> control_inv s"
  by (rule conn.invariant) (auto intro: constructed_control conn_step_control)

section \<open>The chain of sends\<close>

text \<open>
  \<open>trySendMessage\<close> is called again by the completion of what it starts: a write, or the call
  of itself that it posts. The operations of that chain are outstanding writes, and ready
  completions of writes and posted calls.
\<close>

fun is_write :: "async_op \<Rightarrow> bool" where
  "is_write (Async_write data) = True"
| "is_write _ = False"

fun is_send :: "completion \<Rightarrow> bool" where
  "is_send (Written Err data) = True"
| "is_send Posted = True"
| "is_send _ = False"

definition sends :: "'q impl \<Rightarrow> nat" where
  "sends s = length (filter is_write (Inflight s)) + length (filter is_send (Ready s))"

text \<open>No wait of the timer became ready before a send of the chain.\<close>

fun wait_last :: "completion list \<Rightarrow> bool" where
  "wait_last [] = True"
| "wait_last (c # cs) = ((c = Waited \<longrightarrow> list_all (\<lambda>d. \<not> is_send d) cs) \<and> wait_last cs)"

text \<open>
  The chain invariant: at most one send is outstanding; what it writes is the message buffer;
  and it exists only while the connection is up, or for a while after it was closed, and then
  it is served before the timer can start the next attempt.
\<close>

definition chain_inv :: "'q impl \<Rightarrow> bool" where
  "chain_inv s \<longleftrightarrow>
     sends s \<le> 1
     \<and> (\<forall>data. Async_write data \<in> set (Inflight s) \<longrightarrow> data = MessageBuffer s)
     \<and> (\<forall>Err data. Written Err data \<in> set (Ready s) \<longrightarrow> data = MessageBuffer s)
     \<and> wait_last (Ready s)
     \<and> (sends s = 1 \<longrightarrow> ConnectionState s = SEND_LOOP
          \<or> ConnectionState s = ADDR_RETRY_WAIT \<and> \<not> SocketOpen s \<and> filter is_write (Inflight s) = [])"

lemma wait_last_snoc:
  "wait_last (cs @ [c]) \<longleftrightarrow> wait_last cs \<and> (is_send c \<longrightarrow> Waited \<notin> set cs)"
  by (induction cs) auto

lemma no_waited: "control s = {#st#} \<Longrightarrow> st \<noteq> ADDR_RETRY_WAIT \<Longrightarrow> Waited \<notin> set (Ready s)"
  by (auto simp: control_def dest!: split_list)

lemma wait_last_append:
  "list_all (\<lambda>d. \<not> is_send d) ds \<Longrightarrow> wait_last (cs @ ds) \<longleftrightarrow> wait_last cs"
proof (induction ds rule: rev_induct)
  case (snoc d ds)
  then show ?case by (simp flip: append_assoc add: wait_last_snoc)
qed simp

lemma wait_last_no_waited: "Waited \<notin> set cs \<Longrightarrow> wait_last cs"
  by (induction cs) auto

lemma is_send_completes: "completes op c \<Longrightarrow> is_send c = is_write op"
  by (cases op; cases c) auto

lemma is_send_aborted [simp]: "is_send (aborted op) = is_write op"
  by (cases op) auto

lemma sends_simps [conn_simps]:
  "sends (s\<lparr>SocketOpen := b\<rparr>) = sends s"
  "sends (s\<lparr>Expiry := d\<rparr>) = sends s"
  "sends (s\<lparr>ConnectionState := st\<rparr>) = sends s"
  "sends (s\<lparr>MessageBuffer := mb\<rparr>) = sends s"
  "sends (s\<lparr>LogMessages := q\<rparr>) = sends s"
  "sends (s\<lparr>Promises := ps\<rparr>) = sends s"
  "sends (s\<lparr>Sent := bs\<rparr>) = sends s"
  "sends (start_op op s) = (if is_write op then Suc (sends s) else sends s)"
  "sends (post s) = Suc (sends s)"
  by (auto simp: sends_def start_op_def post_def)

lemma sends_cancel [conn_simps]: "sends (cancel_ops P s) = sends s"
proof -
  have "length (filter is_write (filter (\<lambda>op. \<not> P op) ops)) + length (filter is_write (filter P ops))
      = length (filter is_write ops)" for ops
    by (induction ops) auto
  from this [of "Inflight s"] show ?thesis
    by (simp add: sends_def cancel_ops_def filter_map o_def del: filter_filter)
qed

lemma sends_ops [conn_simps]:
  "sends (close_socket s) = sends s"
  "sends (expires_after d s) = sends s"
  "sends (setState st s) = sends s"
  "sends (doAddressQuery s) = sends s"
  "sends (reConnect d s) = sends s"
  "sends (tryConnect r s) = sends s"
  by (simp_all add: close_socket_def expires_after_def setState_def doAddressQuery_def
      reConnect_def tryConnect_def async_connect_def conn_simps split: prod.splits)

lemma no_sends:
  assumes "sends s = 0" and "wait_last (Ready s)"
  shows "chain_inv s"
proof -
  have "filter is_write (Inflight s) = []" "filter is_send (Ready s) = []"
    using assms(1) by (auto simp: sends_def)
  then have "Async_write data \<notin> set (Inflight s)" "Written Err data \<notin> set (Ready s)" for Err data
    by (auto simp: filter_empty_conv)
  with assms show ?thesis by (simp add: chain_inv_def)
qed

lemma one_send:
  assumes "sends s = 0" and "ConnectionState s = SEND_LOOP" and "Waited \<notin> set (Ready s)"
  shows "chain_inv (async_write s)" and "chain_inv (post s)"
proof -
  have n: "filter is_write (Inflight s) = []" "filter is_send (Ready s) = []"
    using assms(1) by (auto simp: sends_def)
  then have "Async_write data \<notin> set (Inflight s)" "Written Err data \<notin> set (Ready s)" for Err data
    by (auto simp: filter_empty_conv)
  with n assms(2,3) show "chain_inv (async_write s)" and "chain_inv (post s)"
    by (auto simp: chain_inv_def async_write_def start_op_def post_def sends_def
        intro: wait_last_no_waited)
qed

lemma trySendMessage_chain:
  assumes "sends s = 0" and "wait_last (Ready s)"
    and "SocketOpen s \<Longrightarrow> ConnectionState s = SEND_LOOP \<and> Waited \<notin> set (Ready s)"
  shows "chain_inv (trySendMessage Q s)"
proof (cases "SocketOpen s")
  case False
  with no_sends [OF assms(1,2)] show ?thesis by (simp add: trySendMessage_def)
next
  case open_: True
  show ?thesis
  proof (cases "b_wait_dequeue_timed Q (LogMessages s)")
    case (Pair r q)
    show ?thesis
    proof (cases r)
      case None
      with open_ assms Pair show ?thesis
        by (auto simp: trySendMessage_def conn_simps intro!: one_send)
    next
      case (Some f)
      obtain m s' where m: "call_queued f (s\<lparr>LogMessages := q\<rparr>) = (m, s')" by fastforce
      have "sends s' = 0" "ConnectionState s' = SEND_LOOP" "Waited \<notin> set (Ready s')"
        using call_queued_frame [OF m] assms open_ by (auto simp: sends_def)
      with open_ assms Pair Some m show ?thesis
        by (auto simp: trySendMessage_def conn_simps Let_def intro!: one_send)
    qed
  qed
qed

lemma chain_frame:
  assumes "chain_inv s" and "sends t = sends s" and "Inflight t = Inflight s" and "Ready t = Ready s"
    and "MessageBuffer t = MessageBuffer s" and "SocketOpen t = SocketOpen s"
    and "ConnectionState t = ConnectionState s"
  shows "chain_inv t"
  using assms by (simp add: chain_inv_def)

text \<open>The queue of ready handlers only changes by what the handlers append.\<close>

lemma no_ctl:
  assumes "control s = {#}"
  shows "op \<in> set (Inflight s) \<Longrightarrow> is_write op"
proof -
  assume "op \<in> set (Inflight s)"
  then have "set (op_ctl op) \<subseteq> set_mset (control s)" by (auto simp: control_def)
  with assms show "is_write op" by (cases op) auto
qed

lemma no_wait_op: "control s = {#} \<Longrightarrow> filter (\<lambda>op. op = Async_wait) (Inflight s) = []"
  by (auto simp: filter_empty_conv dest: no_ctl)

lemma ready_simps [conn_simps]:
  "Ready (setState st s) = Ready s"
  "Ready (start_op op s) = Ready s"
  "Ready (doAddressQuery s) = Ready s"
  "Ready (tryConnect r s) = Ready s"
  "Ready (s\<lparr>ConnectionState := st\<rparr>) = Ready s"
  by (simp_all add: setState_def start_op_def doAddressQuery_def tryConnect_def async_connect_def
      split: prod.splits)

lemma ready_reConnect:
  "filter (\<lambda>op. op = Async_wait) (Inflight s) = [] \<Longrightarrow> Ready (reConnect d s) = Ready s"
  by (simp add: reConnect_def setState_def start_op_def expires_after_def cancel_ops_def)

lemma ready_close:
  "Ready (close_socket s) = Ready s @ map aborted (filter on_socket (Inflight s))"
  by (simp add: close_socket_def cancel_ops_def)

lemma inflight_close:
  "Inflight (close_socket s) = filter (\<lambda>op. \<not> on_socket op) (Inflight s)"
  by (simp add: close_socket_def cancel_ops_def)

lemma resolverHandler_chain:
  assumes "control s = {#}" and "sends s = 0" and "wait_last (Ready s)"
  shows "chain_inv (resolverHandler srt Err eps s)"
proof (rule no_sends)
  show "sends (resolverHandler srt Err eps s) = 0"
    using assms(2) by (simp add: resolverHandler_def conn_simps)
  have "filter (\<lambda>op. op = Async_wait) (Inflight (setState ADDR_RETRY_WAIT s)) = []"
    using no_wait_op [OF assms(1)] by (simp add: setState_def)
  with assms(3) show "wait_last (Ready (resolverHandler srt Err eps s))"
    by (simp add: resolverHandler_def conn_simps ready_reConnect)
qed

lemma no_writes: "sends s = 0 \<Longrightarrow> control s = {#} \<Longrightarrow> Inflight s = []"
proof (rule ccontr)
  assume a: "sends s = 0" "control s = {#}" "Inflight s \<noteq> []"
  then obtain op ops where "Inflight s = op # ops" by (cases "Inflight s") auto
  with a(1) no_ctl [OF a(2), of op] show False by (simp add: sends_def)
qed

lemma connectHandler_chain:
  assumes "control s = {#}" and "sends s = 0" and "wait_last (Ready s)" and "Waited \<notin> set (Ready s)"
  shows "chain_inv (connectHandler Q Err r s)"
proof (cases Err)
  case False
  let ?s = "start_op Async_receive (setState SEND_LOOP s)"
  have "chain_inv (trySendMessage Q ?s)"
    using assms by (intro trySendMessage_chain)
      (simp_all add: conn_simps setState_def)
  with False show ?thesis by (simp add: connectHandler_def)
next
  case True
  have i: "Inflight s = []" using assms(1,2) by (rule no_writes [rotated])
  have "sends (connectHandler Q Err r s) = 0"
    using True assms(2) by (simp add: connectHandler_def Let_def conn_simps)
  moreover have "Ready (connectHandler Q Err r s) = Ready s"
    using True i by (simp add: connectHandler_def Let_def conn_simps ready_reConnect ready_close
        inflight_close)
  ultimately show ?thesis using assms(3) by (intro no_sends) simp_all
qed

lemma receiveHandler_chain:
  assumes "chain_inv s" and "control s = {#}" and "Waited \<notin> set (Ready s)"
    and "ConnectionState s = SEND_LOOP"
  shows "chain_inv (receiveHandler Err s)"
proof (cases Err)
  case False
  with assms(1) show ?thesis by (simp add: receiveHandler_def chain_inv_def start_op_def sends_def)
next
  case True
  have w: "filter (\<lambda>op. \<not> on_socket op) (Inflight s) = []"
  proof -
    have "on_socket op" if "op \<in> set (Inflight s)" for op
      using no_ctl [OF assms(2) that] by (cases op) auto
    then show ?thesis by (simp add: filter_empty_conv)
  qed
  have w2: "filter on_socket (Inflight s) = Inflight s"
    using w by (simp add: filter_empty_conv filter_id_conv)
  have aw: "Waited \<notin> aborted ` set (Inflight s)"
  proof
    assume "Waited \<in> aborted ` set (Inflight s)"
    then obtain op where "op \<in> set (Inflight s)" "aborted op = Waited" by auto
    with no_ctl [OF assms(2), of op] show False by (cases op) auto
  qed
  have r: "Ready (receiveHandler Err s) = Ready s @ map aborted (Inflight s)"
    using True w w2 by (simp add: receiveHandler_def ready_reConnect ready_close inflight_close)
  have i: "Inflight (receiveHandler Err s) = [Async_wait]"
    using True w by (simp add: receiveHandler_def reConnect_def setState_def start_op_def
        expires_after_def cancel_ops_def inflight_close)
  have rest: "MessageBuffer (receiveHandler Err s) = MessageBuffer s"
    "\<not> SocketOpen (receiveHandler Err s)" "ConnectionState (receiveHandler Err s) = ADDR_RETRY_WAIT"
    using True by (simp_all add: receiveHandler_def reConnect_def setState_def start_op_def
        expires_after_def cancel_ops_def close_socket_def)
  have n: "sends (receiveHandler Err s) = sends s"
    using True by (simp add: receiveHandler_def conn_simps)
  have data: "data = MessageBuffer s" if "Written Er data \<in> aborted ` set (Inflight s)" for Er data
  proof -
    from that obtain op where "op \<in> set (Inflight s)" "aborted op = Written Er data" by auto
    with no_ctl [OF assms(2), of op] have "Async_write data \<in> set (Inflight s)"
      by (cases op) auto
    with assms(1) show ?thesis by (simp add: chain_inv_def)
  qed
  show ?thesis
    using assms(1,3) aw data rest n unfolding chain_inv_def r i
    by (auto intro!: wait_last_no_waited)
qed

lemma close_socket_chain:
  assumes "sends s = 0" and "wait_last (Ready s)"
  shows "chain_inv (close_socket s)"
proof (rule no_sends)
  show "sends (close_socket s) = 0" using assms(1) by (simp add: conn_simps)
  have "list_all (\<lambda>d. \<not> is_send d) (map aborted (filter on_socket (Inflight s)))"
    using assms(1) by (auto simp: sends_def list_all_iff filter_empty_conv)
  with assms(2) show "wait_last (Ready (close_socket s))" by (simp add: ready_close wait_last_append)
qed

lemma sentMessageHandler_chain:
  assumes "sends s = 0" and "wait_last (Ready s)"
    and "SocketOpen s \<Longrightarrow> ConnectionState s = SEND_LOOP \<and> Waited \<notin> set (Ready s)"
  shows "chain_inv (sentMessageHandler Q Err n s)"
proof -
  obtain mb where "sentMessageHandler Q Err n s =
      (if Err then close_socket (s\<lparr>MessageBuffer := mb\<rparr>) else trySendMessage Q (s\<lparr>MessageBuffer := mb\<rparr>))"
    by (cases "n = length (MessageBuffer s)"; cases "n > 0")
      (auto simp: sentMessageHandler_def Let_def intro: that [of "MessageBuffer s"])
  moreover have "chain_inv (close_socket (s\<lparr>MessageBuffer := mb\<rparr>))"
    using assms by (intro close_socket_chain) (simp_all add: conn_simps)
  moreover have "chain_inv (trySendMessage Q (s\<lparr>MessageBuffer := mb\<rparr>))"
    using assms by (intro trySendMessage_chain) (simp_all add: conn_simps)
  ultimately show ?thesis by simp
qed

lemma sends_pop:
  "Ready s = c # vs \<Longrightarrow> sends s = (if is_send c then 1 else 0) + sends (s\<lparr>Ready := vs\<rparr>)"
  by (simp add: sends_def)

lemma control_pop:
  "Ready s = c # vs \<Longrightarrow> control s = mset (done_ctl c) + control (s\<lparr>Ready := vs\<rparr>)"
  by (simp add: control_def ac_simps)

lemma run_head_chain:
  assumes inv: "chain_inv s" "control_inv s" and r: "Ready s = c # vs"
  shows "chain_inv (run_handler Q srt c n (s\<lparr>Ready := vs\<rparr>))"
proof -
  let ?s = "s\<lparr>Ready := vs\<rparr>"
  have ctl: "mset (done_ctl c) + control ?s = {#ConnectionState s#}"
    using inv(2) control_pop [OF r] by (simp add: control_inv_def)
  have le: "sends s \<le> 1" and wl: "wait_last vs" "wait_last (c # vs)"
    using inv(1) r by (auto simp: chain_inv_def)
  have nw: "Waited \<notin> set vs" if "ConnectionState s \<noteq> ADDR_RETRY_WAIT"
    using no_waited [of s "ConnectionState s"] inv(2) that r by (auto simp: control_inv_def)
  have up: "ConnectionState s = SEND_LOOP \<or> ConnectionState s = ADDR_RETRY_WAIT \<and> \<not> SocketOpen s
      \<and> filter is_write (Inflight s) = []" if "sends s = 1"
    using inv(1) that by (auto simp: chain_inv_def)
  have send: "sends ?s = 0" "SocketOpen s \<Longrightarrow> ConnectionState s = SEND_LOOP \<and> Waited \<notin> set vs"
    if "is_send c"
  proof -
    have "sends s = 1" "sends ?s = 0" using that sends_pop [OF r] le by auto
    with up nw show "sends ?s = 0" "SocketOpen s \<Longrightarrow> ConnectionState s = SEND_LOOP \<and> Waited \<notin> set vs"
      by auto
  qed
  have idle: "sends ?s = 0" if "\<not> is_send c" "ConnectionState s = ADDR_LOOKUP \<or> ConnectionState s = CONNECT"
  proof -
    have "sends s \<noteq> 1" using up that(2) by auto
    with le that(1) sends_pop [OF r] show ?thesis by simp
  qed
  show ?thesis
  proof (cases c)
    case (Resolved Err eps)
    with ctl idle wl(1) show ?thesis by (auto intro!: resolverHandler_chain)
  next
    case (Connected Err rs)
    with ctl idle wl(1) nw show ?thesis by (auto intro!: connectHandler_chain)
  next
    case Waited
    have "filter is_send vs = []" using wl(2) Waited by (simp add: filter_empty_conv list_all_iff)
    moreover have "filter is_write (Inflight s) = []"
    proof (cases "sends s = 1")
      case True
      with up Waited ctl show ?thesis by auto
    next
      case False
      with le have "length (filter is_write (Inflight s)) = 0" unfolding sends_def by linarith
      then show ?thesis by simp
    qed
    ultimately have "sends ?s = 0" by (simp add: sends_def)
    with Waited wl(1) show ?thesis by (auto intro!: no_sends simp: conn_simps)
  next
    case (Received Err)
    then have "chain_inv ?s" using inv(1) r wl(1) by (auto simp: chain_inv_def sends_def)
    with Received ctl nw show ?thesis by (auto intro!: receiveHandler_chain)
  next
    case (Written Err data)
    with send wl(1) show ?thesis by (auto intro!: sentMessageHandler_chain simp: conn_simps)
  next
    case Posted
    with send wl(1) show ?thesis by (auto intro!: trySendMessage_chain)
  qed
qed

lemma io_step_chain:
  assumes "io_step Q srt True s t" and "chain_inv s" and "control_inv s"
  shows "chain_inv t"
  using assms
proof (induction rule: io_step.induct)
  case (complete_op s us op vs c)
  let ?t = "s\<lparr>Inflight := us @ vs, Ready := Ready s @ [c]\<rparr>"
  have eq: "is_send c = is_write op" using complete_op(2) by (rule is_send_completes)
  have "Waited \<notin> set (Ready s)" if "is_send c"
  proof -
    from that eq complete_op(1) have "filter is_write (Inflight s) \<noteq> []" by simp
    moreover from this have "1 \<le> sends s" by (simp add: sends_def Suc_le_eq)
    then have "sends s = 1" using complete_op(3) by (simp add: chain_inv_def)
    ultimately have "ConnectionState s = SEND_LOOP" using complete_op(3) by (auto simp: chain_inv_def)
    then show ?thesis using no_waited complete_op(4) by (auto simp: control_inv_def)
  qed
  then have w: "wait_last (Ready s @ [c])"
    using complete_op(3) by (simp add: wait_last_snoc chain_inv_def)
  have data: "data = MessageBuffer s" if "c = Written Err data" for Err data
  proof -
    from that complete_op(2) have "op = Async_write data" by (cases op) auto
    with complete_op(1,3) show ?thesis by (simp add: chain_inv_def)
  qed
  have "sends ?t = sends s" using complete_op(1) eq by (simp add: sends_def)
  with w data complete_op(1,3) show ?case by (auto simp: chain_inv_def split: if_splits)
next
  case (run_ready s us c vs n)
  then have "us = []" by simp
  with run_ready run_head_chain [of s c vs Q srt n] show ?case by simp
qed

lemma client_chain:
  "chain_inv s \<Longrightarrow> chain_inv (sendMessage Q thr m s)"
  "chain_inv s \<Longrightarrow> chain_inv (flush_start Q thr p s)"
  by (erule chain_frame; auto simp: sendMessage_def flush_start_def sends_def
      split: prod.splits bool.splits)+

lemma constructed_chain: "constructed s \<Longrightarrow> chain_inv s"
  by (auto simp: constructed_def Impl_def intro!: no_sends simp: conn_simps) (simp add: sends_def)

lemma reach_chain: "conn.reach Q srt True s \<Longrightarrow> control_inv s \<and> chain_inv s"
proof (rule conn.invariant)
  fix s t
  assume inv: "control_inv s \<and> chain_inv s" and "conn_step Q srt True s t"
  from this(2) show "control_inv t \<and> chain_inv t"
  proof (cases rule: conn_step.cases)
    case by_io
    with inv show ?thesis using io_step_control io_step_chain by blast
  qed (use inv in \<open>auto intro: client_chain conn_step_control conn_step.intros\<close>)
qed (auto intro: constructed_control constructed_chain)

end
