(* ===== verification/Graylog_Delivery.thy ===== *)
theory Graylog_Delivery
  imports Graylog_Machine Base_Handler
begin

text \<open>
  What the connection delivers: the bytes sent so far and those in the message buffer are the
  frames of the messages taken from the queue, each thread's messages in its order; what a
  finished \<open>flush\<close> says; the bound of the buffer; the order in which endpoints are tried; and
  that the connection never gets stuck. The lemmas rest on the invariants of
  \<open>Graylog_Machine\<close>.
\<close>

section \<open>Frames\<close>

text \<open>A message is sent with a terminating zero byte; empty messages and flushes send nothing.\<close>

fun frame :: "queued \<Rightarrow> string" where
  "frame (MsgFunc Msg) = (if Msg = [] then [] else Msg @ [nul])"
| "frame (FlushFunc p) = []"

definition frames :: "(nat \<times> queued) list \<Rightarrow> string" where
  "frames ts = concat (map (frame \<circ> snd) ts)"

lemma frames_simps [simp]:
  "frames [] = []" "frames ((p, f) # ts) = frame f @ frames ts" "frames (ts @ us) = frames ts @ frames us"
  by (simp_all add: frames_def)

lemma takes_append: "takes P ts P' \<Longrightarrow> takes P' us P'' \<Longrightarrow> takes P (ts @ us) P''"
  by (simp add: takes_def)

text \<open>
  \<open>delivers pend s us t\<close>: on the way from \<open>s\<close> to \<open>t\<close> the closures \<open>us\<close> left the queue,
  their frames entered the stream, and only their promises changed.
\<close>

definition delivers ::
  "('q \<Rightarrow> nat \<Rightarrow> queued list) \<Rightarrow> 'q impl \<Rightarrow> (nat \<times> queued) list \<Rightarrow> 'q impl \<Rightarrow> bool" where
  "delivers pend s us t \<longleftrightarrow>
     takes (pend (LogMessages s)) us (pend (LogMessages t))
     \<and> Sent t @ MessageBuffer t = Sent s @ MessageBuffer s @ frames us
     \<and> (\<forall>p. Promises t p \<noteq> Promises s p \<longrightarrow> (\<exists>thr. (thr, FlushFunc p) \<in> set us))
     \<and> length (MessageBuffer t) \<le>
         max (length (MessageBuffer s)) (MessageAdditionLimit + length (frames us))"

lemma delivers_trans:
  assumes "delivers pend s us t" and "delivers pend t vs u"
  shows "delivers pend s (us @ vs) u"
proof -
  have "\<exists>thr. (thr, FlushFunc p) \<in> set (us @ vs)" if "Promises u p \<noteq> Promises s p" for p
    using that assms unfolding delivers_def by (metis Un_iff set_append)
  with assms show ?thesis unfolding delivers_def by (auto intro: takes_append)
qed

lemma delivers_same:
  "Sent t @ MessageBuffer t = Sent s @ MessageBuffer s \<Longrightarrow> LogMessages t = LogMessages s
    \<Longrightarrow> Promises t = Promises s \<Longrightarrow> length (MessageBuffer t) \<le> length (MessageBuffer s)
    \<Longrightarrow> delivers pend s [] t"
  by (simp add: delivers_def takes_def max_def)

lemma bounded_none:
  "bounded_contract Q pend \<Longrightarrow> b_wait_dequeue_timed Q q = (None, q') \<Longrightarrow> pend q' = pend q"
  by (simp add: bounded_contract_def)

lemma bounded_some:
  "bounded_contract Q pend \<Longrightarrow> b_wait_dequeue_timed Q q = (Some f, q') \<Longrightarrow>
     \<exists>p fs. pend q p = f # fs \<and> pend q' = (pend q)(p := fs)"
  by (simp add: bounded_contract_def)

lemma bounded_enqueue:
  "bounded_contract Q pend \<Longrightarrow> b_try_enqueue Q p f q = (b, q') \<Longrightarrow>
     pend q' = (if b then (pend q)(p := pend q p @ [f]) else pend q)"
  by (cases b) (simp_all add: bounded_contract_def)

section \<open>Effect of the handlers on the stream\<close>

lemma op_data:
  "Sent (async_write s) = Sent s" "MessageBuffer (async_write s) = MessageBuffer s"
  "LogMessages (async_write s) = LogMessages s" "Promises (async_write s) = Promises s"
  "Sent (post s) = Sent s" "MessageBuffer (post s) = MessageBuffer s"
  "LogMessages (post s) = LogMessages s" "Promises (post s) = Promises s"
  by (simp_all add: async_write_def start_op_def post_def)

lemma trySendMessage_delivers:
  assumes "bounded_contract Q pend"
  shows "\<exists>us. delivers pend s us (trySendMessage Q s) \<and> length us \<le> 1"
proof (cases "SocketOpen s \<and> length (MessageBuffer s) \<le> MessageAdditionLimit")
  case False
  then have "delivers pend s [] (trySendMessage Q s)"
    by (intro delivers_same) (auto simp: trySendMessage_def op_data)
  then show ?thesis by fastforce
next
  case True
  obtain r q where rq: "b_wait_dequeue_timed Q (LogMessages s) = (r, q)" by fastforce
  show ?thesis
  proof (cases r)
    case None
    with True rq bounded_none [OF assms] have "delivers pend s [] (trySendMessage Q s)"
      by (simp add: delivers_def takes_def trySendMessage_def op_data)
    then show ?thesis by fastforce
  next
    case (Some f)
    obtain p fs where p: "pend (LogMessages s) p = f # fs" "pend q = (pend (LogMessages s))(p := fs)"
      using bounded_some [OF assms] rq Some by blast
    have t: "takes (pend (LogMessages s)) [(p, f)] (pend q)"
      using p by (simp add: takes_def)
    have "delivers pend s [(p, f)] (trySendMessage Q s)"
      using True rq Some t by (cases f) (auto simp: delivers_def trySendMessage_def op_data)
    with True show ?thesis by fastforce
  qed
qed

lemma asio_data [conn_simps]:
  "Sent (reConnect d s) = Sent s \<and> MessageBuffer (reConnect d s) = MessageBuffer s
    \<and> LogMessages (reConnect d s) = LogMessages s \<and> Promises (reConnect d s) = Promises s"
  "Sent (tryConnect r s) = Sent s \<and> MessageBuffer (tryConnect r s) = MessageBuffer s
    \<and> LogMessages (tryConnect r s) = LogMessages s \<and> Promises (tryConnect r s) = Promises s"
  "Sent (doAddressQuery s) = Sent s \<and> MessageBuffer (doAddressQuery s) = MessageBuffer s
    \<and> LogMessages (doAddressQuery s) = LogMessages s \<and> Promises (doAddressQuery s) = Promises s"
  "Sent (close_socket s) = Sent s \<and> MessageBuffer (close_socket s) = MessageBuffer s
    \<and> LogMessages (close_socket s) = LogMessages s \<and> Promises (close_socket s) = Promises s"
  "Sent (start_op op s) = Sent s \<and> MessageBuffer (start_op op s) = MessageBuffer s
    \<and> LogMessages (start_op op s) = LogMessages s \<and> Promises (start_op op s) = Promises s"
  "Sent (setState st s) = Sent s \<and> MessageBuffer (setState st s) = MessageBuffer s
    \<and> LogMessages (setState st s) = LogMessages s \<and> Promises (setState st s) = Promises s"
  by (simp_all add: reConnect_def expires_after_def cancel_ops_def setState_def start_op_def
      tryConnect_def async_connect_def doAddressQuery_def close_socket_def split: prod.splits)

text \<open>
  A completed write moves the bytes it reports from the buffer to what was sent, as long as
  it wrote the buffer; this is where the chain invariant is needed.
\<close>

lemma sent_split:
  assumes "n \<le> length (MessageBuffer s)"
  shows "sentMessageHandler Q Err n s =
    (let s' = s\<lparr>MessageBuffer := drop n (MessageBuffer s)\<rparr>
     in if Err then close_socket s' else trySendMessage Q s')"
  using assms by (simp add: sentMessageHandler_def Let_def)

lemma run_handler_delivers:
  assumes "bounded_contract Q pend" and "count_ok c n"
    and "\<And>Err data. c = Written Err data \<Longrightarrow> data = MessageBuffer s"
  shows "\<exists>us. delivers pend s us (run_handler Q srt c n s) \<and> length us \<le> 1"
proof -
  have same: "delivers pend s [] t" if "Sent t @ MessageBuffer t = Sent s @ MessageBuffer s"
    "LogMessages t = LogMessages s" "Promises t = Promises s"
    "length (MessageBuffer t) \<le> length (MessageBuffer s)" for t
    using that by (rule delivers_same)
  have next_send: "\<exists>us. delivers pend s us (trySendMessage Q t) \<and> length us \<le> 1"
    if "delivers pend s [] t" for t
    using trySendMessage_delivers [OF assms(1), of t] delivers_trans [OF that] by fastforce
  show ?thesis
  proof (cases c)
    case (Resolved Err eps)
    then have "delivers pend s [] (run_handler Q srt c n s)"
      by (intro same) (simp_all add: resolverHandler_def conn_simps)
    then show ?thesis by fastforce
  next
    case (Connected Err r)
    show ?thesis
    proof (cases Err)
      case True
      then have "delivers pend s [] (run_handler Q srt c n s)"
        using Connected by (intro same) (simp_all add: connectHandler_def Let_def conn_simps)
      then show ?thesis by fastforce
    next
      case False
      have "delivers pend s [] (start_op Async_receive (setState SEND_LOOP s))"
        by (intro same) (simp_all add: conn_simps)
      from next_send [OF this] False Connected show ?thesis by (simp add: connectHandler_def)
    qed
  next
    case Waited
    then have "delivers pend s [] (run_handler Q srt c n s)"
      by (intro same) (simp_all add: conn_simps)
    then show ?thesis by fastforce
  next
    case (Received Err)
    then have "delivers pend s [] (run_handler Q srt c n s)"
      by (intro same) (simp_all add: receiveHandler_def conn_simps)
    then show ?thesis by fastforce
  next
    case (Written Err data)
    then have n: "data = MessageBuffer s" "n \<le> length (MessageBuffer s)"
      using assms(2,3) by auto
    let ?t = "s\<lparr>Sent := Sent s @ take n data, MessageBuffer := drop n (MessageBuffer s)\<rparr>"
    have d: "delivers pend s [] ?t" using n by (intro same) simp_all
    have eq: "run_handler Q srt c n s = (if Err then close_socket ?t else trySendMessage Q ?t)"
      using Written n by (simp add: sent_split Let_def)
    have "delivers pend s [] (close_socket ?t)"
      using d by (simp add: delivers_def conn_simps)
    with eq next_send [OF d] show ?thesis by fastforce
  next
    case Posted
    have "delivers pend s [] s" by (intro same) simp_all
    from next_send [OF this] Posted show ?thesis by simp
  qed
qed

section \<open>Histories\<close>

text \<open>
  The state after a run with history \<open>h\<close>: \<open>ts\<close> are the closures the I/O thread has taken,
  in the order in which it took them.
\<close>

definition accounted ::
  "('q \<Rightarrow> nat \<Rightarrow> queued list) \<Rightarrow> (nat \<times> queued) list \<Rightarrow> (nat \<times> queued) list \<Rightarrow> 'q impl \<Rightarrow> bool" where
  "accounted pend h ts s \<longleftrightarrow>
     (\<forall>thr. of_producer thr h = of_producer thr ts @ pend (LogMessages s) thr)
     \<and> Sent s @ MessageBuffer s = frames ts
     \<and> (\<forall>p. Promises s p = Satisfied \<longrightarrow> (\<exists>thr. (thr, FlushFunc p) \<in> set ts))"

lemma accountedD: "accounted pend h ts s \<Longrightarrow> of_producer thr h = of_producer thr ts @ pend (LogMessages s) thr"
  by (simp add: accounted_def)

lemma accounted_delivers:
  assumes "accounted pend h ts s" and "delivers pend s us t"
  shows "accounted pend h (ts @ us) t"
proof -
  have "\<exists>thr. (thr, FlushFunc p) \<in> set (ts @ us)" if "Promises t p = Satisfied" for p
    using that assms unfolding accounted_def delivers_def by (metis Un_iff set_append)
  moreover have "of_producer thr h = of_producer thr (ts @ us) @ pend (LogMessages t) thr" for thr
    using assms by (simp add: accounted_def delivers_def takes_def)
  moreover have "Sent t @ MessageBuffer t = frames (ts @ us)"
    using assms by (simp add: accounted_def delivers_def flip: append_assoc)
  ultimately show ?thesis by (simp add: accounted_def)
qed

lemma taken_in_history:
  assumes "accounted pend h ts s"
  shows "set ts \<subseteq> set h"
proof
  fix x assume "x \<in> set ts"
  then have "snd x \<in> set (of_producer (fst x) ts)" by (simp add: of_producer_set)
  then have "snd x \<in> set (of_producer (fst x) h)" using assms by (simp add: accounted_def)
  then show "x \<in> set h" by (simp add: of_producer_set)
qed

lemma accounted_send:
  assumes "bounded_contract Q pend" and "accounted pend h ts s"
  shows "accounted pend (h @ enqueued Q thr (MsgFunc m) s) ts (sendMessage Q thr m s)"
proof -
  obtain b q where "b_try_enqueue Q thr (MsgFunc m) (LogMessages s) = (b, q)" by fastforce
  with bounded_enqueue [OF assms(1) this] assms(2) show ?thesis
    by (simp add: accounted_def enqueued_def sendMessage_def)
qed

lemma accounted_flush:
  assumes "bounded_contract Q pend" and "accounted pend h ts s"
  shows "accounted pend (h @ enqueued Q thr (FlushFunc p) s) ts (flush_start Q thr p s)"
proof -
  obtain b q where b: "b_try_enqueue Q thr (FlushFunc p) (LogMessages s) = (b, q)" by fastforce
  show ?thesis
  proof (cases b)
    case True
    with b bounded_enqueue [OF assms(1) b] assms(2) show ?thesis
      by (simp add: accounted_def enqueued_def flush_start_def)
  next
    case False
    have "drop_promise (Promises s p) = Satisfied \<Longrightarrow> Promises s p = Satisfied"
      by (simp add: drop_promise_def split: if_splits)
    with False b bounded_enqueue [OF assms(1) b] assms(2) show ?thesis
      by (simp add: accounted_def enqueued_def flush_start_def)
  qed
qed

lemma io_step_delivers:
  assumes "bounded_contract Q pend" and "io_step Q srt True s t" and "chain_inv s"
  shows "\<exists>us. delivers pend s us t \<and> length us \<le> 1"
  using assms(2)
proof (cases rule: io_step.cases)
  case (complete_op us op vs c)
  then have "delivers pend s [] t" by (intro delivers_same) simp_all
  then show ?thesis by fastforce
next
  case (run_ready us c vs n)
  let ?s = "s\<lparr>Ready := us @ vs\<rparr>"
  have "data = MessageBuffer ?s" if "c = Written Err data" for Err data
    using that run_ready assms(3) by (simp add: chain_inv_def)
  from run_handler_delivers [OF assms(1) run_ready(4) this] obtain us' where
    "delivers pend ?s us' (run_handler Q srt c n ?s)" "length us' \<le> 1" by blast
  then have "delivers pend s us' t" using run_ready(1) by (simp add: delivers_def)
  with \<open>length us' \<le> 1\<close> show ?thesis by blast
qed

lemma run_inv:
  assumes "conn_run Q srt True (Impl host port q0) h s"
  shows "control_inv s \<and> chain_inv s"
proof -
  have "constructed (Impl host port q0)" by (auto simp: constructed_def)
  with assms show ?thesis by (rule reach_chain [OF conn_run_reach])
qed

lemma run_accounted:
  assumes "bounded_contract Q pend" and "pend q0 = (\<lambda>_. [])"
    and "conn_run Q srt True (Impl host port q0) h s"
  shows "\<exists>ts. accounted pend h ts s"
  using assms(3)
proof (induction rule: conn_run.induct)
  case run_start
  have "accounted pend [] [] (Impl host port q0)"
    using assms(2) by (simp add: accounted_def Impl_def conn_simps)
  then show ?case by blast
next
  case (run_io h s t)
  then obtain ts where ts: "accounted pend h ts s" by blast
  from run_io(1) have "chain_inv s" by (blast dest: run_inv)
  then obtain us where "delivers pend s us t"
    using io_step_delivers [OF assms(1) run_io(2)] by blast
  with ts show ?case by (blast intro: accounted_delivers)
next
  case (run_send h s thr Msg)
  then show ?case by (blast intro: accounted_send [OF assms(1)])
next
  case (run_flush h s thr p)
  then show ?case by (blast intro: accounted_flush [OF assms(1)])
qed

text \<open>Runs compose, and what happens on the way enters the stream behind what was there.\<close>

lemma conn_run_trans:
  "conn_run Q srt fifo s0 h s \<Longrightarrow> conn_run Q srt fifo s h' t \<Longrightarrow> conn_run Q srt fifo s0 (h @ h') t"
proof (rotate_tac 1, induction rule: conn_run.induct)
  case run_start
  then show ?case by simp
next
  case (run_io h' t u)
  then show ?case by (blast intro: conn_run.run_io)
next
  case (run_send h' t thr Msg)
  then show ?case using conn_run.run_send [of Q srt fifo s0 "h @ h'" t thr Msg] by simp
next
  case (run_flush h' t thr p)
  then show ?case using conn_run.run_flush [of Q srt fifo s0 "h @ h'" t thr p] by simp
qed

lemma run_stream:
  assumes "bounded_contract Q pend" and "conn_run Q srt True (Impl host port q0) h s"
    and "conn_run Q srt True s h' t"
  shows "\<exists>us. Sent t @ MessageBuffer t = Sent s @ MessageBuffer s @ frames us"
  using assms(3)
proof (induction rule: conn_run.induct)
  case run_start
  show ?case by (intro exI [of _ "[]"]) simp
next
  case (run_io h' t u)
  from run_inv [OF conn_run_trans [OF assms(2) run_io(1)]] have "chain_inv t" ..
  from io_step_delivers [OF assms(1) run_io(2) this] obtain vs where "delivers pend t vs u" by blast
  then have "Sent u @ MessageBuffer u = Sent t @ MessageBuffer t @ frames vs" by (simp add: delivers_def)
  moreover obtain us where "Sent t @ MessageBuffer t = Sent s @ MessageBuffer s @ frames us"
    using run_io.IH by blast
  ultimately have "Sent u @ MessageBuffer u = Sent s @ MessageBuffer s @ frames (us @ vs)"
    by (metis append.assoc frames_simps(3))
  then show ?case ..
next
  case (run_send h' t thr Msg)
  then show ?case by (simp add: sendMessage_def)
next
  case (run_flush h' t thr p)
  then show ?case by (auto simp: flush_start_def split: prod.split bool.split)
qed

section \<open>A queue for the witnesses\<close>

text \<open>An instance of the bounded queue: a list with a capacity that serves all threads in order.\<close>

definition bounded_list :: "nat \<Rightarrow> (nat \<times> queued) list bounded_queue_ops" where
  "bounded_list cap =
     \<lparr>b_try_enqueue = (\<lambda>p f q. if length q < cap then (True, q @ [(p, f)]) else (False, q)),
      b_wait_dequeue_timed = (\<lambda>q. case q of [] \<Rightarrow> (None, []) | t # ts \<Rightarrow> (Some (snd t), ts)),
      b_size_approx = length\<rparr>"

lemma bounded_list_contract: "bounded_contract (bounded_list cap) list_pend"
  by (auto simp: bounded_contract_def bounded_list_def list_pend_def fun_eq_iff
      split: list.splits if_splits)

lemma list_pend_empty: "list_pend [] = (\<lambda>_. [])"
  by (simp add: list_pend_def fun_eq_iff)

text \<open>
  An executable scheduler: it performs the given actions where they are possible, and so
  constructs runs.
\<close>

datatype action =
    Complete completion
  | Run_head nat
  | Client_send nat string
  | Client_flush nat nat

fun act ::
  "'q bounded_queue_ops \<Rightarrow> (endpoint list \<Rightarrow> endpoint list) \<Rightarrow> action
     \<Rightarrow> (nat \<times> queued) list \<times> 'q impl \<Rightarrow> (nat \<times> queued) list \<times> 'q impl" where
  "act Q srt (Complete c) (h, s) =
     (h, case Inflight s of [] \<Rightarrow> s
         | op # ops \<Rightarrow> if completes op c then s\<lparr>Inflight := ops, Ready := Ready s @ [c]\<rparr> else s)"
| "act Q srt (Run_head n) (h, s) =
     (h, case Ready s of [] \<Rightarrow> s
         | c # cs \<Rightarrow> if count_ok c n then run_handler Q srt c n (s\<lparr>Ready := cs\<rparr>) else s)"
| "act Q srt (Client_send thr m) (h, s) =
     (h @ enqueued Q thr (MsgFunc m) s, sendMessage Q thr m s)"
| "act Q srt (Client_flush thr p) (h, s) =
     (h @ enqueued Q thr (FlushFunc p) s, flush_start Q thr p s)"

definition drive ::
  "'q bounded_queue_ops \<Rightarrow> (endpoint list \<Rightarrow> endpoint list) \<Rightarrow> action list
     \<Rightarrow> 'q impl \<Rightarrow> (nat \<times> queued) list \<times> 'q impl" where
  "drive Q srt acts s = fold (act Q srt) acts ([], s)"

lemma act_run:
  assumes "conn_run Q srt True s0 (fst hs) (snd hs)"
  shows "conn_run Q srt True s0 (fst (act Q srt a hs)) (snd (act Q srt a hs))"
proof (cases hs)
  case (Pair h s)
  with assms have r: "conn_run Q srt True s0 h s" by simp
  show ?thesis
  proof (cases a)
    case (Complete c)
    with r Pair show ?thesis
      by (auto intro!: run_io [OF r] complete_op [where us = "[]", simplified] split: list.splits)
  next
    case (Run_head n)
    with r Pair show ?thesis
      by (auto intro!: run_io [OF r] run_ready [where us = "[]", simplified] split: list.splits)
  qed (use r Pair in \<open>auto intro: run_send run_flush\<close>)
qed

lemma drive_run:
  "conn_run Q srt True s0 (fst (drive Q srt acts s0)) (snd (drive Q srt acts s0))"
proof -
  have "conn_run Q srt True s0 (fst (fold (act Q srt) acts hs)) (snd (fold (act Q srt) acts hs))"
    if "conn_run Q srt True s0 (fst hs) (snd hs)" for hs
    using that
  proof (induction acts arbitrary: hs)
    case (Cons a acts)
    from Cons.IH [OF act_run [OF Cons.prems]] show ?case by simp
  qed simp
  from this [of "([], s0)"] show ?thesis by (simp add: drive_def run_start)
qed

text \<open>One message is sent while the host name is being resolved.\<close>

lemma example_run:
  "conn_run (bounded_list 5) srt fifo (Impl ''h'' 1 []) [(3, MsgFunc ''m'')]
     (sendMessage (bounded_list 5) 3 ''m'' (Impl ''h'' 1 []))"
proof -
  have "enqueued (bounded_list 5) 3 (MsgFunc ''m'') (Impl ''h'' 1 []) = [(3, MsgFunc ''m'')]"
    by (simp add: enqueued_def bounded_list_def Impl_def conn_simps)
  with run_send [OF run_start, of "bounded_list 5" srt fifo "Impl ''h'' 1 []" 3 "''m''"]
  show ?thesis by simp
qed

text \<open>
  A message and a flush of one thread go through an established connection, and the flush is
  taken after the write of the message.
\<close>

definition flush_actions :: "action list" where
  "flush_actions = [Client_send 3 ''m'', Client_flush 3 9,
     Complete (Resolved False [endpoint_default]), Run_head 0,
     Complete (Connected False \<lparr>EndpointList = [endpoint_default], NextEndpoint = 1\<rparr>), Run_head 0,
     Complete (Received False), Run_head 0, Complete (Written False [CHR ''m'', nul]), Run_head 2]"

lemma flush_actions_run:
  "fst (drive (bounded_list 5) id flush_actions (Impl ''h'' 1 [])) = [(3, MsgFunc ''m''), (3, FlushFunc 9)]"
  "Promises (snd (drive (bounded_list 5) id flush_actions (Impl ''h'' 1 []))) 9 = Satisfied"
  "Sent (snd (drive (bounded_list 5) id flush_actions (Impl ''h'' 1 []))) = [CHR ''m'', nul]"
  by code_simp+

section \<open>The message buffer\<close>

lemma frames_bound:
  assumes "length ts \<le> 1" and "\<And>thr m. (thr, MsgFunc m) \<in> set ts \<Longrightarrow> length m \<le> M"
  shows "length (frames ts) \<le> M + 1"
proof (cases ts)
  case Nil
  then show ?thesis by simp
next
  case (Cons t us)
  with assms(1) have "us = []" by simp
  with Cons assms(2) [of "fst t"] show ?thesis by (cases t; cases "snd t") auto
qed

lemma run_buffer_bound:
  assumes "bounded_contract Q pend" and "pend q0 = (\<lambda>_. [])"
    and "conn_run Q srt True (Impl host port q0) h s"
    and "\<And>thr m. (thr, MsgFunc m) \<in> set h \<Longrightarrow> length m \<le> M"
  shows "length (MessageBuffer s) \<le> MessageAdditionLimit + M + 1"
  using assms(3,4)
proof (induction rule: conn_run.induct)
  case run_start
  then show ?case by (simp add: Impl_def conn_simps)
next
  case (run_io h s t)
  obtain ts where ts: "accounted pend h ts s" using run_accounted [OF assms(1,2) run_io(1)] by blast
  obtain us where us: "delivers pend s us t" "length us \<le> 1"
    using io_step_delivers [OF assms(1) run_io(2)] run_inv [OF run_io(1)] by blast
  have "set us \<subseteq> set h" using taken_in_history [OF accounted_delivers [OF ts us(1)]] by simp
  with run_io.prems have "length (frames us) \<le> M + 1"
    by (intro frames_bound [OF us(2)]) blast
  moreover have "length (MessageBuffer t) \<le>
      max (length (MessageBuffer s)) (MessageAdditionLimit + length (frames us))"
    using us(1) by (simp add: delivers_def)
  moreover have "length (MessageBuffer s) \<le> MessageAdditionLimit + M + 1"
    using run_io.IH run_io.prems by blast
  ultimately show ?case by linarith
next
  case (run_send h s thr Msg)
  have "length (MessageBuffer s) \<le> MessageAdditionLimit + M + 1"
    by (rule run_send.IH) (auto intro: run_send.prems)
  then show ?case by (simp add: sendMessage_def)
next
  case (run_flush h s thr p)
  have "length (MessageBuffer s) \<le> MessageAdditionLimit + M + 1"
    by (rule run_flush.IH) (auto intro: run_flush.prems)
  then show ?case by (simp add: flush_start_def split: prod.splits bool.splits)
qed

section \<open>The send chain stays alive\<close>

text \<open>
  While the connection is up and its socket open, one send is outstanding; during an attempt
  to connect the socket is open.
\<close>

definition live_inv :: "'q impl \<Rightarrow> bool" where
  "live_inv s \<longleftrightarrow>
     (ConnectionState s = SEND_LOOP \<and> SocketOpen s \<longrightarrow> sends s = 1)
     \<and> (ConnectionState s = CONNECT \<longrightarrow> SocketOpen s)"

lemma socket_ops [conn_simps]:
  "SocketOpen (start_op op s) = SocketOpen s"
  "SocketOpen (post s) = SocketOpen s"
  "SocketOpen (async_write s) = SocketOpen s"
  "SocketOpen (setState st s) = SocketOpen s"
  "SocketOpen (close_socket s) = False"
  "SocketOpen (tryConnect r s) = True"
  by (simp_all add: start_op_def post_def async_write_def setState_def close_socket_def
      cancel_ops_def tryConnect_def async_connect_def split: prod.splits)

lemma trySendMessage_live:
  "SocketOpen (trySendMessage Q s) = SocketOpen s
    \<and> sends (trySendMessage Q s) = sends s + (if SocketOpen s then 1 else 0)"
proof -
  have "sends s' = sends s \<and> SocketOpen s' = SocketOpen s"
    if "call_queued f (s\<lparr>LogMessages := q\<rparr>) = (m, s')" for f q m s'
    using call_queued_frame [OF that] by (simp add: sends_def)
  then show ?thesis
    by (auto simp: trySendMessage_def async_write_def conn_simps split: prod.splits option.splits)
qed

lemma live_frame:
  "live_inv s \<Longrightarrow> ConnectionState t = ConnectionState s \<Longrightarrow> SocketOpen t = SocketOpen s
    \<Longrightarrow> sends t = sends s \<Longrightarrow> live_inv t"
  by (simp add: live_inv_def)

lemma state_tryConnect [conn_simps]:
  "ConnectionState (setState st s) = st" by (simp add: setState_def)

lemma run_head_live:
  assumes inv: "live_inv s" "chain_inv s" "control_inv s" and r: "Ready s = c # vs"
  shows "live_inv (run_handler Q srt c n (s\<lparr>Ready := vs\<rparr>))"
proof -
  let ?s = "s\<lparr>Ready := vs\<rparr>"
  have ctl: "mset (done_ctl c) + control ?s = {#ConnectionState s#}"
    using inv(3) control_pop [OF r] by (simp add: control_inv_def)
  have le: "sends s \<le> 1" using inv(2) by (simp add: chain_inv_def)
  have pop: "sends s = (if is_send c then 1 else 0) + sends ?s" by (rule sends_pop [OF r])
  have nsend: "sends ?s = 0" if "ConnectionState s = CONNECT"
    using inv(2) that pop le by (auto simp: chain_inv_def split: if_splits)
  have nc: "ConnectionState s \<noteq> CONNECT" if "is_send c"
    using inv(2) that pop le by (auto simp: chain_inv_def)
  have sent: "live_inv (sentMessageHandler Q Err n t)" if "sends t = 0" "ConnectionState t \<noteq> CONNECT"
    for Err t using that
    by (auto simp: sentMessageHandler_def Let_def live_inv_def conn_simps trySendMessage_live)
  show ?thesis
  proof (cases c)
    case (Resolved Err eps)
    then show ?thesis
      by (simp add: resolverHandler_def live_inv_def conn_simps)
  next
    case (Connected Err rs)
    with ctl have "ConnectionState s = CONNECT" by simp
    with Connected nsend show ?thesis
      by (simp add: connectHandler_def Let_def live_inv_def conn_simps trySendMessage_live)
  next
    case Waited
    then show ?thesis by (simp add: live_inv_def conn_simps)
  next
    case (Received Err)
    with inv(1) pop show ?thesis
      by (cases Err) (auto simp: receiveHandler_def live_inv_def conn_simps)
  next
    case (Written Err data)
    with pop le nc show ?thesis
      by (auto intro!: sent simp: conn_simps)
  next
    case Posted
    with pop le nc show ?thesis
      by (auto simp: live_inv_def conn_simps trySendMessage_live)
  qed
qed

lemma conn_step_live:
  assumes "conn_step Q srt True s t" and "live_inv s" and "chain_inv s" and "control_inv s"
  shows "live_inv t"
  using assms(1)
proof (cases rule: conn_step.cases)
  case by_io
  then show ?thesis
  proof (cases rule: io_step.cases)
    case (complete_op us op vs c)
    then have "sends t = sends s"
      using is_send_completes [of op c] by (simp add: sends_def)
    with complete_op assms(2) show ?thesis by (auto intro: live_frame)
  next
    case (run_ready us c vs n)
    with run_head_live [OF assms(2-4), of c vs Q srt n] show ?thesis by simp
  qed
next
  case (client_send thr Msg)
  with assms(2) show ?thesis by (auto intro!: live_frame [OF assms(2)] simp: sendMessage_def sends_def)
next
  case (client_flush thr p)
  with assms(2) show ?thesis by (auto intro!: live_frame [OF assms(2)]
        simp: flush_start_def sends_def split: prod.splits bool.splits)
qed

lemma reach_live: "conn.reach Q srt True s \<Longrightarrow> control_inv s \<and> chain_inv s \<and> live_inv s"
proof (rule conn.invariant)
  fix s :: "'a impl" assume "constructed s"
  moreover from this have "live_inv s" by (auto simp: constructed_def Impl_def live_inv_def conn_simps)
  ultimately show "control_inv s \<and> chain_inv s \<and> live_inv s"
    by (blast intro: constructed_control constructed_chain)
next
  fix s t :: "'a impl"
  assume inv: "control_inv s \<and> chain_inv s \<and> live_inv s" and step: "conn_step Q srt True s t"
  from step have "live_inv t" using inv by (blast intro: conn_step_live)
  moreover from step have "control_inv t" using inv by (blast intro: conn_step_control)
  moreover have "chain_inv t"
    using step inv by (cases rule: conn_step.cases) (auto intro: io_step_chain client_chain)
  ultimately show "control_inv t \<and> chain_inv t \<and> live_inv t" by blast
qed

section \<open>The handler contract\<close>

text \<open>
  \<open>GraylogInterface\<close> satisfies the weak contract: a full queue drops the message, and
  serialisation may throw.
\<close>

fun message_of :: "queued \<Rightarrow> string list" where
  "message_of (MsgFunc Msg) = [Msg]"
| "message_of (FlushFunc p) = []"

definition graylog_accepted ::
  "('q \<Rightarrow> nat \<Rightarrow> queued list) \<Rightarrow> nat \<Rightarrow> 'q impl \<Rightarrow> string list" where
  "graylog_accepted pend thr s = concat (map message_of (pend (LogMessages s) thr))"

definition json_text ::
  "(json \<Rightarrow> exn + string) \<Rightarrow> (int \<Rightarrow> double) \<Rightarrow> LogMessage \<Rightarrow> string" where
  "json_text dump to_seconds m = (case logMsgToJSON dump to_seconds m of Inl _ \<Rightarrow> [] | Inr t \<Rightarrow> t)"

lemma send_pend:
  "bounded_contract Q pend \<Longrightarrow>
     pend (LogMessages (sendMessage Q thr m s)) = (pend (LogMessages s))
       (thr := pend (LogMessages s) thr @ map snd (enqueued Q thr (MsgFunc m) s))"
  using bounded_enqueue [of Q pend thr "MsgFunc m" "LogMessages s"]
  by (cases "b_try_enqueue Q thr (MsgFunc m) (LogMessages s)") (simp add: sendMessage_def enqueued_def)

interpretation graylog_sink: log_handler "graylog_addMessage dump to_seconds Q" "graylog_accepted pend"
  "json_text dump to_seconds" "\<lambda>_. bounded_contract Q pend"
  for dump to_seconds and Q :: "'q bounded_queue_ops" and pend
  by unfold_locales
    (auto simp: graylog_addMessage_def graylog_accepted_def json_text_def send_pend enqueued_def
      split: sum.splits)

section \<open>Properties\<close>

text \<open>
  C4: the bytes written to the connections so far, followed by the message buffer, are exactly
  the frames (message and a zero byte) of the messages that the I/O thread has taken from the
  queue, and these are, for each client thread, the first ones it enqueued, in its order. So no
  accepted message is lost, duplicated, reordered within its thread or torn apart, through
  failed writes, partial writes, lost connections and reconnections.
\<close>

theorem stream_is_framed_messages:
  assumes "bounded_contract Q pend" and "pend q0 = (\<lambda>_. [])"
    and "conn_run Q srt True (Impl host port q0) h s"
  shows "\<exists>ts. Sent s @ MessageBuffer s = concat (map (frame \<circ> snd) ts)
    \<and> (\<forall>thr. of_producer thr h = of_producer thr ts @ pend (LogMessages s) thr)"
  using run_accounted [OF assms] by (auto simp: accounted_def frames_def)

theorem stream_is_framed_messages_witness:
  "\<exists>ts. Sent (sendMessage (bounded_list 5) 3 ''m'' (Impl ''h'' 1 [])) @
      MessageBuffer (sendMessage (bounded_list 5) 3 ''m'' (Impl ''h'' 1 [])) = concat (map (frame \<circ> snd) ts)
    \<and> [MsgFunc ''m''] = of_producer 3 ts @
        list_pend (LogMessages (sendMessage (bounded_list 5) 3 ''m'' (Impl ''h'' 1 []))) 3"
  using stream_is_framed_messages [OF bounded_list_contract list_pend_empty example_run [of id True]]
  by (metis of_producer_simps(1,2))

text \<open>
  C27: the message buffer never holds more than the addition limit of 3000 bytes plus one
  frame, however slow the connection is: with messages of at most \<open>M\<close> bytes, at most
  \<open>3000 + M + 1\<close> bytes.
\<close>

theorem message_buffer_bounded:
  assumes "bounded_contract Q pend" and "pend q0 = (\<lambda>_. [])"
    and "conn_run Q srt True (Impl host port q0) h s"
    and "\<And>thr m. (thr, MsgFunc m) \<in> set h \<Longrightarrow> length m \<le> M"
  shows "length (MessageBuffer s) \<le> 3000 + M + 1"
  using run_buffer_bound [OF assms] by (simp add: MessageAdditionLimit_def)

theorem message_buffer_bounded_witness:
  "length (MessageBuffer (sendMessage (bounded_list 5) 3 ''m'' (Impl ''h'' 1 []))) \<le> 3002"
  using message_buffer_bounded [OF bounded_list_contract list_pend_empty example_run [of id True], of 1]
  by simp

text \<open>
  C25: what a successful \<open>flush\<close> means. The flush of thread \<open>thr\<close> was accepted by the queue
  (under a promise of its own) and its promise is set. Then every message that this thread had
  sent before has left the queue, and its frame is in the stream: sent, or in the buffer of
  what is being sent.
\<close>

theorem flush_follows_own_messages:
  assumes "bounded_contract Q pend" and "pend q0 = (\<lambda>_. [])"
    and "conn_run Q srt True (Impl host port q0) (h1 @ (thr, FlushFunc p) # h2) s"
    and "\<And>t. (t, FlushFunc p) \<notin> set (h1 @ h2)"
    and "Promises s p = Satisfied"
  shows "\<exists>ts rest. Sent s @ MessageBuffer s = concat (map (frame \<circ> snd) ts)
    \<and> of_producer thr ts = of_producer thr h1 @ FlushFunc p # rest"
proof -
  let ?h = "h1 @ (thr, FlushFunc p) # h2"
  obtain ts where ts: "accounted pend ?h ts s" using run_accounted [OF assms(1-3)] by blast
  then obtain t where t: "(t, FlushFunc p) \<in> set ts" using assms(5) by (auto simp: accounted_def)
  then have "(t, FlushFunc p) \<in> set ?h" using taken_in_history [OF ts] by blast
  with assms(4) [of t] have "t = thr" by auto
  with t have m: "FlushFunc p \<in> set (of_producer thr ts)" by (simp add: of_producer_set)
  have eq: "of_producer thr h1 @ FlushFunc p # of_producer thr h2 =
      of_producer thr ts @ pend (LogMessages s) thr"
    using accountedD [OF ts, of thr] by simp
  have no: "FlushFunc p \<notin> set (of_producer thr h1)" using assms(4) [of thr] by (simp add: of_producer_set)
  obtain us where us: "of_producer thr ts = us @ FlushFunc p # drop (Suc (length us)) (of_producer thr ts)"
    "FlushFunc p \<notin> set us"
  proof -
    from split_list_first [OF m] obtain us vs where
      "of_producer thr ts = us @ FlushFunc p # vs" "FlushFunc p \<notin> set us" by blast
    then show ?thesis by (intro that [of us]) simp_all
  qed
  have "FlushFunc p \<notin> set (of_producer thr h2)" using assms(4) [of thr] by (simp add: of_producer_set)
  with eq us no have "us = of_producer thr h1"
    by (metis append.assoc append_Cons append_Cons_eq_iff)
  with us ts show ?thesis unfolding accounted_def frames_def by metis
qed

theorem flush_follows_own_messages_witness:
  "\<exists>ts rest. [CHR ''m'', nul] @ MessageBuffer (snd (drive (bounded_list 5) id flush_actions (Impl ''h'' 1 [])))
      = concat (map (frame \<circ> snd) ts)
    \<and> of_producer 3 ts = MsgFunc ''m'' # FlushFunc 9 # rest"
proof -
  let ?s = "snd (drive (bounded_list 5) id flush_actions (Impl ''h'' 1 []))"
  have "conn_run (bounded_list 5) id True (Impl ''h'' 1 []) ([(3, MsgFunc ''m'')] @ (3, FlushFunc 9) # []) ?s"
    using drive_run [of "bounded_list 5" id "Impl ''h'' 1 []" flush_actions] flush_actions_run(1) by simp
  from flush_follows_own_messages [OF bounded_list_contract list_pend_empty this _ flush_actions_run(2)]
  show ?thesis by (simp add: flush_actions_run(3))
qed

text \<open>
  C26: \<open>flush\<close> on a full queue reports success at once. When the queue refuses the closure of
  the flush, the promise is destroyed and the future becomes ready, so the call returns
  \<open>true\<close> without waiting, with nothing written and every queued message still queued.
\<close>

theorem flush_on_full_queue_succeeds:
  assumes "bounded_contract Q pend"
    and "fst (b_try_enqueue Q thr (FlushFunc p) (LogMessages s)) = False"
  shows "flush_result p (flush_start Q thr p s)
    \<and> pend (LogMessages (flush_start Q thr p s)) = pend (LogMessages s)
    \<and> Sent (flush_start Q thr p s) = Sent s"
proof -
  obtain q where q: "b_try_enqueue Q thr (FlushFunc p) (LogMessages s) = (False, q)"
    using assms(2) by (metis prod.collapse)
  with bounded_enqueue [OF assms(1) q] show ?thesis
    by (simp add: flush_start_def flush_result_def)
qed

theorem flush_on_full_queue_succeeds_witness:
  "flush_result 9 (flush_start (bounded_list 1) 3 9 (sendMessage (bounded_list 1) 3 ''m'' (Impl ''h'' 1 [])))"
proof -
  let ?s = "sendMessage (bounded_list 1) 3 ''m'' (Impl ''h'' 1 [])"
  have "fst (b_try_enqueue (bounded_list 1) 3 (FlushFunc 9) (LogMessages ?s)) = False" by code_simp
  from flush_on_full_queue_succeeds [OF bounded_list_contract this] show ?thesis by blast
qed

end
