(* ===== verification/Graylog_Progress.thy ===== *)
theory Graylog_Progress
  imports Graylog_Delivery
begin

text \<open>
  Progress of the connection: whatever happened so far, some outcome of the outstanding
  operations leads to an established connection; and the endpoints of a query are tried one
  after the other. The scheduler is the FIFO one of a service run by a single thread.
\<close>

section \<open>Cooperative runs\<close>

definition good :: "'q impl \<Rightarrow> bool" where
  "good s \<longleftrightarrow> control_inv s \<and> chain_inv s \<and> live_inv s"

definition can_reach ::
  "'q bounded_queue_ops \<Rightarrow> (endpoint list \<Rightarrow> endpoint list) \<Rightarrow> 'q impl \<Rightarrow> ('q impl \<Rightarrow> bool) \<Rightarrow> bool" where
  "can_reach Q srt s P \<longleftrightarrow> (\<exists>t. (io_step Q srt True)\<^sup>*\<^sup>* s t \<and> good t \<and> P t)"

lemma good_step: "io_step Q srt True s t \<Longrightarrow> good s \<Longrightarrow> good t"
  unfolding good_def by (meson by_io conn_step_live io_step_chain io_step_control)

lemma good_steps: "(io_step Q srt True)\<^sup>*\<^sup>* s t \<Longrightarrow> good s \<Longrightarrow> good t"
  by (induction rule: rtranclp_induct) (auto intro: good_step)

lemma can_reach_here: "good s \<Longrightarrow> P s \<Longrightarrow> can_reach Q srt s P"
  unfolding can_reach_def by blast

lemma can_reach_bind:
  "can_reach Q srt s P \<Longrightarrow> (\<And>t. good t \<Longrightarrow> P t \<Longrightarrow> can_reach Q srt t R) \<Longrightarrow> can_reach Q srt s R"
  unfolding can_reach_def by (meson rtranclp_trans)

lemma can_reach_mono: "can_reach Q srt s P \<Longrightarrow> (\<And>t. P t \<Longrightarrow> R t) \<Longrightarrow> can_reach Q srt s R"
  unfolding can_reach_def by blast

lemma step_head:
  "Ready t = c # vs \<Longrightarrow> count_ok c n \<Longrightarrow> io_step Q srt True t (run_handler Q srt c n (t\<lparr>Ready := vs\<rparr>))"
  using run_ready [of t "[]" c vs True n] by simp

lemma can_reach_head:
  assumes "good t" and "Ready t = c # vs" and "count_ok c n"
    and "P (run_handler Q srt c n (t\<lparr>Ready := vs\<rparr>))"
  shows "can_reach Q srt t P"
  using step_head [OF assms(2,3), of Q srt] good_step [OF _ assms(1)] assms(4)
  unfolding can_reach_def by blast

lemma run_send_ready:
  assumes "is_send c"
  shows "\<exists>new. Ready (run_handler Q srt c n s) = Ready s @ new"
    and "ConnectionState (run_handler Q srt c n s) = ConnectionState s"
proof -
  have try_: "\<exists>new. Ready (trySendMessage Q s) = Ready s @ new" for s
  proof -
    have "Ready (async_write s) = Ready s" "Ready (post s) = Ready s @ [Posted]" for s :: "'a impl"
      by (simp_all add: async_write_def start_op_def post_def)
    then show ?thesis
      by (auto simp: trySendMessage_def split: prod.splits option.splits dest!: call_queued_frame)
  qed
  have sent: "\<exists>new. Ready (sentMessageHandler Q Err n s) = Ready s @ new" for Err n s
    using try_ [of "s\<lparr>MessageBuffer := _\<rparr>"] try_ [of s]
    by (auto simp: sentMessageHandler_def Let_def ready_close)
  show "\<exists>new. Ready (run_handler Q srt c n s) = Ready s @ new"
    using assms try_ sent [of _ n "s\<lparr>Sent := Sent s @ take n _\<rparr>"] by (cases c) auto
  show "ConnectionState (run_handler Q srt c n s) = ConnectionState s"
    using assms by (cases c) (auto simp: conn_simps)
qed

text \<open>Sends that are ready before \<open>c\<close> run, and \<open>c\<close> comes to the head of the queue.\<close>

definition head_is :: "completion \<Rightarrow> Status \<Rightarrow> 'q impl \<Rightarrow> bool" where
  "head_is c st s \<longleftrightarrow> (\<exists>vs. Ready s = c # vs) \<and> ConnectionState s = st"

lemma drain:
  assumes "good s" and "Ready s = us @ c # vs" and "list_all is_send us"
  shows "can_reach Q srt s (head_is c (ConnectionState s))"
  using assms
proof (induction us arbitrary: s vs)
  case Nil
  then show ?case by (intro can_reach_here) (auto simp: head_is_def)
next
  case (Cons u us)
  obtain n where n: "count_ok u n"
    by (cases u) (auto intro: that [of "length _"])
  let ?t = "run_handler Q srt u n (s\<lparr>Ready := us @ c # vs\<rparr>)"
  have step: "io_step Q srt True s ?t" using Cons.prems(2) n by (simp add: step_head)
  have "is_send u" using Cons.prems(3) by simp
  from run_send_ready [OF this, of Q srt n "s\<lparr>Ready := us @ c # vs\<rparr>"]
  obtain new where t: "Ready ?t = us @ c # vs @ new" "ConnectionState ?t = ConnectionState s" by auto
  from Cons.IH [OF good_step [OF step Cons.prems(1)] t(1)] Cons.prems(3) t(2)
  have "can_reach Q srt ?t (head_is c (ConnectionState s))" by simp
  with step show ?case unfolding can_reach_def by (meson converse_rtranclp_into_rtranclp)
qed

lemma is_send_ctl: "done_ctl c = [] \<longleftrightarrow> is_send c"
  by (cases c) auto

lemma op_ready:
  assumes "good s" and "op \<in> set (Inflight s)" and "op_ctl op = [st]" and "completes op c"
  shows "can_reach Q srt s (head_is c st)"
proof -
  obtain us vs where i: "Inflight s = us @ op # vs" using assms(2) by (meson split_list)
  have st: "control s = {#ConnectionState s#}" using assms(1) by (simp add: good_def control_inv_def)
  have "concat (map done_ctl (Ready s)) = []" "st = ConnectionState s"
    using st i assms(3) by (auto simp: control_def add_eq_conv_ex)
  then have sends: "list_all is_send (Ready s)" by (auto simp: list_all_iff is_send_ctl)
  let ?t = "s\<lparr>Inflight := us @ vs, Ready := Ready s @ [c]\<rparr>"
  have step: "io_step Q srt True s ?t" using i assms(4) by (rule complete_op)
  from drain [OF good_step [OF step assms(1)], of "Ready s" c "[]"] sends \<open>st = ConnectionState s\<close>
  have "can_reach Q srt ?t (head_is c st)" by simp
  with step show ?thesis unfolding can_reach_def by (meson converse_rtranclp_into_rtranclp)
qed

text \<open>The outstanding control operation is in flight, or its completion can come to the head.\<close>

lemma control_cases:
  assumes "good s"
  shows "(\<exists>op \<in> set (Inflight s). op_ctl op = [ConnectionState s]) \<or>
    (\<exists>c. done_ctl c = [ConnectionState s] \<and> can_reach Q srt s (head_is c (ConnectionState s)))"
proof -
  have st: "control s = {#ConnectionState s#}" using assms by (simp add: good_def control_inv_def)
  have one: "op_ctl op = [] \<or> (\<exists>st. op_ctl op = [st])" for op by (cases op) auto
  have one': "done_ctl c = [] \<or> (\<exists>st. done_ctl c = [st])" for c by (cases c) auto
  show ?thesis
  proof (cases "list_all is_send (Ready s)")
    case True
    then have "concat (map done_ctl (Ready s)) = []" by (auto simp: list_all_iff is_send_ctl)
    with st have "ConnectionState s \<in> set (concat (map op_ctl (Inflight s)))"
      by (simp add: control_def flip: set_mset_mset)
    then obtain op where "op \<in> set (Inflight s)" "ConnectionState s \<in> set (op_ctl op)" by auto
    with one [of op] show ?thesis by auto
  next
    case False
    let ?us = "takeWhile is_send (Ready s)"
    from False obtain c vs where r: "Ready s = ?us @ c # vs" "\<not> is_send c"
      by (metis (no_types, lifting) dropWhile_eq_Cons_conv list.exhaust list_all_iff
          takeWhile_dropWhile_id takeWhile_eq_all_conv dropWhile_eq_Nil_conv)
    have "c \<in> set (Ready s)" by (subst r(1)) simp
    then have "set (done_ctl c) \<subseteq> set_mset (control s)" by (auto simp: control_def)
    with st one' [of c] r(2) have "done_ctl c = [ConnectionState s]" by (auto simp: is_send_ctl)
    moreover have "list_all is_send ?us" by (auto simp: list_all_iff dest: set_takeWhileD)
    ultimately show ?thesis using drain [OF assms r(1)] by blast
  qed
qed

section \<open>The way to an established connection\<close>

text \<open>\<open>up\<close>: the handshake succeeded, the socket is open, and reads and sends are under way.\<close>

definition up :: "'q impl \<Rightarrow> bool" where
  "up s \<longleftrightarrow> ConnectionState s = SEND_LOOP \<and> SocketOpen s \<and> Async_receive \<in> set (Inflight s)
     \<and> sends s = 1"

definition waiting_for :: "async_op \<Rightarrow> 'q impl \<Rightarrow> bool" where
  "waiting_for op s \<longleftrightarrow> op \<in> set (Inflight s)"

lemma inflight_start: "waiting_for op (start_op op s)"
  by (simp add: waiting_for_def start_op_def)

lemma waiting_setState [simp]: "waiting_for op (setState st s) = waiting_for op s"
  by (simp add: waiting_for_def setState_def)

definition connecting :: "'q impl \<Rightarrow> bool" where
  "connecting s \<longleftrightarrow> (\<exists>ep r. waiting_for (Async_connect ep r) s)"

lemma tryConnect_waits: "connecting (tryConnect r s)"
  unfolding connecting_def
  by (auto simp: tryConnect_def async_connect_def split: prod.splits intro!: exI inflight_start)

lemma reConnect_waits: "waiting_for Async_wait (reConnect d s)"
  by (simp add: reConnect_def inflight_start)

lemma doAddressQuery_waits: "waiting_for Async_resolve (doAddressQuery s)"
  by (simp add: doAddressQuery_def inflight_start)

lemma inflight_try: "set (Inflight s) \<subseteq> set (Inflight (trySendMessage Q s))"
  by (auto simp: trySendMessage_def async_write_def start_op_def post_def
      split: prod.splits option.splits dest!: call_queued_frame)

lemma head_up:
  assumes "good s" and "head_is (Connected False r) CONNECT s"
  shows "can_reach Q srt s up"
proof -
  from assms(2) obtain vs where r: "Ready s = Connected False r # vs" "ConnectionState s = CONNECT"
    by (auto simp: head_is_def)
  let ?t = "run_handler Q srt (Connected False r) 0 (s\<lparr>Ready := vs\<rparr>)"
  let ?s = "start_op Async_receive (setState SEND_LOOP (s\<lparr>Ready := vs\<rparr>))"
  have t: "?t = trySendMessage Q ?s" by (simp add: connectHandler_def)
  have good: "good ?t" using good_step [OF step_head [OF r(1)] assms(1)] by simp
  have "SocketOpen s" using assms(1) r(2) by (simp add: good_def live_inv_def)
  then have "SocketOpen ?t" "ConnectionState ?t = SEND_LOOP"
    unfolding t by (simp_all add: trySendMessage_live trySendMessage_control conn_simps)
  moreover have "Async_receive \<in> set (Inflight ?t)"
    unfolding t using inflight_try inflight_start by (fastforce simp: waiting_for_def)
  ultimately have "up ?t" using good by (simp add: up_def good_def live_inv_def)
  with assms(1) r(1) show ?thesis by (intro can_reach_head) auto
qed

lemma connecting_up:
  assumes "good s" and "connecting s"
  shows "can_reach Q srt s up"
proof -
  obtain ep r where "Async_connect ep r \<in> set (Inflight s)" using assms(2)
    by (auto simp: waiting_for_def connecting_def)
  from op_ready [OF assms(1) this, where st = CONNECT and c = "Connected False r"]
  have "can_reach Q srt s (head_is (Connected False r) CONNECT)" by simp
  then show ?thesis by (rule can_reach_bind) (rule head_up)
qed

lemma resolving_up:
  assumes "good s" and "waiting_for Async_resolve s"
  shows "can_reach Q srt s up"
proof -
  let ?c = "Resolved False [endpoint_default]"
  have "Async_resolve \<in> set (Inflight s)" using assms(2) by (simp add: waiting_for_def)
  from op_ready [OF assms(1) this, where st = ADDR_LOOKUP and c = ?c]
  have "can_reach Q srt s (head_is ?c ADDR_LOOKUP)" by simp
  then show ?thesis
  proof (rule can_reach_bind)
    fix t :: "'a impl" assume t: "good t" "head_is ?c ADDR_LOOKUP t"
    then obtain vs where r: "Ready t = ?c # vs" by (auto simp: head_is_def)
    have "connecting (run_handler Q srt ?c 0 (t\<lparr>Ready := vs\<rparr>))"
      by (simp add: resolverHandler_def tryConnect_waits)
    then have "can_reach Q srt t connecting"
      using t(1) r by (intro can_reach_head) auto
    then show "can_reach Q srt t up" by (rule can_reach_bind) (rule connecting_up)
  qed
qed

lemma head_waited_up:
  assumes "good s" and "head_is Waited st s"
  shows "can_reach Q srt s up"
proof -
  from assms(2) obtain vs where r: "Ready s = Waited # vs" by (auto simp: head_is_def)
  have "can_reach Q srt s (waiting_for Async_resolve)"
    using assms(1) r by (intro can_reach_head) (auto simp: doAddressQuery_waits)
  then show ?thesis by (rule can_reach_bind) (rule resolving_up)
qed

lemma waiting_up:
  assumes "good s" and "waiting_for Async_wait s"
  shows "can_reach Q srt s up"
proof -
  have "Async_wait \<in> set (Inflight s)" using assms(2) by (simp add: waiting_for_def)
  from op_ready [OF assms(1) this, where st = ADDR_RETRY_WAIT and c = Waited]
  have "can_reach Q srt s (head_is Waited ADDR_RETRY_WAIT)" by simp
  then show ?thesis by (rule can_reach_bind) (rule head_waited_up)
qed

text \<open>Whatever control completion is at the head of the queue, running it leads on.\<close>

lemma head_lost_up:
  assumes "good s" and "head_is (Received True) st s"
  shows "can_reach Q srt s up"
proof -
  from assms(2) obtain vs where r: "Ready s = Received True # vs" by (auto simp: head_is_def)
  have "can_reach Q srt s (waiting_for Async_wait)"
    using assms(1) r by (intro can_reach_head) (auto simp: receiveHandler_def reConnect_waits)
  then show ?thesis by (rule can_reach_bind) (rule waiting_up)
qed

lemma receiving_up:
  assumes "good s" and "waiting_for Async_receive s"
  shows "can_reach Q srt s up"
proof -
  have "Async_receive \<in> set (Inflight s)" using assms(2) by (simp add: waiting_for_def)
  from op_ready [OF assms(1) this, where st = SEND_LOOP and c = "Received True"]
  have "can_reach Q srt s (head_is (Received True) SEND_LOOP)" by simp
  then show ?thesis by (rule can_reach_bind) (rule head_lost_up)
qed

lemma head_control_up:
  assumes "good s" and "head_is c (ConnectionState s) s" and "done_ctl c = [ConnectionState s]"
  shows "can_reach Q srt s up"
proof -
  from assms(2) obtain vs where r: "Ready s = c # vs" by (auto simp: head_is_def)
  let ?t = "run_handler Q srt c 0 (s\<lparr>Ready := vs\<rparr>)"
  have by_head: "can_reach Q srt s up" if "count_ok c 0" "\<And>t. t = ?t \<Longrightarrow> good t \<Longrightarrow> can_reach Q srt t up"
    using can_reach_bind [OF can_reach_head [OF assms(1) r that(1), where P = "\<lambda>t. t = ?t"]] that(2)
    by blast
  show ?thesis
  proof (cases c)
    case (Resolved Err eps)
    then show ?thesis
      by (intro by_head) (auto simp: resolverHandler_def
          intro: connecting_up waiting_up tryConnect_waits reConnect_waits)
  next
    case (Connected Err rs)
    show ?thesis
    proof (cases Err)
      case True
      with Connected show ?thesis
        by (intro by_head) (auto simp: connectHandler_def Let_def
            intro: connecting_up waiting_up tryConnect_waits reConnect_waits)
    next
      case False
      with assms(1,2,3) Connected show ?thesis by (auto intro: head_up)
    qed
  next
    case Waited
    with assms(1,2) show ?thesis by (auto intro: head_waited_up)
  next
    case (Received Err)
    then show ?thesis
      by (intro by_head) (auto simp: receiveHandler_def
          intro: receiving_up waiting_up inflight_start reConnect_waits)
  qed (use assms(3) in auto)
qed

lemma good_up:
  assumes "good s"
  shows "can_reach Q srt s up"
  using control_cases [OF assms, of Q srt]
proof
  assume "\<exists>op \<in> set (Inflight s). op_ctl op = [ConnectionState s]"
  then obtain op where op: "waiting_for op s" "op_ctl op \<noteq> []" by (auto simp: waiting_for_def)
  with assms show ?thesis
    by (cases op) (auto intro: resolving_up connecting_up [unfolded connecting_def] waiting_up receiving_up)
next
  assume "\<exists>c. done_ctl c = [ConnectionState s] \<and> can_reach Q srt s (head_is c (ConnectionState s))"
  then obtain c where c: "done_ctl c = [ConnectionState s]"
    "can_reach Q srt s (head_is c (ConnectionState s))" by blast
  show ?thesis
  proof (rule can_reach_bind [OF c(2)])
    fix t :: "'a impl" assume t: "good t" "head_is c (ConnectionState s) t"
    then have "ConnectionState t = ConnectionState s" by (simp add: head_is_def)
    with t c(1) show "can_reach Q srt t up" by (intro head_control_up) auto
  qed
qed

section \<open>Trying the endpoints\<close>

text \<open>
  The outstanding attempt to connect (the last operation in flight) fails and its handler
  runs, up to \<open>n\<close> times; the result lists the endpoints of the failed attempts.
\<close>

fun fail_connects :: "'q bounded_queue_ops \<Rightarrow> nat \<Rightarrow> 'q impl \<Rightarrow> endpoint list \<times> 'q impl" where
  "fail_connects Q 0 s = ([], s)"
| "fail_connects Q (Suc n) s =
     (if Inflight s = [] then ([], s)
      else case last (Inflight s) of
        Async_connect ep r \<Rightarrow>
          (let (eps, t) = fail_connects Q n (connectHandler Q True r (s\<lparr>Inflight := butlast (Inflight s)\<rparr>))
           in (ep # eps, t))
      | _ \<Rightarrow> ([], s))"

lemma fail_connects_start:
  "fail_connects Q (Suc n) (setState CONNECT (async_connect ep r s)) =
     (let (eps, t) = fail_connects Q n (connectHandler Q True r
        (setState CONNECT (s\<lparr>SocketOpen := True\<rparr>)))
      in (ep # eps, t))"
  by (simp add: setState_def async_connect_def start_op_def)

lemma close_idle:
  "Inflight s = [] \<Longrightarrow> close_socket s = s\<lparr>SocketOpen := False\<rparr>"
  by (simp add: close_socket_def cancel_ops_def)

lemma update_swap:
  "s\<lparr>ConnectionState := st, SocketOpen := b\<rparr> = s\<lparr>SocketOpen := b, ConnectionState := st\<rparr>"
  by simp

lemma fail_all:
  assumes "Inflight s = []" and "NextEndpoint r < length (EndpointList r)"
    and "k = length (EndpointList r) - NextEndpoint r"
  shows "fail_connects Q k (tryConnect r s) =
    (drop (NextEndpoint r) (EndpointList r),
     reConnect LONG (setState CONNECT (s\<lparr>SocketOpen := False\<rparr>)))"
  using assms
proof (induction k arbitrary: r s)
  case 0
  then show ?case by simp
next
  case (Suc k)
  let ?n = "NextEndpoint r" and ?es = "EndpointList r"
  let ?r = "r\<lparr>NextEndpoint := Suc ?n\<rparr>"
  have e: "drop ?n ?es = ?es ! ?n # drop (Suc ?n) ?es" using Suc.prems(2) by (rule Cons_nth_drop_Suc [symmetric])
  have t: "tryConnect r s = setState CONNECT (async_connect (?es ! ?n) ?r s)"
    using Suc.prems(2) by (simp add: tryConnect_def getNextEndpoint_def)
  show ?case
  proof (cases "k = 0")
    case True
    with Suc.prems have "length ?es = Suc ?n" by simp
    with True Suc.prems(1) show ?thesis
      unfolding t fail_connects_start
      by (simp add: connectHandler_def isDone_def Let_def close_idle setState_def e update_swap)
  next
    case False
    then have more: "Suc ?n < length ?es" "k = length ?es - Suc ?n" using Suc.prems(3) by auto
    have "fail_connects Q k (tryConnect ?r (setState CONNECT (s\<lparr>SocketOpen := False\<rparr>))) =
        (drop (Suc ?n) ?es, reConnect LONG (setState CONNECT (setState CONNECT (s\<lparr>SocketOpen := False\<rparr>)
           \<lparr>SocketOpen := False\<rparr>)))"
      using Suc.IH [of "setState CONNECT (s\<lparr>SocketOpen := False\<rparr>)" ?r] more Suc.prems(1)
      by (simp add: setState_def)
    with more Suc.prems(1) show ?thesis
      unfolding t fail_connects_start
      by (simp add: connectHandler_def isDone_def Let_def close_idle setState_def e update_swap)
  qed
qed

lemma copy_endpoints_append: "copy_endpoints it eps = eps @ it"
  by (induction it arbitrary: eps) auto

text \<open>An instance of \<open>std::sort\<close> for the witnesses.\<close>

definition v4_v6_sort :: "endpoint list \<Rightarrow> endpoint list" where
  "v4_v6_sort es = filter (\<lambda>e. \<not> is_v6 e) es @ filter is_v6 es"

lemma v4_v6_is_sort: "is_std_sort v4_v6_sort"
proof -
  have "mset (v4_v6_sort es) = mset es" for es
    by (induction es) (auto simp: v4_v6_sort_def)
  moreover have "sorted_wrt (\<lambda>a b. \<not> v4_first b a) (filter is_v6 es)" for es
    by (induction es) (auto simp: v4_first_def)
  moreover have "sorted_wrt (\<lambda>a b. \<not> v4_first b a) (filter (\<lambda>e. \<not> is_v6 e) es)" for es
    by (induction es) (auto simp: v4_first_def)
  ultimately show ?thesis
    unfolding is_std_sort_def by (auto simp: sorted_wrt_append v4_first_def v4_v6_sort_def)
qed

lemma v4_before_v6:
  "sorted_wrt (\<lambda>a b. \<not> v4_first b a) xs \<Longrightarrow> xs = filter (\<lambda>e. \<not> is_v6 e) xs @ filter is_v6 xs"
proof (induction xs)
  case (Cons x xs)
  show ?case
  proof (cases "is_v6 x")
    case True
    with Cons.prems have "filter (\<lambda>e. \<not> is_v6 e) xs = []"
      by (auto simp: v4_first_def filter_empty_conv)
    with True Cons show ?thesis by simp
  qed (use Cons in simp)
qed simp

section \<open>Properties\<close>

text \<open>
  C6: at every moment exactly one operation that drives the connection (name resolution,
  connect, retry timer or read) is outstanding or has its handler waiting to run, and the
  published \<open>ConnectionState\<close> names it. This holds for every scheduling of ready handlers. So
  two reconnection attempts never run at the same time, and none is ever lost.
\<close>

theorem one_control_operation:
  assumes "conn.reach Q srt fifo s"
  shows "mset (concat (map op_ctl (Inflight s))) + mset (concat (map done_ctl (Ready s)))
    = {#getConnectionStatus s#}"
  using reach_control [OF assms] by (simp add: control_inv_def control_def getConnectionStatus_def)

theorem one_control_operation_witness:
  "mset (concat (map op_ctl (Inflight (sendMessage (bounded_list 5) 3 ''m'' (Impl ''h'' 1 []))))) +
   mset (concat (map done_ctl (Ready (sendMessage (bounded_list 5) 3 ''m'' (Impl ''h'' 1 [])))))
   = {#ADDR_LOOKUP#}"
proof -
  have "constructed (Impl ''h'' 1 [])" by (auto simp: constructed_def)
  from one_control_operation [OF conn_run_reach [OF example_run [of id False] this]]
  show ?thesis by (simp add: getConnectionStatus_def sendMessage_def Impl_def conn_simps)
qed

text \<open>
  C7: with the handlers run in order, at most one write of the message buffer is outstanding,
  it writes exactly what the buffer holds (so the buffer is never changed under a write), and
  while the connection is up and its socket open, exactly one send (a write or a posted
  \<open>trySendMessage\<close>) is outstanding: the send loop neither dies nor forks.
\<close>

theorem one_send_outstanding:
  assumes "conn.reach Q srt True s"
  shows "length (filter is_write (Inflight s)) + length (filter is_send (Ready s)) \<le> 1
    \<and> (\<forall>data. Async_write data \<in> set (Inflight s) \<longrightarrow> data = MessageBuffer s)
    \<and> (\<forall>Err data. Written Err data \<in> set (Ready s) \<longrightarrow> data = MessageBuffer s)
    \<and> (ConnectionState s = SEND_LOOP \<and> SocketOpen s \<longrightarrow>
         length (filter is_write (Inflight s)) + length (filter is_send (Ready s)) = 1)"
  using reach_live [OF assms] unfolding chain_inv_def live_inv_def sends_def by blast

theorem one_send_outstanding_witness:
  "length (filter is_write (Inflight (sendMessage (bounded_list 5) 3 ''m'' (Impl ''h'' 1 [])))) +
   length (filter is_send (Ready (sendMessage (bounded_list 5) 3 ''m'' (Impl ''h'' 1 [])))) \<le> 1"
proof -
  have "constructed (Impl ''h'' 1 [])" by (auto simp: constructed_def)
  from one_send_outstanding [OF conn_run_reach [OF example_run [of id True] this]]
  show ?thesis by blast
qed

text \<open>
  C8: whatever clients and network did to a connection, the operations now outstanding can
  complete in such a way that the connection gets established: status \<open>SEND_LOOP\<close>, socket
  open, a read pending and the send loop running.
\<close>

theorem connection_never_stuck:
  assumes "conn.reach Q srt True s"
  shows "\<exists>t. (io_step Q srt True)\<^sup>*\<^sup>* s t \<and> ConnectionState t = SEND_LOOP \<and> SocketOpen t
    \<and> Async_receive \<in> set (Inflight t) \<and> sends t = 1"
  using good_up [of s Q srt] reach_live [OF assms] by (auto simp: good_def can_reach_def up_def)

theorem connection_never_stuck_witness:
  "\<exists>t. (io_step (bounded_list 5) id True)\<^sup>*\<^sup>* (Impl ''h'' 1 []) t \<and> ConnectionState t = SEND_LOOP"
proof -
  have "conn.reach (bounded_list 5) id True (Impl ''h'' 1 [])"
    by (rule conn.reach_init) (auto simp: constructed_def)
  from connection_never_stuck [OF this] show ?thesis by blast
qed

text \<open>
  C28: after a query that found endpoints, when all attempts to connect fail, every endpoint
  was tried exactly once, the IPv4 ones before the IPv6 ones, and then the connection waits
  the long delay of ten seconds before it resolves the name again.
\<close>

theorem endpoints_tried_once:
  assumes "is_std_sort srt" and "Inflight s = []" and "eps \<noteq> []"
  shows "\<exists>tried t. fail_connects Q (length eps) (resolverHandler srt False eps s) = (tried, t)
    \<and> mset tried = mset eps
    \<and> tried = filter (\<lambda>e. \<not> is_v6 e) tried @ filter is_v6 tried
    \<and> ConnectionState t = ADDR_RETRY_WAIT \<and> Inflight t = [Async_wait] \<and> \<not> SocketOpen t
    \<and> delay_ms (Expiry t) = 10000"
proof -
  have srt: "mset (srt eps) = mset eps" "sorted_wrt (\<lambda>a b. \<not> v4_first b a) (srt eps)"
    using assms(1) by (simp_all add: is_std_sort_def)
  have len: "length (srt eps) = length eps" using srt(1) by (rule mset_eq_length)
  note split = v4_before_v6 [OF srt(2)]
  let ?u = "setState CONNECT (s\<lparr>SocketOpen := False\<rparr>)"
  have run: "fail_connects Q (length eps) (resolverHandler srt False eps s) = (srt eps, reConnect LONG ?u)"
  proof -
    let ?r = "make_QueryResult srt eps"
    have r: "NextEndpoint ?r = 0" "EndpointList ?r = srt eps"
      by (simp_all add: make_QueryResult_def copy_endpoints_append)
    have "NextEndpoint ?r < length (EndpointList ?r)"
      "length eps = length (EndpointList ?r) - NextEndpoint ?r"
      using assms(3) by (simp_all add: r len)
    from fail_all [OF assms(2) this, of Q] r show ?thesis by (simp add: resolverHandler_def)
  qed
  have t: "ConnectionState (reConnect LONG ?u) = ADDR_RETRY_WAIT"
    "Inflight (reConnect LONG ?u) = [Async_wait]" "\<not> SocketOpen (reConnect LONG ?u)"
    "delay_ms (Expiry (reConnect LONG ?u)) = 10000"
    using assms(2) by (simp_all add: reConnect_def setState_def start_op_def expires_after_def
        cancel_ops_def delay_ms_def)
  from run srt(1) split t show ?thesis by blast
qed

theorem endpoints_tried_once_witness:
  "\<exists>tried t. fail_connects (bounded_list 5) 1
      (resolverHandler v4_v6_sort False [endpoint_default] (Impl ''h'' 1 []\<lparr>Inflight := []\<rparr>)) = (tried, t)
    \<and> mset tried = {#endpoint_default#} \<and> delay_ms (Expiry t) = 10000"
proof -
  have "Inflight (Impl ''h'' 1 []\<lparr>Inflight := []\<rparr>) = []" "[endpoint_default] \<noteq> []" by simp_all
  from endpoints_tried_once [OF v4_v6_is_sort this, of "bounded_list 5"]
  obtain tried t where "fail_connects (bounded_list 5) (length [endpoint_default])
      (resolverHandler v4_v6_sort False [endpoint_default] (Impl ''h'' 1 []\<lparr>Inflight := []\<rparr>)) = (tried, t)"
    "mset tried = mset [endpoint_default]" "delay_ms (Expiry t) = 10000" by blast
  then show ?thesis by (intro exI [of _ tried] exI [of _ t]) simp
qed

end
