(* ===== verification/Test_Server.thy ===== *)
theory Test_Server
  imports Graylog_Delivery
begin

text \<open>
  Model of the receiving side as the repository has it: the reader of
  \<open>unit_tests/LogTestServer.cpp\<close>, which splits the byte stream at zero bytes, whatever the
  blocks in which it arrives. Together with \<open>Graylog_Delivery\<close> it gives the end-to-end
  statement about the messages that arrive.
\<close>

section \<open>Definitions\<close>

record test_server =
  receivedBytes :: nat
  nrOfMessagesReceived :: nat
  currentMessage :: string
  previousMessage :: string

definition LogTestServer :: test_server where
  "LogTestServer = \<lparr>receivedBytes = 0, nrOfMessagesReceived = 0, currentMessage = [], previousMessage = []\<rparr>"

text \<open>
  The loop of \<open>HandleRead\<close> over a block of received bytes and its body. The connections of the
  server and the rest of \<open>HandleRead\<close> are in \<open>Server_Sockets\<close>.
\<close>

definition receive_char :: "char \<Rightarrow> 'a test_server_scheme \<Rightarrow> 'a test_server_scheme" where
  "receive_char c s =
     (if c = nul then s\<lparr>previousMessage := currentMessage s, currentMessage := [],
                        nrOfMessagesReceived := Suc (nrOfMessagesReceived s)\<rparr>
      else s\<lparr>currentMessage := currentMessage s @ [c]\<rparr>)"

definition read_bytes :: "string \<Rightarrow> 'a test_server_scheme \<Rightarrow> 'a test_server_scheme" where
  "read_bytes block s = fold receive_char block (s\<lparr>receivedBytes := receivedBytes s + length block\<rparr>)"

definition GetLatestMessage :: "'a test_server_scheme \<Rightarrow> string \<times> 'a test_server_scheme" where
  "GetLatestMessage s = (previousMessage s, s\<lparr>previousMessage := []\<rparr>)"

definition GetNrOfMessages :: "'a test_server_scheme \<Rightarrow> nat" where
  "GetNrOfMessages s = nrOfMessagesReceived s"

definition GetReceivedBytes :: "'a test_server_scheme \<Rightarrow> nat" where
  "GetReceivedBytes s = receivedBytes s"

definition ClearReceivedBytes :: "'a test_server_scheme \<Rightarrow> 'a test_server_scheme" where
  "ClearReceivedBytes s = s\<lparr>receivedBytes := 0\<rparr>"

section \<open>Lemmas\<close>

lemma receive_text:
  "nul \<notin> set t \<Longrightarrow> fold receive_char t s = s\<lparr>currentMessage := currentMessage s @ t\<rparr>"
  by (induction t arbitrary: s) (auto simp: receive_char_def)

lemma receive_frame:
  "nul \<notin> set m \<Longrightarrow> currentMessage s = [] \<Longrightarrow> fold receive_char (m @ [nul]) s =
     s\<lparr>previousMessage := m, nrOfMessagesReceived := Suc (nrOfMessagesReceived s)\<rparr>"
  by (simp add: receive_text) (simp add: receive_char_def)

text \<open>The messages that a sequence of closures sends.\<close>

definition sent_messages :: "(nat \<times> queued) list \<Rightarrow> string list" where
  "sent_messages ts = filter (\<lambda>m. m \<noteq> []) (concat (map (message_of \<circ> snd) ts))"

lemma frames_sent: "frames ts = concat (map (\<lambda>m. m @ [nul]) (sent_messages ts))"
proof (induction ts)
  case (Cons t ts)
  then show ?case by (cases t; cases "snd t") (auto simp: sent_messages_def)
qed (simp add: sent_messages_def)

lemma receive_frames:
  assumes "\<forall>m \<in> set ms. nul \<notin> set m" and "currentMessage s = []"
  shows "fold receive_char (concat (map (\<lambda>m. m @ [nul]) ms)) s =
    s\<lparr>previousMessage := (if ms = [] then previousMessage s else last ms),
      nrOfMessagesReceived := nrOfMessagesReceived s + length ms\<rparr>"
  using assms
proof (induction ms arbitrary: s)
  case Nil
  then show ?case by simp
next
  case (Cons m ms)
  let ?t = "s\<lparr>previousMessage := m, nrOfMessagesReceived := Suc (nrOfMessagesReceived s)\<rparr>"
  have "fold receive_char (m @ [nul]) s = ?t" using Cons.prems by (intro receive_frame) simp_all
  moreover have "fold receive_char (concat (map (\<lambda>m. m @ [nul]) ms)) ?t =
      ?t\<lparr>previousMessage := (if ms = [] then previousMessage ?t else last ms),
        nrOfMessagesReceived := nrOfMessagesReceived ?t + length ms\<rparr>"
    using Cons.prems by (intro Cons.IH) simp_all
  ultimately show ?case by simp
qed

lemma read_blocks:
  "fold read_bytes blocks s =
     (fold receive_char (concat blocks) s)\<lparr>receivedBytes := receivedBytes s + length (concat blocks)\<rparr>"
proof (induction blocks arbitrary: s)
  case Nil
  then show ?case by simp
next
  case (Cons b blocks)
  have one: "receive_char c (t\<lparr>receivedBytes := n\<rparr>) = (receive_char c t)\<lparr>receivedBytes := n\<rparr>" for c t n
    by (simp add: receive_char_def)
  have comm: "fold receive_char xs (t\<lparr>receivedBytes := n\<rparr>) = (fold receive_char xs t)\<lparr>receivedBytes := n\<rparr>"
    for xs t n
    by (induction xs arbitrary: t) (simp_all add: one)
  have keep: "receivedBytes (fold receive_char xs t) = receivedBytes t" for xs t
    by (induction xs arbitrary: t) (simp_all add: receive_char_def)
  have "read_bytes b s = (fold receive_char b s)\<lparr>receivedBytes := receivedBytes s + length b\<rparr>"
    by (simp add: read_bytes_def comm)
  then show ?case by (simp add: Cons comm keep)
qed

section \<open>Properties\<close>

text \<open>
  End to end, the server receives what was logged. When everything that left the queue has
  been sent, the server that got these bytes, in blocks of any sizes, has counted exactly the
  non-empty messages taken from the queue, the latest is the last of them, and no incomplete
  message is left over; for each client thread these are the first messages it sent, in its
  order. The messages must not contain a zero byte, as a serialised JSON text never does.
\<close>

theorem server_receives_messages:
  assumes "bounded_contract Q pend" and "pend q0 = (\<lambda>_. [])"
    and "conn_run Q srt True (Impl host port q0) h s" and "MessageBuffer s = []"
    and "\<And>thr m. (thr, MsgFunc m) \<in> set h \<Longrightarrow> nul \<notin> set m"
    and "concat blocks = Sent s"
  shows "\<exists>ts. let ms = filter (\<lambda>m. m \<noteq> []) (concat (map (message_of \<circ> snd) ts));
            srv = fold read_bytes blocks LogTestServer
         in GetNrOfMessages srv = length ms
            \<and> fst (GetLatestMessage srv) = (if ms = [] then [] else last ms)
            \<and> currentMessage srv = []
            \<and> (\<forall>thr. of_producer thr h = of_producer thr ts @ pend (LogMessages s) thr)"
proof -
  obtain ts where ts: "accounted pend h ts s" using run_accounted [OF assms(1-3)] by blast
  let ?ms = "sent_messages ts"
  have "nul \<notin> set m" if m: "m \<in> set ?ms" for m
  proof -
    from m obtain t where "t \<in> set ts" "m \<in> set (message_of (snd t))" by (auto simp: sent_messages_def)
    then have "t \<in> set ts" "snd t = MsgFunc m" by (cases "snd t"; simp)+
    then have "(fst t, MsgFunc m) \<in> set h" using taken_in_history [OF ts] by (metis prod.collapse subsetD)
    then show ?thesis by (rule assms(5))
  qed
  moreover have "concat blocks = concat (map (\<lambda>m. m @ [nul]) ?ms)"
    using ts assms(4,6) by (simp add: accounted_def frames_sent)
  ultimately have "fold read_bytes blocks LogTestServer =
    LogTestServer\<lparr>previousMessage := (if ?ms = [] then [] else last ?ms),
      nrOfMessagesReceived := length ?ms, receivedBytes := length (concat blocks)\<rparr>"
    using receive_frames [of ?ms LogTestServer] by (simp add: read_blocks LogTestServer_def)
  with accountedD [OF ts] show ?thesis
    by (intro exI [of _ ts]) (simp add: sent_messages_def GetNrOfMessages_def GetLatestMessage_def
        LogTestServer_def Let_def)
qed

theorem server_receives_messages_witness:
  "\<exists>ts. GetNrOfMessages (fold read_bytes [''m'', [nul]] LogTestServer)
        = length (filter (\<lambda>m. m \<noteq> []) (concat (map (message_of \<circ> snd) ts)))
    \<and> MsgFunc ''m'' \<in> set (of_producer 3 ts)"
proof -
  let ?s = "snd (drive (bounded_list 5) id flush_actions (Impl ''h'' 1 []))"
  have run: "conn_run (bounded_list 5) id True (Impl ''h'' 1 []) [(3, MsgFunc ''m''), (3, FlushFunc 9)] ?s"
    using drive_run [of "bounded_list 5" id "Impl ''h'' 1 []" flush_actions] flush_actions_run(1) by simp
  have mb: "MessageBuffer ?s = []" and e: "LogMessages ?s = []" by code_simp+
  have "concat [''m'', [nul]] = Sent ?s" by (simp add: flush_actions_run(3))
  from server_receives_messages [OF bounded_list_contract list_pend_empty run mb _ this]
  obtain ts where ts: "GetNrOfMessages (fold read_bytes [''m'', [nul]] LogTestServer)
        = length (filter (\<lambda>m. m \<noteq> []) (concat (map (message_of \<circ> snd) ts)))"
    "\<forall>thr. of_producer thr [(3, MsgFunc ''m''), (3, FlushFunc 9)] = of_producer thr ts @ list_pend (LogMessages ?s) thr"
    by (auto simp: nul_def Let_def)
  from spec [OF ts(2), of 3] have "of_producer 3 ts = [MsgFunc ''m'', FlushFunc 9]"
    by (simp add: e list_pend_def)
  with ts(1) show ?thesis by (intro exI [of _ ts]) simp
qed

text \<open>A run that loses its connection in the middle of a frame, and its continuation.\<close>

definition torn_actions :: "action list" where
  "torn_actions = [Client_send 3 ''abc'',
     Complete (Resolved False [endpoint_default]), Run_head 0,
     Complete (Connected False \<lparr>EndpointList = [endpoint_default], NextEndpoint = 1\<rparr>), Run_head 0,
     Complete (Received True), Complete (Written True (''abc'' @ [nul])), Run_head 0]"

definition reconnect_actions :: "action list" where
  "reconnect_actions = [Complete Waited, Run_head 0,
     Complete (Resolved False [endpoint_default]), Run_head 0,
     Complete (Connected False \<lparr>EndpointList = [endpoint_default], NextEndpoint = 1\<rparr>), Run_head 0]"

text \<open>
  C35: after a write that failed half way, the rest of the torn message is what the next
  connection begins with. Take any state of any run in which the handler of a failed write is
  about to run, after \<open>n\<close> bytes of the message \<open>m\<close> at the front of the written data went out.
  The handler closes the socket and counts these \<open>n\<close> bytes as sent. In every later state in
  which nothing more has been sent, a write that is started (it can only be one on a new
  connection) begins with the other bytes of \<open>m\<close> and the zero byte, and a receiver that has no
  incomplete message when that connection begins takes them for a message of its own.
\<close>

theorem torn_frame_on_next_connection:
  assumes "bounded_contract Q pend"
    and "conn_run Q srt True (Impl host port q0) h s"
    and "Ready s = Written True (m @ nul # later) # cs" and "n \<le> length m" and "nul \<notin> set m"
    and "s1 = run_handler Q srt (Written True (m @ nul # later)) n (s\<lparr>Ready := cs\<rparr>)"
    and "conn_run Q srt True s1 h' t" and "Sent t = Sent s1" and "Async_write d \<in> set (Inflight t)"
    and "currentMessage srv = []"
  shows "\<not> SocketOpen s1 \<and> Sent s1 = Sent s @ take n m
    \<and> (\<exists>rest. d = (drop n m @ [nul]) @ rest
        \<and> fold receive_char (drop n m @ [nul]) srv =
            srv\<lparr>previousMessage := drop n m, nrOfMessagesReceived := Suc (nrOfMessagesReceived srv)\<rparr>)"
proof -
  have "MessageBuffer s = m @ nul # later"
    using run_inv [OF assms(2)] assms(3) by (auto simp: chain_inv_def)
  then have s1: "\<not> SocketOpen s1" "Sent s1 = Sent s @ take n m" "MessageBuffer s1 = drop n m @ nul # later"
    using assms(4,6) by (simp_all add: sent_split Let_def conn_simps close_socket_def cancel_ops_def)
  have "io_step Q srt True s s1"
    using run_ready [where us = "[]", OF _ _, of s "Written True (m @ nul # later)" cs True n Q srt] assms(3,4,6)
    by simp
  then have r1: "conn_run Q srt True (Impl host port q0) h s1" by (rule run_io [OF assms(2)])
  from run_stream [OF assms(1) r1 assms(7)] assms(8) s1(3)
  obtain us where "MessageBuffer t = drop n m @ nul # later @ frames us" by auto
  moreover have "d = MessageBuffer t"
    using run_inv [OF conn_run_trans [OF r1 assms(7)]] assms(9) by (auto simp: chain_inv_def)
  moreover have "nul \<notin> set (drop n m)" using assms(5) by (meson in_set_dropD)
  ultimately show ?thesis using s1(1,2) receive_frame [OF _ assms(10)] by simp
qed

theorem torn_frame_on_next_connection_witness:
  "\<exists>rest. ''bc'' @ [nul] = (drop 1 ''abc'' @ [nul]) @ rest
     \<and> fold receive_char (drop 1 ''abc'' @ [nul]) LogTestServer =
         LogTestServer\<lparr>previousMessage := drop 1 ''abc'', nrOfMessagesReceived := Suc 0\<rparr>"
proof -
  let ?Q = "bounded_list 5" and ?w = "Written True (''abc'' @ nul # [])"
  let ?s = "drive ?Q id torn_actions (Impl ''h'' 1 [])"
  let ?s1 = "run_handler ?Q id ?w 1 (snd ?s\<lparr>Ready := []\<rparr>)"
  let ?t = "drive ?Q id reconnect_actions ?s1"
  have s: "Ready (snd ?s) = ?w # []" by code_simp
  have t: "Sent (snd ?t) = Sent ?s1" "Async_write (''bc'' @ [nul]) \<in> set (Inflight (snd ?t))"
    by code_simp+
  have "1 \<le> length ''abc''" "nul \<notin> set ''abc''" "currentMessage LogTestServer = []" by code_simp+
  note torn_frame_on_next_connection [OF bounded_list_contract drive_run s this(1,2) refl drive_run t this(3)]
  then show ?thesis by (simp add: LogTestServer_def)
qed

end
