(* ===== verification/Server_Sockets.thy ===== *)
theory Server_Sockets
  imports Test_Server
begin

text \<open>
  The connections of the test server \<open>unit_tests/LogTestServer.cpp\<close>: accepting, reading, the
  removal of sockets, and the requests of the thread that runs a test. Sockets are numbers;
  the asynchronous operations in flight are \<open>Accepting\<close> and \<open>Reading\<close>, and \<open>Closed\<close> lists the
  sockets that the server has closed; a read that had completed before may still be handled
  after that, so a closed socket does not restrict the outcome of a read. Handlers that were
  posted to the service are \<open>CloseRequests\<close>.
\<close>

section \<open>State and handlers\<close>

datatype error_code = Success | Operation_aborted | Bad_descriptor | Other_error nat

record server = test_server +
  socketError :: error_code
  connections :: int
  existingSockets :: "nat list"
  NextSocket :: nat
  Accepting :: "nat list"
  Reading :: "nat list"
  Closed :: "nat list"
  CloseRequests :: nat
  AcceptorOpen :: bool

definition WaitForNewConnection :: "server \<Rightarrow> server" where
  "WaitForNewConnection s =
     (let cSock = NextSocket s in s\<lparr>NextSocket := Suc cSock, Accepting := Accepting s @ [cSock]\<rparr>)"

definition LogTestServer_listening :: server where
  "LogTestServer_listening = WaitForNewConnection (test_server.extend LogTestServer
     \<lparr>socketError = Success, connections = 0, existingSockets = [], NextSocket = 0, Accepting = [],
      Reading = [], Closed = [], CloseRequests = 0, AcceptorOpen = True\<rparr>)"

definition async_read :: "nat \<Rightarrow> server \<Rightarrow> server" where
  "async_read cSock s = s\<lparr>Reading := Reading s @ [cSock]\<rparr>"

definition OnConnectionAccept :: "error_code \<Rightarrow> nat \<Rightarrow> server \<Rightarrow> server" where
  "OnConnectionAccept ec cSock s =
     (let s1 = s\<lparr>socketError := ec\<rparr> in
      if ec = Operation_aborted \<or> ec = Bad_descriptor then s1
      else if ec \<noteq> Success then s1
      else async_read cSock
        (s1\<lparr>existingSockets := existingSockets s1 @ [cSock], connections := connections s1 + 1\<rparr>))"

text \<open>The loop of \<open>RemoveSocket\<close> erases the first entry that is the socket.\<close>

fun erase_first :: "nat \<Rightarrow> nat list \<Rightarrow> nat list" where
  "erase_first cSock [] = []"
| "erase_first cSock (k # ks) = (if k = cSock then ks else k # erase_first cSock ks)"

definition RemoveSocket :: "nat \<Rightarrow> server \<Rightarrow> server" where
  "RemoveSocket cSock s = s\<lparr>existingSockets := erase_first cSock (existingSockets s)\<rparr>"

definition drop_connection :: "nat \<Rightarrow> server \<Rightarrow> server" where
  "drop_connection cSock s =
     (let s1 = RemoveSocket cSock s in WaitForNewConnection (s1\<lparr>connections := connections s1 - 1\<rparr>))"

definition HandleRead :: "error_code \<Rightarrow> string \<Rightarrow> nat \<Rightarrow> server \<Rightarrow> server" where
  "HandleRead ec block cSock s =
     (let s1 = s\<lparr>socketError := ec\<rparr> in
      if ec = Operation_aborted then drop_connection cSock s1
      else if ec \<noteq> Success then drop_connection cSock s1
      else async_read cSock (read_bytes block s1))"

definition CloseFunction :: "server \<Rightarrow> server" where
  "CloseFunction s = s\<lparr>Closed := Closed s @ existingSockets s, existingSockets := []\<rparr>"

definition CloseAllConnections :: "server \<Rightarrow> server" where
  "CloseAllConnections s = s\<lparr>CloseRequests := Suc (CloseRequests s)\<rparr>"

text \<open>
  The destructor, up to the wait for the service thread: the service runs until no operation is
  left, an aborted accept and the failed reads included.
\<close>

definition LogTestServer_destroy :: "server \<Rightarrow> server" where
  "LogTestServer_destroy s = (CloseAllConnections s)\<lparr>AcceptorOpen := False\<rparr>"

definition service_done :: "server \<Rightarrow> bool" where
  "service_done s \<longleftrightarrow> Accepting s = [] \<and> Reading s = [] \<and> CloseRequests s = 0"

definition GetLastSocketError :: "server \<Rightarrow> error_code \<times> server" where
  "GetLastSocketError s = (socketError s, s\<lparr>socketError := Success\<rparr>)"

definition GetNrOfConnections :: "server \<Rightarrow> int" where
  "GetNrOfConnections s = connections s"

definition bufferSize :: nat where
  "bufferSize = 100"

section \<open>The service thread\<close>

text \<open>
  A step: an operation completes with the outcome that the network chose and its handler runs,
  a posted request runs, or the thread of the test makes a request.
\<close>

inductive server_step :: "server \<Rightarrow> server \<Rightarrow> bool" where
  accepted: "Accepting s = us @ k # vs \<Longrightarrow>
    server_step s (OnConnectionAccept ec k (s\<lparr>Accepting := us @ vs\<rparr>))"
| received: "Reading s = us @ k # vs \<Longrightarrow> length block \<le> bufferSize \<Longrightarrow>
    server_step s (HandleRead ec block k (s\<lparr>Reading := us @ vs\<rparr>))"
| close_runs: "CloseRequests s = Suc n \<Longrightarrow> server_step s (CloseFunction (s\<lparr>CloseRequests := n\<rparr>))"
| destroyed: "server_step s (LogTestServer_destroy s)"
| close_requested: "server_step s (CloseAllConnections s)"
| error_read: "server_step s (snd (GetLastSocketError s))"
| message_read: "server_step s (snd (GetLatestMessage s))"
| bytes_cleared: "server_step s (ClearReceivedBytes s)"

inductive_cases server_stepE: "server_step s t"

interpretation server: transition_system "\<lambda>s. s = LogTestServer_listening" server_step
  by unfold_locales simp

section \<open>Lemmas\<close>

lemma read_bytes_sockets [simp]:
  fixes s :: server
  shows "connections (read_bytes b s) = connections s" "existingSockets (read_bytes b s) = existingSockets s"
  "Accepting (read_bytes b s) = Accepting s" "Reading (read_bytes b s) = Reading s"
  "Closed (read_bytes b s) = Closed s" "NextSocket (read_bytes b s) = NextSocket s"
proof -
  have "connections (fold receive_char b t) = connections t \<and> existingSockets (fold receive_char b t) = existingSockets t
    \<and> Accepting (fold receive_char b t) = Accepting t \<and> Reading (fold receive_char b t) = Reading t
    \<and> Closed (fold receive_char b t) = Closed t \<and> NextSocket (fold receive_char b t) = NextSocket t" for t :: server
    by (induction b arbitrary: t) (simp_all add: receive_char_def)
  then show "connections (read_bytes b s) = connections s" "existingSockets (read_bytes b s) = existingSockets s"
    "Accepting (read_bytes b s) = Accepting s" "Reading (read_bytes b s) = Reading s"
    "Closed (read_bytes b s) = Closed s" "NextSocket (read_bytes b s) = NextSocket s"
    by (simp_all add: read_bytes_def)
qed

text \<open>
  The server waits for one connection or reads from one: after an accept it does not wait for
  another until a read has failed.
\<close>

definition one_client :: "server \<Rightarrow> bool" where
  "one_client s \<longleftrightarrow> connections s = int (length (Reading s))
     \<and> ((length (Accepting s) \<le> 1 \<and> Reading s = [] \<and> existingSockets s = [])
        \<or> (\<exists>k. Accepting s = [] \<and> Reading s = [k]
             \<and> (existingSockets s = [k] \<or> existingSockets s = [] \<and> k \<in> set (Closed s))))"

lemma one_client_init: "one_client LogTestServer_listening"
  by (simp add: one_client_def LogTestServer_listening_def WaitForNewConnection_def Let_def
      test_server.defs LogTestServer_def)

lemma singleton_split:
  assumes "xs = us @ k # vs" and "length xs \<le> 1"
  shows "us = []" and "vs = []"
  using assms by (cases us; cases vs; auto)+

lemma one_client_reading:
  assumes "one_client s" and "Reading s = us @ k # vs"
  shows "us = []" and "vs = []" and "Accepting s = []"
    and "existingSockets s = [k] \<or> existingSockets s = [] \<and> k \<in> set (Closed s)" and "connections s = 1"
proof -
  have "length (Reading s) \<le> 1" using assms(1) by (auto simp: one_client_def)
  from singleton_split [OF assms(2) this] show "us = []" "vs = []" by simp_all
  with assms show "Accepting s = []" "connections s = 1"
    "existingSockets s = [k] \<or> existingSockets s = [] \<and> k \<in> set (Closed s)"
    by (auto simp: one_client_def)
qed

lemma drop_connection_one_client:
  assumes "one_client s" and "Reading s = us @ k # vs"
  shows "one_client (drop_connection k (s\<lparr>Reading := us @ vs, socketError := ec\<rparr>))"
  using one_client_reading [OF assms]
  by (auto simp: one_client_def drop_connection_def RemoveSocket_def WaitForNewConnection_def Let_def)

lemma one_client_accept:
  assumes "one_client s" and "Accepting s = us @ k # vs"
  shows "one_client (OnConnectionAccept ec k (s\<lparr>Accepting := us @ vs\<rparr>))"
proof -
  have r: "Reading s = []" "existingSockets s = []" "length (Accepting s) \<le> 1" "connections s = 0"
    using assms by (auto simp: one_client_def)
  from singleton_split [OF assms(2) r(3)] r show ?thesis
    by (simp add: one_client_def OnConnectionAccept_def async_read_def Let_def)
qed

lemma one_client_read:
  assumes "one_client s" and "Reading s = us @ k # vs"
  shows "one_client (HandleRead ec block k (s\<lparr>Reading := us @ vs\<rparr>))"
proof (cases "ec = Success")
  case True
  with one_client_reading [OF assms] show ?thesis
    by (simp add: one_client_def HandleRead_def async_read_def Let_def)
next
  case False
  with drop_connection_one_client [OF assms, of ec] show ?thesis by (auto simp: HandleRead_def Let_def)
qed

lemma one_client_close: "one_client s \<Longrightarrow> one_client (CloseFunction (s\<lparr>CloseRequests := n\<rparr>))"
  by (auto simp: one_client_def CloseFunction_def)

lemma one_client_step: "one_client s \<Longrightarrow> server_step s t \<Longrightarrow> one_client t"
  by (erule server_stepE)
    (simp_all add: one_client_accept one_client_read one_client_close,
     simp_all add: one_client_def CloseAllConnections_def LogTestServer_destroy_def GetLastSocketError_def GetLatestMessage_def
       ClearReceivedBytes_def)

text \<open>
  The destructor ends when the outstanding operation fails: with nothing connected the aborted
  accept is the only operation, and no other is started.
\<close>

lemma destroy_idle_server:
  assumes "one_client s" and "Reading s = []" and "Accepting s = [k]" and "CloseRequests s = 0"
  shows "service_done (OnConnectionAccept Operation_aborted k
    (CloseFunction ((LogTestServer_destroy s)\<lparr>CloseRequests := 0\<rparr>)\<lparr>Accepting := []\<rparr>))"
  using assms by (simp add: service_done_def OnConnectionAccept_def CloseFunction_def
      LogTestServer_destroy_def CloseAllConnections_def)

text \<open>
  A connection that is accepted after the sockets were closed and before the acceptor is closed
  stays open: the destructor then waits for the client.
\<close>

lemma destroy_misses_late_client:
  fixes s :: server
  shows "existingSockets (OnConnectionAccept Success k (CloseFunction s)) = [k]"
  by (simp add: OnConnectionAccept_def CloseFunction_def async_read_def Let_def)

section \<open>Property\<close>

text \<open>
  C37: the test server serves one client at a time. In every reachable state the counter of
  connections is the number of outstanding reads, at most one connection is open or awaited,
  and a client whose socket the server has closed still counts until its read has failed; so
  a test that closes all connections may see the old count for a while.
\<close>

theorem server_single_connection:
  assumes "server.reach s"
  shows "GetNrOfConnections s = int (length (Reading s))
    \<and> GetNrOfConnections s + int (length (Accepting s)) \<le> 1
    \<and> (\<forall>k \<in> set (Reading s). k \<in> set (existingSockets s) \<or> k \<in> set (Closed s))"
proof -
  have "one_client s"
    by (rule server.invariant [OF assms]) (use one_client_init one_client_step in auto)
  then show ?thesis by (auto simp: one_client_def GetNrOfConnections_def)
qed

definition closed_by_server :: server where
  "closed_by_server =
     (let s1 = CloseAllConnections LogTestServer_listening;
          s2 = OnConnectionAccept Success 0 (s1\<lparr>Accepting := []\<rparr>)
      in CloseFunction (s2\<lparr>CloseRequests := 0\<rparr>))"

theorem server_single_connection_witness:
  "existingSockets closed_by_server = [] \<and> GetNrOfConnections closed_by_server = int (length [0 :: nat])"
proof -
  let ?s1 = "CloseAllConnections LogTestServer_listening"
  let ?s2 = "OnConnectionAccept Success 0 (?s1\<lparr>Accepting := []\<rparr>)"
  have "Accepting ?s1 = [] @ 0 # []" "CloseRequests ?s2 = Suc 0" by code_simp+
  then have "server_step LogTestServer_listening ?s1" "server_step ?s1 ?s2" "server_step ?s2 closed_by_server"
    using server_step.accepted [of ?s1 "[]" 0 "[]" Success] server_step.close_runs [of ?s2 0]
    by (auto simp: closed_by_server_def Let_def intro: server_step.close_requested)
  moreover have "server.reach LogTestServer_listening" by (rule server.reach_init) simp
  ultimately have "server.reach closed_by_server" by (blast intro: server.reach_step)
  from server_single_connection [OF this]
  have "GetNrOfConnections closed_by_server = int (length (Reading closed_by_server))" by blast
  moreover have "Reading closed_by_server = [0]" "existingSockets closed_by_server = []" by code_simp+
  ultimately show ?thesis by simp
qed

end
