(* ===== verification/Process_Name.thy ===== *)
theory Process_Name
  imports Log_Util
begin

text \<open>
  Model of the three versions of \<open>get_process_name\<close> in \<open>src/LoggingBase.cpp\<close> (Linux and
  BSD, macOS, Windows). The system calls are parameters: \<open>readlink path n\<close> is at most \<open>n\<close>
  bytes of the link's target, \<open>_NSGetExecutablePath\<close> yields the path or the size it needs,
  and \<open>GetModuleFileNameW\<close> yields at most as many wide characters as the buffer holds.
\<close>

section \<open>Definitions\<close>

text \<open>The part after the last slash, as both POSIX versions compute it.\<close>

definition after_last :: "char \<Rightarrow> string \<Rightarrow> string" where
  "after_last c path =
     (case rfind_char c path of
        None \<Rightarrow> path
      | Some lastSlash \<Rightarrow> substr path (lastSlash + 1) (length path - 1))"

definition filePaths :: "string list" where
  "filePaths = [''/proc/self/exe'', ''/proc/curproc/file'', ''/proc/curproc/exe'']"

definition pathBuffer_size :: nat where
  "pathBuffer_size = 1024"

fun first_link :: "(string \<Rightarrow> nat \<Rightarrow> string option) \<Rightarrow> string list \<Rightarrow> string option" where
  "first_link readlink [] = None"
| "first_link readlink (path # paths) =
     (case readlink path (pathBuffer_size - 1) of
        Some tempPath \<Rightarrow> Some (after_last (CHR ''/'') tempPath)
      | None \<Rightarrow> first_link readlink paths)"

definition get_process_name :: "(string \<Rightarrow> nat \<Rightarrow> string option) \<Rightarrow> int32 \<Rightarrow> string" where
  "get_process_name readlink pid =
     (case first_link readlink filePaths of
        Some name \<Rightarrow> name
      | None \<Rightarrow> show_int (sint pid))"

text \<open>
  macOS: the loop enlarges the buffer to the size that the system call asked for. It is a
  partial function: whether it ends depends on the system call.
\<close>

partial_function (option) mac_path :: "(nat \<Rightarrow> nat + string) \<Rightarrow> nat \<Rightarrow> string option" where
  "mac_path NSGetExecutablePath bufsize =
     (case NSGetExecutablePath bufsize of
        Inr buf \<Rightarrow> Some (c_str buf)
      | Inl needed \<Rightarrow> mac_path NSGetExecutablePath needed)"

definition get_process_name_mac :: "(nat \<Rightarrow> nat + string) \<Rightarrow> nat \<Rightarrow> string option" where
  "get_process_name_mac NSGetExecutablePath PATH_MAX =
     map_option (after_last (CHR ''/'')) (mac_path NSGetExecutablePath PATH_MAX)"

text \<open>
  Windows: the buffer is doubled until the module name is shorter than the buffer, or the
  buffer has 65536 characters. The character searched for is the double quote.
\<close>

type_synonym wchar = "16 word"

partial_function (option) win_path ::
  "(nat \<Rightarrow> wchar list) \<Rightarrow> wchar list \<Rightarrow> wchar list option" where
  "win_path GetModuleFileName buf =
     (let r = GetModuleFileName (length buf);
          buf' = r @ drop (length r) buf
      in if length r < length buf then Some (take (length r) buf')
         else (let buf2 = buf' @ replicate (length buf') 0
               in if length buf2 < 65536 then win_path GetModuleFileName buf2 else Some buf2))"

definition wquote :: wchar where
  "wquote = 34"

definition rfind_w :: "wchar \<Rightarrow> wchar list \<Rightarrow> nat option" where
  "rfind_w c s =
     (if c \<in> set s then Some (length s - Suc (length (takeWhile (\<lambda>x. x \<noteq> c) (rev s)))) else None)"

definition get_process_name_win ::
  "(nat \<Rightarrow> wchar list) \<Rightarrow> (wchar list \<Rightarrow> string) \<Rightarrow> string option" where
  "get_process_name_win GetModuleFileName to_bytes =
     map_option
       (\<lambda>buf. case rfind_w wquote buf of
                None \<Rightarrow> to_bytes buf
              | Some lastSlash \<Rightarrow> to_bytes (take (length buf - 1) (drop (lastSlash + 1) buf)))
       (win_path GetModuleFileName (replicate 260 0))"

section \<open>Lemmas\<close>

lemma after_last_none: "c \<notin> set path \<Longrightarrow> after_last c path = path"
proof -
  assume "c \<notin> set path"
  then have "rfind_char c path = None" by simp
  then show ?thesis by (simp only: after_last_def option.case)
qed

lemma after_last_split: "c \<notin> set name \<Longrightarrow> after_last c (dir @ c # name) = name"
  by (simp add: after_last_def rfind_char_split substr_def)

lemma mac_path_fits: "NSGetExecutablePath bufsize = Inr buf \<Longrightarrow> mac_path NSGetExecutablePath bufsize = Some (c_str buf)"
  by (simp add: mac_path.simps)

lemma mac_path_grows:
  "NSGetExecutablePath bufsize = Inl needed \<Longrightarrow>
     mac_path NSGetExecutablePath bufsize = mac_path NSGetExecutablePath needed"
  by (subst mac_path.simps) simp

text \<open>Documented behaviour of \<open>_NSGetExecutablePath\<close> for an executable at \<open>path\<close>.\<close>

definition executable_at :: "string \<Rightarrow> (nat \<Rightarrow> nat + string) \<Rightarrow> bool" where
  "executable_at path NSGetExecutablePath \<longleftrightarrow>
     (\<forall>bufsize. NSGetExecutablePath bufsize =
        (if length path < bufsize then Inr (path @ replicate (bufsize - length path) nul)
         else Inl (Suc (length path))))"

lemma c_str_padded: "nul \<notin> set path \<Longrightarrow> 0 < n \<Longrightarrow> c_str (path @ replicate n nul) = path"
  by (cases n) (simp_all add: c_str_def takeWhile_append takeWhile_eq_all_conv)

lemma mac_path_found:
  assumes "executable_at path ns" and "nul \<notin> set path"
  shows "mac_path ns bufsize = Some path"
proof -
  have fits: "mac_path ns n = Some path" if "length path < n" for n
    using mac_path_fits [of ns n] assms that c_str_padded [OF assms(2)]
    by (simp add: executable_at_def)
  show ?thesis
  proof (cases "length path < bufsize")
    case True
    then show ?thesis by (rule fits)
  next
    case False
    then have "ns bufsize = Inl (Suc (length path))" using assms(1) by (simp add: executable_at_def)
    from mac_path_grows [of ns, OF this] fits [of "Suc (length path)"] show ?thesis by simp
  qed
qed

text \<open>On macOS the loop ends whatever the length of the path, and the name is the file name.\<close>

lemma mac_process_name_is_basename:
  assumes "executable_at (dir @ CHR ''/'' # name) ns"
    and "nul \<notin> set (dir @ CHR ''/'' # name)" and "CHR ''/'' \<notin> set name"
  shows "get_process_name_mac ns PATH_MAX = Some name"
  using mac_path_found [OF assms(1,2)] after_last_split [OF assms(3)]
  by (simp add: get_process_name_mac_def)

text \<open>Documented behaviour of \<open>GetModuleFileNameW\<close> for a module at \<open>path\<close>.\<close>

definition module_at :: "wchar list \<Rightarrow> (nat \<Rightarrow> wchar list) \<Rightarrow> bool" where
  "module_at path GetModuleFileName \<longleftrightarrow> (\<forall>n. GetModuleFileName n = take n path)"

lemma win_path_found:
  assumes "module_at path gm" and "length path < 260 * 2 ^ 7" and "0 < length buf"
    and "length buf = 260 * 2 ^ k" and "k \<le> 7"
  shows "win_path gm buf = Some path"
  using assms(3-5)
proof (induction "7 - k" arbitrary: k buf)
  case 0
  then have "length path < length buf" using assms(2) by simp
  then show ?case using assms(1) by (subst win_path.simps) (simp add: module_at_def Let_def)
next
  case (Suc d)
  show ?case
  proof (cases "length path < length buf")
    case True
    then show ?thesis using assms(1) by (subst win_path.simps) (simp add: module_at_def Let_def)
  next
    case False
    let ?b = "take (length buf) path @ replicate (length buf) 0"
    have len: "length (take (length buf) path) = length buf" using False by simp
    have k: "k < 7" using Suc.hyps(2) by simp
    have lb: "length ?b = 260 * 2 ^ Suc k" using Suc.prems(2) len by simp
    have "(2::nat) ^ Suc k \<le> 2 ^ 7" using k by (intro power_increasing) auto
    then have "length ?b < 65536" using lb by simp
    then have "win_path gm buf = win_path gm ?b"
      using assms(1) len by (subst win_path.simps) (simp add: module_at_def Let_def)
    moreover have "win_path gm ?b = Some path"
      by (rule Suc.hyps(1) [of "Suc k"]) (use Suc.hyps(2) lb k Suc.prems in auto)
    ultimately show ?thesis by simp
  qed
qed

section \<open>Properties\<close>

text \<open>
  On Linux and BSD the process name is the file name of the executable: the first of the
  three \<open>/proc\<close> links that can be read names it, and everything up to the last slash is
  dropped; if none can be read it is the decimal process id.
\<close>

theorem process_name_is_basename:
  assumes "filePaths = unreadable @ path # rest"
    and "\<And>p. p \<in> set unreadable \<Longrightarrow> readlink p 1023 = None"
    and "readlink path 1023 = Some (dir @ CHR ''/'' # name)" and "CHR ''/'' \<notin> set name"
  shows "get_process_name readlink pid = name"
proof -
  have "first_link readlink (unreadable @ path # rest) = Some name"
    using assms(2)
  proof (induction unreadable)
    case Nil
    show ?case using assms(3) after_last_split [OF assms(4)] by (simp add: pathBuffer_size_def)
  next
    case (Cons p ps)
    then show ?case by (simp add: pathBuffer_size_def)
  qed
  with assms(1) show ?thesis by (simp add: get_process_name_def)
qed

theorem process_name_is_basename_witness:
  "get_process_name (\<lambda>p n. if p = ''/proc/curproc/file'' then Some ''/usr/bin/app'' else None) 17 = ''app''"
  by (rule process_name_is_basename [where unreadable = "[''/proc/self/exe'']"
        and path = "''/proc/curproc/file''" and rest = "[''/proc/curproc/exe'']" and dir = "''/usr/bin''"])
    (simp_all add: filePaths_def)

text \<open>
  C36: on Windows the search for the last double quote finds nothing in a path, which cannot
  contain one, so the process name is the whole path of the module and not its file name.
\<close>

theorem win_process_name_is_full_path:
  assumes "module_at path gm" and "length path < 260 * 2 ^ 7" and "wquote \<notin> set path"
  shows "get_process_name_win gm to_bytes = Some (to_bytes path)"
  using win_path_found [OF assms(1,2), of "replicate 260 0" 0] assms(3)
  by (simp add: get_process_name_win_def rfind_w_def)

theorem win_process_name_is_full_path_witness:
  "get_process_name_win (\<lambda>n. take n [67, 58, 92, 97]) (map (\<lambda>w. char_of (unat w)))
   = Some [CHR ''C'', CHR '':'', CHR 0x5C, CHR ''a'']"
proof -
  have "module_at [67, 58, 92, 97] (\<lambda>n. take n [67, 58, 92, 97])" by (simp add: module_at_def)
  moreover have "map (\<lambda>w. char_of (unat w)) [67, 58, 92, 97 :: wchar] =
      [CHR ''C'', CHR '':'', CHR 0x5C, CHR ''a'']"
    by code_simp
  ultimately show ?thesis
    using win_process_name_is_full_path [of "[67, 58, 92, 97]" "\<lambda>n. take n [67, 58, 92, 97]"
        "map (\<lambda>w. char_of (unat w))"]
    by (simp only: wquote_def) simp
qed

end
