(* ===== verification/Semaphore.thy ===== *)
theory Semaphore
  imports Log_Prelude
begin

text \<open>
  Model of \<open>src/Semaphore.hpp\<close>: the counter with its two operations, and the monitor
  (mutex and condition variable) as a step relation over any number of threads.
\<close>

section \<open>The counter\<close>

text \<open>\<open>std::atomic<int>\<close>, created as 0. \<open>wait_token\<close> is \<open>None\<close> while the loop has to wait.\<close>

type_synonym semaphore = int32

definition Semaphore :: semaphore where
  "Semaphore = 0"

definition notify_token :: "semaphore \<Rightarrow> semaphore" where
  "notify_token c = c + 1"

definition wait_token :: "semaphore \<Rightarrow> semaphore option" where
  "wait_token c = (if c = 0 then None else Some (c - 1))"

section \<open>The monitor\<close>

text \<open>
  Threads in \<open>wait\<close> are about to test the counter (\<open>Testing\<close>: they have just entered or
  were woken) or sleep in \<open>Condition.wait\<close> (\<open>Sleeping\<close>). \<open>Notified\<close> and \<open>Passed\<close> count
  the calls of \<open>notify\<close> and the calls of \<open>wait\<close> that returned.
\<close>

record monitor =
  Count :: semaphore
  Testing :: nat
  Sleeping :: nat
  Notified :: nat
  Passed :: nat

definition monitor_new :: monitor where
  "monitor_new = \<lparr>Count = Semaphore, Testing = 0, Sleeping = 0, Notified = 0, Passed = 0\<rparr>"

definition do_notify :: "monitor \<Rightarrow> monitor" where
  "do_notify m = m\<lparr>Count := notify_token (Count m), Notified := Suc (Notified m),
     Testing := Testing m + (if Sleeping m > 0 then 1 else 0), Sleeping := Sleeping m - 1\<rparr>"

definition do_test :: "monitor \<Rightarrow> monitor" where
  "do_test m = (case wait_token (Count m) of
     None \<Rightarrow> m\<lparr>Testing := Testing m - 1, Sleeping := Suc (Sleeping m)\<rparr>
   | Some c \<Rightarrow> m\<lparr>Count := c, Testing := Testing m - 1, Passed := Suc (Passed m)\<rparr>)"

inductive sem_step :: "monitor \<Rightarrow> monitor \<Rightarrow> bool" where
  notify: "sem_step m (do_notify m)"
| enter: "sem_step m (m\<lparr>Testing := Suc (Testing m)\<rparr>)"
| test: "Testing m > 0 \<Longrightarrow> sem_step m (do_test m)"
| spurious: "Sleeping m > 0 \<Longrightarrow> sem_step m (m\<lparr>Testing := Suc (Testing m), Sleeping := Sleeping m - 1\<rparr>)"

interpretation sem: transition_system "\<lambda>m. m = monitor_new" sem_step
  by unfold_locales simp

section \<open>Invariant\<close>

text \<open>
  The counter holds the tokens that were notified and not taken, and a sleeping thread means
  that there are at least as many testing threads as tokens.
\<close>

definition sem_inv :: "monitor \<Rightarrow> bool" where
  "sem_inv m \<longleftrightarrow> Passed m \<le> Notified m
     \<and> Count m = of_nat (Notified m - Passed m)
     \<and> (Sleeping m > 0 \<longrightarrow> Notified m - Passed m \<le> Testing m)"

lemma of_nat_zero_small: "n < 2 ^ 32 \<Longrightarrow> (of_nat n :: int32) = 0 \<longleftrightarrow> n = 0"
  by (auto simp: word_of_nat_eq_0_iff dest: nat_dvd_not_less)

lemma sem_step_inv:
  assumes "sem_step m m'" and "sem_inv m" and "Notified m' < 2 ^ 32"
  shows "sem_inv m'"
  using assms
proof (cases rule: sem_step.cases)
  case notify
  have "Suc (Notified m) - Passed m = Suc (Notified m - Passed m)"
    using assms(2) by (simp add: sem_inv_def Suc_diff_le)
  with notify assms(2) show ?thesis
    by (auto simp: sem_inv_def do_notify_def notify_token_def)
next
  case test
  have n: "Notified m < 2 ^ 32" using test(1) assms(3)
    by (auto simp: do_test_def wait_token_def split: if_splits)
  have c: "Count m = 0 \<longleftrightarrow> Notified m = Passed m"
    using assms(2) of_nat_zero_small [of "Notified m - Passed m"] n by (auto simp: sem_inv_def)
  show ?thesis
  proof (cases "Count m = 0")
    case True
    with test c assms(2) show ?thesis by (simp add: do_test_def wait_token_def sem_inv_def)
  next
    case False
    with c assms(2) have "Passed m < Notified m" by (auto simp: sem_inv_def)
    then have "Notified m - Passed m = Suc (Notified m - Suc (Passed m))" by simp
    with False test assms(2) \<open>Passed m < Notified m\<close> show ?thesis
      by (auto simp: do_test_def wait_token_def sem_inv_def)
  qed
qed (auto simp: sem_inv_def)

lemma notified_mono: "sem_step m m' \<Longrightarrow> Notified m \<le> Notified m'"
  by (cases rule: sem_step.cases) (auto simp: do_notify_def do_test_def split: option.splits)

lemma sem_reach_inv: "sem.reach m \<Longrightarrow> Notified m < 2 ^ 32 \<Longrightarrow> sem_inv m"
proof -
  assume r: "sem.reach m" and n: "Notified m < 2 ^ 32"
  have "Notified m < 2 ^ 32 \<longrightarrow> sem_inv m"
  proof (rule sem.invariant [OF r])
    fix m assume "m = monitor_new"
    then show "Notified m < 2 ^ 32 \<longrightarrow> sem_inv m"
      by (simp add: sem_inv_def monitor_new_def Semaphore_def)
  next
    fix m m' assume "Notified m < 2 ^ 32 \<longrightarrow> sem_inv m" "sem_step m m'"
    then show "Notified m' < 2 ^ 32 \<longrightarrow> sem_inv m'"
      using notified_mono [of m m'] sem_step_inv [of m m'] by auto
  qed
  with n show ?thesis by blast
qed

section \<open>Properties\<close>

text \<open>
  C34: the semaphore loses no wake-up and invents none. In every reachable state (of fewer than
  \<open>2 ^ 32\<close> notifications) the calls of \<open>wait\<close> that returned are at most the calls of
  \<open>notify\<close>, and as long as a notification has not been consumed, not every waiting thread
  sleeps: some thread is about to test the counter, and its test succeeds.
\<close>

theorem semaphore_no_lost_wakeup:
  assumes "sem.reach m" and "Notified m < 2 ^ 32"
  shows "Passed m \<le> Notified m
    \<and> (Passed m < Notified m \<and> Testing m + Sleeping m > 0 \<longrightarrow>
         Testing m > 0 \<and> Passed (do_test m) = Suc (Passed m))"
proof -
  have inv: "sem_inv m" using assms by (rule sem_reach_inv)
  then have le: "Passed m \<le> Notified m" and sleep: "Sleeping m > 0 \<longrightarrow> Notified m - Passed m \<le> Testing m"
    by (simp_all add: sem_inv_def)
  have "Passed (do_test m) = Suc (Passed m)" if "Passed m < Notified m"
  proof -
    have "Count m \<noteq> 0"
      using inv that assms(2) of_nat_zero_small [of "Notified m - Passed m"] by (auto simp: sem_inv_def)
    then show ?thesis by (simp add: do_test_def wait_token_def)
  qed
  moreover have "Testing m > 0" if "Passed m < Notified m" "Testing m + Sleeping m > 0"
    using that sleep by (cases "Sleeping m > 0") linarith+
  ultimately show ?thesis using le by (intro conjI impI) simp_all
qed

theorem semaphore_no_lost_wakeup_witness:
  "Testing (do_notify (do_test (monitor_new\<lparr>Testing := 1\<rparr>))) > 0"
proof -
  let ?m1 = "monitor_new\<lparr>Testing := 1\<rparr>"
  have "sem.reach monitor_new" by (rule sem.reach_init) simp
  then have "sem.reach ?m1"
    by (rule sem.reach_step) (use enter [of monitor_new] in \<open>simp add: monitor_new_def\<close>)
  then have "sem.reach (do_test ?m1)" by (rule sem.reach_step) (rule test, simp)
  then have "sem.reach (do_notify (do_test ?m1))" by (rule sem.reach_step) (rule notify)
  moreover have eq: "do_notify (do_test ?m1) =
      \<lparr>Count = 1, Testing = 1, Sleeping = 0, Notified = 1, Passed = 0\<rparr>"
    by (simp add: do_notify_def do_test_def wait_token_def notify_token_def monitor_new_def Semaphore_def)
  moreover have "Notified (do_notify (do_test ?m1)) < 2 ^ 32" unfolding eq by simp
  ultimately have "Passed (do_notify (do_test ?m1)) < Notified (do_notify (do_test ?m1)) \<and>
      Testing (do_notify (do_test ?m1)) + Sleeping (do_notify (do_test ?m1)) > 0 \<longrightarrow>
      Testing (do_notify (do_test ?m1)) > 0"
    using semaphore_no_lost_wakeup [of "do_notify (do_test ?m1)"] by blast
  then show ?thesis unfolding eq by simp
qed

end
