(* ===== verification/Logging_Base.thy ===== *)
theory Logging_Base
  imports Base_Handler Process_Name Semaphore
begin

text \<open>
  Model of \<open>include/graylog_logger/LoggingBase.hpp\<close> and \<open>src/LoggingBase.cpp\<close>. The closures
  sent to the executor are the constructors of \<open>base_work\<close>; \<open>run_base\<close> is their bodies. The
  handlers are shared objects: \<open>Handlers\<close> holds pointers (numbers) into \<open>Store\<close>, so the same
  object can be registered twice and the caller keeps access to it. The virtual operations
  of the handlers (\<open>H\<close>) and the platform (\<open>E\<close>: clock, host name, process, \<open>fmt\<close>) are
  parameters.
\<close>

section \<open>State\<close>

record 'h handler_ops =
  hop_addMessage :: "nat \<Rightarrow> LogMessage \<Rightarrow> 'h \<Rightarrow> exn + 'h"
  hop_flush :: "nat \<Rightarrow> 'h \<Rightarrow> exn + (bool \<times> 'h)"
  hop_is_console :: "'h \<Rightarrow> bool"

text \<open>
  \<open>clock n\<close> is the \<open>n\<close>-th reading of the system clock, \<open>hostname_call\<close> the result of
  \<open>gethostname\<close> and the 100 bytes it leaves in the buffer, \<open>fmt\<close> the formatting of an
  argument tuple (\<open>Inl\<close> is the text of the \<open>format_error\<close>), \<open>worker\<close> the worker thread.
\<close>

record 'a platform =
  clock :: "nat \<Rightarrow> int"
  hostname_call :: "int \<times> string"
  getpid :: int32
  readlink :: "string \<Rightarrow> nat \<Rightarrow> string option"
  show_thread :: "nat \<Rightarrow> string"
  fmt :: "string \<Rightarrow> 'a list \<Rightarrow> string + string"
  worker :: nat

record 'h logger =
  MinSeverity :: Severity
  Handlers :: "nat list"
  BaseMsg :: LogMessage
  Store :: "nat \<Rightarrow> 'h"
  Ticks :: nat
  Threads :: nat
  Checks :: "nat \<Rightarrow> semaphore"
  Futures :: "nat \<Rightarrow> promise_state"
  FlushValues :: "nat \<Rightarrow> bool option"

datatype 'a base_work =
    InitBase
  | LogWork Severity string fields nat
  | FmtWork Severity string "'a list" nat
  | FieldWork string AdditionalField
  | PushHandler nat nat
  | ReplaceHandler nat
  | ClearHandlers nat
  | StoreSeverity Severity nat
  | FlushHandlers nat

section \<open>Bodies of the closures\<close>

text \<open>The constructor's closure.\<close>

definition init_base :: "'a platform \<Rightarrow> LogMessage \<Rightarrow> LogMessage" where
  "init_base E m =
     (let (res, StringBuffer) = hostname_call E;
          m' = (if res = 0 then m\<lparr>Host := c_str StringBuffer\<rparr> else m)
      in m'\<lparr>ProcessId := getpid E, ProcessName := get_process_name (readlink E) (getpid E)\<rparr>)"

text \<open>The message that \<open>log\<close> builds from \<open>BaseMsg\<close>.\<close>

definition log_message ::
  "'a platform \<Rightarrow> Severity \<Rightarrow> string \<Rightarrow> fields \<Rightarrow> nat \<Rightarrow> 'h logger \<Rightarrow> LogMessage" where
  "log_message E Level Message ExtraFields tid s =
     (addFields ExtraFields (BaseMsg s))
       \<lparr>Timestamp := clock E (Ticks s), MessageString := Message, SeverityLevel := Level,
        ThreadId := show_thread E tid\<rparr>"

definition format_failed :: "string \<Rightarrow> string \<Rightarrow> string" where
  "format_failed Format what =
     ''graylog-logger internal error. Unable to format the string '' @ [CHR 0x22] @ Format @ [CHR 0x22]
     @ ''. The error was: '' @ [CHR 0x22] @ what @ [CHR 0x22] @ ''.''"

text \<open>
  \<open>minimal::apply\<close> (\<open>MinimalApply.hpp\<close>) calls a function with the elements of a tuple; a tuple
  is the list of its elements.
\<close>

definition invoke :: "('a list \<Rightarrow> 'r) \<Rightarrow> 'a list \<Rightarrow> 'r" where
  "invoke f args = f args"

definition apply_impl :: "('a list \<Rightarrow> 'r) \<Rightarrow> 'a list \<Rightarrow> nat list \<Rightarrow> 'r" where
  "apply_impl f t I = invoke f (map (\<lambda>i. t ! i) I)"

definition minimal_apply :: "('a list \<Rightarrow> 'r) \<Rightarrow> 'a list \<Rightarrow> 'r" where
  "minimal_apply f t = apply_impl f t [0..<length t]"

lemma minimal_apply_eq [simp]: "minimal_apply f t = f t"
  by (simp add: minimal_apply_def apply_impl_def invoke_def map_nth)

definition fmt_message ::
  "'a platform \<Rightarrow> Severity \<Rightarrow> string \<Rightarrow> 'a list \<Rightarrow> nat \<Rightarrow> 'h logger \<Rightarrow> LogMessage" where
  "fmt_message E Level Format args tid s =
     (let cMsg = (BaseMsg s)\<lparr>SeverityLevel := Level, Timestamp := clock E (Ticks s)\<rparr>;
          cMsg' = (case minimal_apply (fmt E Format) args of
                     Inr t \<Rightarrow> cMsg\<lparr>MessageString := t\<rparr>
                   | Inl what \<Rightarrow> cMsg\<lparr>SeverityLevel := Error, MessageString := format_failed Format what\<rparr>)
      in cMsg'\<lparr>ThreadId := show_thread E tid\<rparr>)"

text \<open>The loop over \<open>Handlers\<close> that calls \<open>addMessage\<close> on the worker thread.\<close>

definition add_to_handlers ::
  "'a platform \<Rightarrow> 'h handler_ops \<Rightarrow> LogMessage \<Rightarrow> nat list \<Rightarrow> (nat \<Rightarrow> 'h) \<Rightarrow> exn + (nat \<Rightarrow> 'h)" where
  "add_to_handlers E H m = fold_result (\<lambda>p st.
     case hop_addMessage H (worker E) m (st p) of Inl e \<Rightarrow> Inl e | Inr h \<Rightarrow> Inr (st(p := h)))"

text \<open>
  \<open>flush\<close>: every handler is flushed by a new thread (\<open>std::async\<close>); the threads are numbered
  from \<open>tid\<close> on, and each works on a handler of its own, so their order does not matter.
\<close>

fun flush_handlers ::
  "'h handler_ops \<Rightarrow> nat \<Rightarrow> nat list \<Rightarrow> (nat \<Rightarrow> 'h) \<Rightarrow> exn + (bool list \<times> (nat \<Rightarrow> 'h))" where
  "flush_handlers H tid [] st = Inr ([], st)"
| "flush_handlers H tid (p # ps) st =
     (case hop_flush H tid (st p) of
        Inl e \<Rightarrow> Inl e
      | Inr (r, h) \<Rightarrow>
          (case flush_handlers H (Suc tid) ps (st(p := h)) of
             Inl e \<Rightarrow> Inl e
           | Inr (rs, st') \<Rightarrow> Inr (r # rs, st')))"

definition flush_value :: "bool list \<Rightarrow> bool" where
  "flush_value FlushResults =
     fold (\<lambda>r ReturnValue. if \<not> r then False else ReturnValue) FlushResults True"

text \<open>\<open>Logger::addLogHandler\<close>: the loop that replaces console handlers.\<close>

fun replace_consoles ::
  "'h handler_ops \<Rightarrow> (nat \<Rightarrow> 'h) \<Rightarrow> nat \<Rightarrow> nat list \<Rightarrow> nat list \<times> bool" where
  "replace_consoles H st Handler [] = ([], False)"
| "replace_consoles H st Handler (ptr # ps) =
     (let (qs, replaced) = replace_consoles H st Handler ps
      in if hop_is_console H (st ptr) then (Handler # qs, True) else (ptr # qs, replaced))"

definition add_or_replace :: "'h handler_ops \<Rightarrow> nat \<Rightarrow> 'h logger \<Rightarrow> 'h logger" where
  "add_or_replace H Handler s =
     (if hop_is_console H (Store s Handler) then
        (let (hs, replaced) = replace_consoles H (Store s) Handler (Handlers s)
         in s\<lparr>Handlers := (if \<not> replaced then hs @ [Handler] else hs)\<rparr>)
      else s\<lparr>Handlers := Handlers s @ [Handler]\<rparr>)"

definition notify_check :: "nat \<Rightarrow> 'h logger \<Rightarrow> 'h logger" where
  "notify_check k s = s\<lparr>Checks := (Checks s)(k := notify_token (Checks s k))\<rparr>"

text \<open>
  The closure of \<open>setMinSeverity\<close> owns a promise that it never sets; it is destroyed with
  the closure, after the call.
\<close>

fun run_base ::
  "'a platform \<Rightarrow> 'h handler_ops \<Rightarrow> 'a base_work \<Rightarrow> 'h logger \<Rightarrow> exn + 'h logger" where
  "run_base E H InitBase s = Inr (s\<lparr>BaseMsg := init_base E (BaseMsg s)\<rparr>)"
| "run_base E H (LogWork Level Message ExtraFields tid) s =
     (case add_to_handlers E H (log_message E Level Message ExtraFields tid s) (Handlers s) (Store s) of
        Inl e \<Rightarrow> Inl e
      | Inr st \<Rightarrow> Inr (s\<lparr>Store := st, Ticks := Suc (Ticks s)\<rparr>))"
| "run_base E H (FmtWork Level Format args tid) s =
     (case add_to_handlers E H (fmt_message E Level Format args tid s) (Handlers s) (Store s) of
        Inl e \<Rightarrow> Inl e
      | Inr st \<Rightarrow> Inr (s\<lparr>Store := st, Ticks := Suc (Ticks s)\<rparr>))"
| "run_base E H (FieldWork Key Value) s = Inr (s\<lparr>BaseMsg := addField Key Value (BaseMsg s)\<rparr>)"
| "run_base E H (PushHandler Handler k) s =
     Inr (notify_check k (s\<lparr>Handlers := Handlers s @ [Handler]\<rparr>))"
| "run_base E H (ReplaceHandler Handler) s = Inr (add_or_replace H Handler s)"
| "run_base E H (ClearHandlers k) s = Inr (notify_check k (s\<lparr>Handlers := []\<rparr>))"
| "run_base E H (StoreSeverity Level k) s =
     Inr (s\<lparr>MinSeverity := Level, Futures := (Futures s)(k := drop_promise (Futures s k))\<rparr>)"
| "run_base E H (FlushHandlers k) s =
     (case flush_handlers H (Threads s) (Handlers s) (Store s) of
        Inl e \<Rightarrow> Inl e
      | Inr (FlushResults, st) \<Rightarrow>
          Inr (s\<lparr>Store := st, Threads := Threads s + length (Handlers s),
               FlushValues := (FlushValues s)(k := Some (flush_value FlushResults)),
               Futures := (Futures s)(k := set_value (Futures s k))\<rparr>))"

section \<open>Operations of the client threads\<close>

type_synonym ('q, 'h) base = "('q, 'h logger) executor"
type_synonym ('q, 'a) base_queue = "('q, 'a base_work task) queue_ops"

definition logger_new :: "(nat \<Rightarrow> 'h) \<Rightarrow> 'h logger" where
  "logger_new st = \<lparr>MinSeverity = Notice, Handlers = [], BaseMsg = LogMessage_default, Store = st,
     Ticks = 0, Threads = 0, Checks = (\<lambda>_. Semaphore), Futures = (\<lambda>_. Unset), FlushValues = (\<lambda>_. None)\<rparr>"

definition LoggingBase :: "('q, 'a) base_queue \<Rightarrow> 'q \<Rightarrow> (nat \<Rightarrow> 'h) \<Rightarrow> nat \<Rightarrow> ('q, 'h) base" where
  "LoggingBase Q empty_queue st thr =
     SendWork Q thr (Work InitBase) (ThreadedExecutor empty_queue (logger_new st))"

definition log_fields ::
  "('q, 'a) base_queue \<Rightarrow> nat \<Rightarrow> Severity \<Rightarrow> string \<Rightarrow> fields \<Rightarrow> ('q, 'h) base \<Rightarrow> ('q, 'h) base" where
  "log_fields Q thr Level Message ExtraFields b =
     (if int_of_severity Level > int_of_severity (MinSeverity (target b)) then b
      else SendWork Q thr (Work (LogWork Level Message ExtraFields thr)) b)"

definition log_plain ::
  "('q, 'a) base_queue \<Rightarrow> nat \<Rightarrow> Severity \<Rightarrow> string \<Rightarrow> ('q, 'h) base \<Rightarrow> ('q, 'h) base" where
  "log_plain Q thr Level Message b = log_fields Q thr Level Message [] b"

definition log_field ::
  "('q, 'a) base_queue \<Rightarrow> nat \<Rightarrow> Severity \<Rightarrow> string \<Rightarrow> string \<times> AdditionalField
     \<Rightarrow> ('q, 'h) base \<Rightarrow> ('q, 'h) base" where
  "log_field Q thr Level Message ExtraField b = log_fields Q thr Level Message [ExtraField] b"

definition fmt_log ::
  "('q, 'a) base_queue \<Rightarrow> nat \<Rightarrow> Severity \<Rightarrow> string \<Rightarrow> 'a list \<Rightarrow> ('q, 'h) base \<Rightarrow> ('q, 'h) base" where
  "fmt_log Q thr Level Format args b =
     (if int_of_severity Level > int_of_severity (MinSeverity (target b)) then b
      else SendWork Q thr (Work (FmtWork Level Format args thr)) b)"

definition base_addField ::
  "('q, 'a) base_queue \<Rightarrow> nat \<Rightarrow> string \<Rightarrow> AdditionalField \<Rightarrow> ('q, 'h) base \<Rightarrow> ('q, 'h) base" where
  "base_addField Q thr Key Value b = SendWork Q thr (Work (FieldWork Key Value)) b"

definition getHandlers :: "('q, 'h) base \<Rightarrow> nat list" where
  "getHandlers b = Handlers (target b)"

text \<open>
  Operations that wait: the worker gets \<open>n\<close> iterations done; \<open>None\<close> says that the caller is
  still waiting then. The number \<open>k\<close> names the semaphore or promise of the call.
\<close>

definition await ::
  "('q, 'a) base_queue \<Rightarrow> 'a platform \<Rightarrow> 'h handler_ops \<Rightarrow> nat \<Rightarrow> ('h logger \<Rightarrow> 'r option)
     \<Rightarrow> ('q, 'h) base \<Rightarrow> exn + ('r option \<times> ('q, 'h) base)" where
  "await Q E H n ready b =
     (case ThreadFunction Q (run_base E H) n b of
        Inl e \<Rightarrow> Inl e
      | Inr b' \<Rightarrow> Inr (ready (target b'), b'))"

definition check_passed :: "nat \<Rightarrow> 'h logger \<Rightarrow> unit option" where
  "check_passed k s = map_option (\<lambda>_. ()) (wait_token (Checks s k))"

definition future_done :: "nat \<Rightarrow> 'h logger \<Rightarrow> unit option" where
  "future_done k s = (if future_ready (Futures s k) then Some () else None)"

definition flush_done :: "nat \<Rightarrow> 'h logger \<Rightarrow> bool option" where
  "flush_done k s = (if future_ready (Futures s k) then FlushValues s k else None)"

definition addLogHandler ::
  "('q, 'a) base_queue \<Rightarrow> 'a platform \<Rightarrow> 'h handler_ops \<Rightarrow> nat \<Rightarrow> nat \<Rightarrow> nat \<Rightarrow> nat
     \<Rightarrow> ('q, 'h) base \<Rightarrow> exn + (unit option \<times> ('q, 'h) base)" where
  "addLogHandler Q E H thr k n Handler b =
     await Q E H n (check_passed k) (SendWork Q thr (Work (PushHandler Handler k)) b)"

definition removeAllHandlers ::
  "('q, 'a) base_queue \<Rightarrow> 'a platform \<Rightarrow> 'h handler_ops \<Rightarrow> nat \<Rightarrow> nat \<Rightarrow> nat
     \<Rightarrow> ('q, 'h) base \<Rightarrow> exn + (unit option \<times> ('q, 'h) base)" where
  "removeAllHandlers Q E H thr k n b =
     await Q E H n (check_passed k) (SendWork Q thr (Work (ClearHandlers k)) b)"

definition setMinSeverity ::
  "('q, 'a) base_queue \<Rightarrow> 'a platform \<Rightarrow> 'h handler_ops \<Rightarrow> nat \<Rightarrow> nat \<Rightarrow> nat \<Rightarrow> Severity
     \<Rightarrow> ('q, 'h) base \<Rightarrow> exn + (unit option \<times> ('q, 'h) base)" where
  "setMinSeverity Q E H thr k n Level b =
     await Q E H n (future_done k) (SendWork Q thr (Work (StoreSeverity Level k)) b)"

definition base_flush ::
  "('q, 'a) base_queue \<Rightarrow> 'a platform \<Rightarrow> 'h handler_ops \<Rightarrow> nat \<Rightarrow> nat \<Rightarrow> nat
     \<Rightarrow> ('q, 'h) base \<Rightarrow> exn + (bool option \<times> ('q, 'h) base)" where
  "base_flush Q E H thr k n b =
     await Q E H n (flush_done k) (SendWork Q thr (Work (FlushHandlers k)) b)"

text \<open>
  \<open>~LoggingBase\<close>: remove the handlers, then (member destructor) stop the executor; the worker
  gets \<open>n\<close> and then \<open>m\<close> iterations done.
\<close>

definition destroy_LoggingBase ::
  "('q, 'a) base_queue \<Rightarrow> 'a platform \<Rightarrow> 'h handler_ops \<Rightarrow> nat \<Rightarrow> nat \<Rightarrow> nat \<Rightarrow> nat
     \<Rightarrow> ('q, 'h) base \<Rightarrow> exn + (unit option \<times> ('q, 'h) base)" where
  "destroy_LoggingBase Q E H thr k n m b =
     (case removeAllHandlers Q E H thr k n b of
        Inl e \<Rightarrow> Inl e
      | Inr (None, b') \<Rightarrow> Inr (None, b')
      | Inr (Some u, b') \<Rightarrow>
          (case ThreadFunction Q (run_base E H) m (destroy_send Q thr b') of
             Inl e \<Rightarrow> Inl e
           | Inr b'' \<Rightarrow> Inr (if RunThread b'' then None else Some u, b'')))"

end
