(* ===== verification/Logging_Sync.thy ===== *)
theory Logging_Sync
  imports Logging_Base
begin

text \<open>
  The abstract specification of \<open>LoggingBase\<close> for one client thread: a logger that executes
  every call at once. The asynchronous logger, with its queue and worker, refines it; what is
  still queued accounts for the difference. Also the effects of the closures one by one.
\<close>

section \<open>Effects of the closures\<close>

fun promise_of :: "'a base_work \<Rightarrow> nat option" where
  "promise_of (StoreSeverity Level k) = Some k"
| "promise_of (FlushHandlers k) = Some k"
| "promise_of _ = None"

fun check_of :: "'a base_work \<Rightarrow> nat option" where
  "check_of (PushHandler Handler k) = Some k"
| "check_of (ClearHandlers k) = Some k"
| "check_of _ = None"

fun is_store :: "'a base_work \<Rightarrow> bool" where
  "is_store (StoreSeverity Level k) = True"
| "is_store _ = False"

lemma run_base_futures:
  "run_base E H w s = Inr s' \<Longrightarrow> promise_of w \<noteq> Some j \<Longrightarrow> Futures s' j = Futures s j"
  by (cases w) (auto simp: notify_check_def add_or_replace_def Let_def split: sum.splits prod.splits if_splits)

lemma run_base_checks:
  "run_base E H w s = Inr s' \<Longrightarrow> check_of w \<noteq> Some j \<Longrightarrow> Checks s' j = Checks s j"
  by (cases w) (auto simp: notify_check_def add_or_replace_def Let_def split: sum.splits prod.splits if_splits)

lemma run_base_min:
  "run_base E H w s = Inr s' \<Longrightarrow> \<not> is_store w \<Longrightarrow> MinSeverity s' = MinSeverity s"
  by (cases w) (auto simp: notify_check_def add_or_replace_def Let_def split: sum.splits prod.splits if_splits)

lemma fold_futures:
  "fold_result (run_base E H) ws s = Inr s' \<Longrightarrow> Some j \<notin> promise_of ` set ws \<Longrightarrow> Futures s' j = Futures s j"
proof (induction ws arbitrary: s)
  case (Cons w ws)
  then show ?case by (cases "run_base E H w s") (auto dest: run_base_futures [of E H w s _ j])
qed simp

lemma fold_checks:
  "fold_result (run_base E H) ws s = Inr s' \<Longrightarrow> Some j \<notin> check_of ` set ws \<Longrightarrow> Checks s' j = Checks s j"
proof (induction ws arbitrary: s)
  case (Cons w ws)
  then show ?case by (cases "run_base E H w s") (auto dest: run_base_checks [of E H w s _ j])
qed simp

lemma fold_min:
  "fold_result (run_base E H) ws s = Inr s' \<Longrightarrow> list_all (\<lambda>w. \<not> is_store w) ws
    \<Longrightarrow> MinSeverity s' = MinSeverity s"
proof (induction ws arbitrary: s)
  case (Cons w ws)
  then show ?case by (auto split: sum.splits dest: run_base_min)
qed simp

lemma add_to_handlers_distinct:
  assumes "add_to_handlers E H m ps st = Inr st'" and "distinct ps"
  shows "(p \<in> set ps \<longrightarrow> hop_addMessage H (worker E) m (st p) = Inr (st' p)) \<and>
    (p \<notin> set ps \<longrightarrow> st' p = st p)"
  using assms
proof (induction ps arbitrary: st)
  case Nil
  then show ?case by (simp add: add_to_handlers_def)
next
  case (Cons q ps)
  from Cons.prems(1) obtain h where h: "hop_addMessage H (worker E) m (st q) = Inr h"
    "add_to_handlers E H m ps (st(q := h)) = Inr st'"
    by (auto simp: add_to_handlers_def split: sum.splits)
  from Cons.IH [OF h(2)] Cons.prems(2) h(1) show ?case by (auto split: if_splits)
qed

lemma flush_handlers_all:
  assumes "flush_handlers H tid ps st = Inr (rs, st')" and "distinct ps"
  shows "length rs = length ps \<and>
    (\<forall>i < length ps. hop_flush H (tid + i) (st (ps ! i)) = Inr (rs ! i, st' (ps ! i))) \<and>
    (\<forall>p. p \<notin> set ps \<longrightarrow> st' p = st p)"
  using assms
proof (induction ps arbitrary: tid st rs)
  case Nil
  then show ?case by simp
next
  case (Cons p ps)
  from Cons.prems(1) obtain r h rs1 where r: "hop_flush H tid (st p) = Inr (r, h)"
    "flush_handlers H (Suc tid) ps (st(p := h)) = Inr (rs1, st')" "rs = r # rs1"
    by (auto split: sum.splits prod.splits)
  note IH = Cons.IH [OF r(2)]
  have np: "p \<notin> set ps" using Cons.prems(2) by simp
  have "hop_flush H (tid + i) (st ((p # ps) ! i)) = Inr ((r # rs1) ! i, st' ((p # ps) ! i))"
    if "i < length (p # ps)" for i
  proof (cases i)
    case 0
    with r(1) IH np Cons.prems(2) show ?thesis by simp
  next
    case (Suc j)
    with that have j: "j < length ps" by simp
    then have "ps ! j \<noteq> p" using np by (metis nth_mem)
    with IH Cons.prems(2) j Suc show ?thesis by (auto dest: spec [of _ j])
  qed
  with IH Cons.prems(2) r(3) np show ?case by auto
qed

lemma flush_value_all: "flush_value rs = list_all (\<lambda>r. r) rs"
proof -
  have "fold (\<lambda>r v. if \<not> r then False else v) rs v \<longleftrightarrow> v \<and> list_all (\<lambda>r. r) rs" for v
    by (induction rs arbitrary: v) auto
  then show ?thesis by (simp add: flush_value_def)
qed

section \<open>The synchronous logger\<close>

datatype 'a call =
    CLog Severity string fields
  | CFmt Severity string "'a list"
  | CField string AdditionalField
  | CAdd nat
  | CAddOrReplace nat
  | CClear
  | CMin Severity
  | CFlush

text \<open>The closures that a call of thread \<open>thr\<close> creates under the minimum severity \<open>min_sev\<close>.\<close>

fun closures :: "nat \<Rightarrow> nat \<Rightarrow> Severity \<Rightarrow> 'a call \<Rightarrow> 'a base_work list" where
  "closures thr k min_sev (CLog Level Message ExtraFields) =
     (if Level \<le> min_sev then [LogWork Level Message ExtraFields thr] else [])"
| "closures thr k min_sev (CFmt Level Format args) =
     (if Level \<le> min_sev then [FmtWork Level Format args thr] else [])"
| "closures thr k min_sev (CField Key Value) = [FieldWork Key Value]"
| "closures thr k min_sev (CAdd Handler) = [PushHandler Handler k]"
| "closures thr k min_sev (CAddOrReplace Handler) = [ReplaceHandler Handler]"
| "closures thr k min_sev CClear = [ClearHandlers k]"
| "closures thr k min_sev (CMin Level) = [StoreSeverity Level k]"
| "closures thr k min_sev CFlush = [FlushHandlers k]"

definition sync_call ::
  "'a platform \<Rightarrow> 'h handler_ops \<Rightarrow> nat \<Rightarrow> nat \<Rightarrow> 'a call \<Rightarrow> 'h logger \<Rightarrow> exn + 'h logger" where
  "sync_call E H thr k c s = fold_result (run_base E H) (closures thr k (MinSeverity s) c) s"

fun sync_session ::
  "'a platform \<Rightarrow> 'h handler_ops \<Rightarrow> nat \<Rightarrow> nat \<Rightarrow> 'a call list \<Rightarrow> 'h logger \<Rightarrow> exn + 'h logger" where
  "sync_session E H thr k [] s = Inr s"
| "sync_session E H thr k (c # cs) s =
     (case sync_call E H thr k c s of
        Inl e \<Rightarrow> Inl e
      | Inr s' \<Rightarrow> sync_session E H thr (Suc k) cs s')"

section \<open>Sessions of the asynchronous logger\<close>

text \<open>
  \<open>Logger::addLogHandler\<close> does not wait. After a call that does not wait, the worker gets \<open>n\<close>
  iterations done before the next call. The result says whether the call has returned.
\<close>

definition Logger_addLogHandler ::
  "('q, 'a) base_queue \<Rightarrow> nat \<Rightarrow> nat \<Rightarrow> ('q, 'h) base \<Rightarrow> ('q, 'h) base" where
  "Logger_addLogHandler Q thr Handler b = SendWork Q thr (Work (ReplaceHandler Handler)) b"

definition waits :: "exn + ('r option \<times> 'b) \<Rightarrow> exn + (bool \<times> 'b)" where
  "waits r = (case r of Inl e \<Rightarrow> Inl e | Inr (v, b) \<Rightarrow> Inr (v \<noteq> None, b))"

fun perform ::
  "('q, 'a) base_queue \<Rightarrow> 'a platform \<Rightarrow> 'h handler_ops \<Rightarrow> nat \<Rightarrow> nat \<Rightarrow> nat \<Rightarrow> 'a call
     \<Rightarrow> ('q, 'h) base \<Rightarrow> exn + (bool \<times> ('q, 'h) base)" where
  "perform Q E H thr k n (CLog Level Message ExtraFields) b =
     waits (await Q E H n Some (log_fields Q thr Level Message ExtraFields b))"
| "perform Q E H thr k n (CFmt Level Format args) b =
     waits (await Q E H n Some (fmt_log Q thr Level Format args b))"
| "perform Q E H thr k n (CField Key Value) b =
     waits (await Q E H n Some (base_addField Q thr Key Value b))"
| "perform Q E H thr k n (CAdd Handler) b = waits (addLogHandler Q E H thr k n Handler b)"
| "perform Q E H thr k n (CAddOrReplace Handler) b =
     waits (await Q E H n Some (Logger_addLogHandler Q thr Handler b))"
| "perform Q E H thr k n CClear b = waits (removeAllHandlers Q E H thr k n b)"
| "perform Q E H thr k n (CMin Level) b = waits (setMinSeverity Q E H thr k n Level b)"
| "perform Q E H thr k n CFlush b = waits (base_flush Q E H thr k n b)"

fun session ::
  "('q, 'a) base_queue \<Rightarrow> 'a platform \<Rightarrow> 'h handler_ops \<Rightarrow> nat \<Rightarrow> nat \<Rightarrow> ('a call \<times> nat) list
     \<Rightarrow> ('q, 'h) base \<Rightarrow> exn + (bool \<times> ('q, 'h) base)" where
  "session Q E H thr k [] b = Inr (True, b)"
| "session Q E H thr k ((c, n) # cs) b =
     (case perform Q E H thr k n c b of
        Inl e \<Rightarrow> Inl e
      | Inr (returned, b') \<Rightarrow>
          (if returned then session Q E H thr (Suc k) cs b' else Inr (False, b')))"

section \<open>Simulation\<close>

text \<open>
  The asynchronous logger with queued closures \<open>ws\<close> represents the synchronous one that has
  already run them. No minimum severity is queued, since \<open>setMinSeverity\<close> waits.
\<close>

definition sim ::
  "('q \<Rightarrow> nat \<Rightarrow> 'a base_work task list) \<Rightarrow> 'a platform \<Rightarrow> 'h handler_ops \<Rightarrow> nat \<Rightarrow> nat
     \<Rightarrow> ('q, 'h) base \<Rightarrow> 'h logger \<Rightarrow> bool" where
  "sim pend E H thr k b a \<longleftrightarrow> RunThread b
     \<and> (\<exists>ws. pend (MessageQueue b) = (\<lambda>_. [])(thr := map Work ws)
          \<and> fold_result (run_base E H) ws (target b) = Inr a
          \<and> list_all (\<lambda>w. \<not> is_store w) ws
          \<and> (\<forall>j \<ge> k. Futures (target b) j = Unset \<and> Some j \<notin> promise_of ` set ws))"

lemma sim_min:
  assumes "sim pend E H thr k b a"
  shows "MinSeverity (target b) = MinSeverity a"
  using assms unfolding sim_def by (auto dest: fold_min)

text \<open>After \<open>n\<close> iterations of the worker a suffix of the queued closures is left.\<close>

lemma sim_run:
  assumes "queue_contract Q pend" and "RunThread b"
    and "pend (MessageQueue b) = (\<lambda>_. [])(thr := map Work ws)"
    and "fold_result (run_base E H) ws (target b) = Inr a"
  obtains us vs b' where "ThreadFunction Q (run_base E H) n b = Inr b'" "RunThread b'" "ws = us @ vs"
    "pend (MessageQueue b') = (\<lambda>_. [])(thr := map Work vs)"
    "fold_result (run_base E H) us (target b) = Inr (target b')"
    "fold_result (run_base E H) vs (target b') = Inr a"
proof -
  from single_producer_run [OF assms, of n] obtain i b' where
    i: "ThreadFunction Q (run_base E H) n b = Inr b'" "RunThread b'"
    "fold_result (run_base E H) (take i ws) (target b) = Inr (target b')"
    "pend (MessageQueue b') = (\<lambda>_. [])(thr := map Work (drop i ws))" by blast
  have "fold_result (run_base E H) (take i ws @ drop i ws) (target b) = Inr a" using assms(4) by simp
  with i(3) have "fold_result (run_base E H) (drop i ws) (target b') = Inr a"
    by (simp only: fold_result_append sum.case)
  with i show ?thesis by (intro that [of b' "take i ws" "drop i ws"]) simp_all
qed

lemma send_pending:
  assumes "queue_contract Q pend" and "pend (MessageQueue b) = (\<lambda>_. [])(thr := map Work ws)"
  shows "pend (MessageQueue (SendWork Q thr (Work w) b)) = (\<lambda>_. [])(thr := map Work (ws @ [w]))"
    and "target (SendWork Q thr (Work w) b) = target b"
    and "RunThread (SendWork Q thr (Work w) b) = RunThread b"
proof -
  have "pend (MessageQueue (SendWork Q thr (Work w) b)) =
      (pend (MessageQueue b))(thr := pend (MessageQueue b) thr @ [Work w])"
    by (simp add: SendWork_def contract_enqueue [OF assms(1)])
  then show "pend (MessageQueue (SendWork Q thr (Work w) b)) = (\<lambda>_. [])(thr := map Work (ws @ [w]))"
    unfolding assms(2) by simp
qed (simp_all add: SendWork_def)

section \<open>The refinement\<close>

definition send_all ::
  "('q, 'a) base_queue \<Rightarrow> nat \<Rightarrow> 'a base_work list \<Rightarrow> ('q, 'h) base \<Rightarrow> ('q, 'h) base" where
  "send_all Q thr ws b = fold (\<lambda>w. SendWork Q thr (Work w)) ws b"

text \<open>When a call has returned, in terms of the state of the logger.\<close>

fun returned :: "nat \<Rightarrow> 'a call \<Rightarrow> 'h logger \<Rightarrow> bool" where
  "returned k (CAdd Handler) s = (check_passed k s \<noteq> None)"
| "returned k CClear s = (check_passed k s \<noteq> None)"
| "returned k (CMin Level) s = (future_done k s \<noteq> None)"
| "returned k CFlush s = (flush_done k s \<noteq> None)"
| "returned k _ s = True"

lemma perform_eq:
  "perform Q E H thr k n c b =
     (case ThreadFunction Q (run_base E H) n (send_all Q thr (closures thr k (MinSeverity (target b)) c) b) of
        Inl e \<Rightarrow> Inl e
      | Inr b' \<Rightarrow> Inr (returned k c (target b'), b'))"
  by (cases c)
    (auto simp: send_all_def waits_def await_def log_fields_def fmt_log_def base_addField_def
      addLogHandler_def Logger_addLogHandler_def removeAllHandlers_def setMinSeverity_def
      base_flush_def less_eq_Severity_def split: sum.splits)

lemma send_all_pending:
  assumes "queue_contract Q pend" and "pend (MessageQueue b) = (\<lambda>_. [])(thr := map Work ws)"
  shows "pend (MessageQueue (send_all Q thr cl b)) = (\<lambda>_. [])(thr := map Work (ws @ cl))"
    and "target (send_all Q thr cl b) = target b"
    and "RunThread (send_all Q thr cl b) = RunThread b"
  using assms(2)
proof (induction cl arbitrary: b ws)
  case Nil
  { case 1 then show ?case by (simp only: send_all_def fold_simps id_apply append_Nil2) }
  { case 2 then show ?case by (simp add: send_all_def) }
  { case 3 then show ?case by (simp add: send_all_def) }
next
  case (Cons w cl)
  note sent = send_pending [OF assms(1)]
  have eq: "send_all Q thr (w # cl) b = send_all Q thr cl (SendWork Q thr (Work w) b)" for b :: "('a, 'd) base"
    by (simp add: send_all_def)
  { case 1 from Cons.IH(1) [OF sent(1) [OF 1]] show ?case unfolding eq by (simp only: append.assoc append.simps) }
  { case 2 from Cons.IH(2) [OF sent(1) [OF 2]] sent(2) [OF 2] show ?case unfolding eq by simp }
  { case 3 from Cons.IH(3) [OF sent(1) [OF 3]] sent(3) [OF 3] show ?case unfolding eq by simp }
qed

lemma closures_promise:
  "w \<in> set (closures thr k m c) \<Longrightarrow> promise_of w = Some j \<Longrightarrow> j = k"
  by (cases c) (auto split: if_splits)

lemma closures_store:
  "w \<in> set (closures thr k m c) \<Longrightarrow> is_store w \<Longrightarrow> \<exists>Level. c = CMin Level"
  by (cases c) (auto split: if_splits)

text \<open>
  A returned call leaves no minimum severity in the queue: the future of \<open>setMinSeverity\<close>
  becomes ready only when its closure, the last one queued, has run.
\<close>

lemma no_store_left:
  assumes "list_all (\<lambda>w. \<not> is_store w) ws"
    and "\<forall>j \<ge> k. Futures s j = Unset \<and> Some j \<notin> promise_of ` set ws"
    and "ws @ closures thr k m c = us @ vs" and "fold_result (run_base E H) us s = Inr s'"
    and "returned k c s'"
  shows "list_all (\<lambda>w. \<not> is_store w) vs"
proof (cases "\<exists>Level. c = CMin Level")
  case False
  have "\<not> is_store w" if "w \<in> set (ws @ closures thr k m c)" for w
    using that assms(1) closures_store [of w thr k m c] False by (auto simp: list_all_iff)
  then show ?thesis unfolding assms(3) by (simp add: list_all_iff)
next
  case True
  then obtain Level where c: "c = CMin Level" by blast
  have "Futures s' k \<noteq> Unset"
    using assms(5) c by (auto simp: future_done_def split: if_splits)
  then have "Some k \<in> promise_of ` set us"
    using fold_futures [OF assms(4), of k] assms(2) by fastforce
  moreover have "Some k \<notin> promise_of ` set ws" using assms(2) by simp
  ultimately have "vs = []"
    using assms(3) c by (cases vs rule: rev_cases) (auto simp: append_eq_append_conv2 Cons_eq_append_conv
        append_eq_Cons_conv)
  then show ?thesis by simp
qed

lemma perform_sim:
  assumes "queue_contract Q pend" and "sim pend E H thr k b a" and "sync_call E H thr k c a = Inr a'"
  shows "\<exists>r b'. perform Q E H thr k n c b = Inr (r, b') \<and> (r \<longrightarrow> sim pend E H thr (Suc k) b' a')"
proof -
  let ?cl = "closures thr k (MinSeverity (target b)) c"
  obtain ws where ws: "RunThread b" "pend (MessageQueue b) = (\<lambda>_. [])(thr := map Work ws)"
    "fold_result (run_base E H) ws (target b) = Inr a" "list_all (\<lambda>w. \<not> is_store w) ws"
    "\<forall>j \<ge> k. Futures (target b) j = Unset \<and> Some j \<notin> promise_of ` set ws"
    using assms(2) by (auto simp: sim_def)
  have cl: "fold_result (run_base E H) ?cl a = Inr a'"
    using assms(3) sim_min [OF assms(2)] by (simp add: sync_call_def)
  let ?b = "send_all Q thr ?cl b"
  note sent = send_all_pending [OF assms(1) ws(2), of ?cl]
  have "fold_result (run_base E H) (ws @ ?cl) (target ?b) = Inr a'"
    using ws(3) cl by (simp add: fold_result_append sent(2))
  have "RunThread ?b" using ws(1) sent(3) by simp
  note run = sim_run [OF assms(1) this sent(1) \<open>fold_result _ (ws @ ?cl) _ = _\<close>, unfolded sent(2)]
  obtain us vs b' where b': "ThreadFunction Q (run_base E H) n ?b = Inr b'" "RunThread b'" "ws @ ?cl = us @ vs"
    "pend (MessageQueue b') = (\<lambda>_. [])(thr := map Work vs)"
    "fold_result (run_base E H) us (target b) = Inr (target b')"
    "fold_result (run_base E H) vs (target b') = Inr a'"
    by (rule run [where n = n])
  have pr: "perform Q E H thr k n c b = Inr (returned k c (target b'), b')"
    using b'(1) by (simp add: perform_eq)
  have fresh: "Some j \<notin> promise_of ` set (us @ vs)" if "j \<ge> Suc k" for j
  proof
    assume "Some j \<in> promise_of ` set (us @ vs)"
    then obtain w where w: "w \<in> set (ws @ ?cl)" "promise_of w = Some j"
      unfolding b'(3) [symmetric] by (metis imageE)
    have "w \<notin> set ws" using w(2) ws(5) that by (metis Suc_leD image_eqI)
    with w closures_promise [of w thr k "MinSeverity (target b)" c j] that show False by simp
  qed
  have "sim pend E H thr (Suc k) b' a'" if r: "returned k c (target b')"
  proof -
    have "Futures (target b') j = Unset \<and> Some j \<notin> promise_of ` set vs" if "j \<ge> Suc k" for j
    proof -
      have "Futures (target b') j = Futures (target b) j"
        using fold_futures [OF b'(5), of j] fresh [OF that] by auto
      with ws(5) that fresh [OF that] show ?thesis by auto
    qed
    with b' no_store_left [OF ws(4,5) b'(3,5) r] show ?thesis unfolding sim_def by blast
  qed
  with pr show ?thesis by blast
qed

lemma session_sim:
  assumes "queue_contract Q pend" and "sim pend E H thr k b a"
    and "sync_session E H thr k (map fst cs) a = Inr a'"
  shows "\<exists>r b'. session Q E H thr k cs b = Inr (r, b') \<and>
    (r \<longrightarrow> sim pend E H thr (k + length cs) b' a')"
  using assms(2,3)
proof (induction cs arbitrary: k b a)
  case Nil
  then show ?case by (intro exI [of _ True] exI [of _ b]) simp
next
  case (Cons x cs)
  obtain c n where x: "x = (c, n)" by (cases x)
  from Cons.prems(2) x obtain a1 where a1: "sync_call E H thr k c a = Inr a1"
    "sync_session E H thr (Suc k) (map fst cs) a1 = Inr a'" by (auto split: sum.splits)
  obtain r b1 where b1: "perform Q E H thr k n c b = Inr (r, b1)" "r \<longrightarrow> sim pend E H thr (Suc k) b1 a1"
    using perform_sim [OF assms(1) Cons.prems(1) a1(1)] by blast
  show ?case
  proof (cases r)
    case True
    with b1 Cons.IH [OF _ a1(2), of b1] x show ?thesis by auto
  next
    case False
    with b1(1) x show ?thesis by (intro exI [of _ False] exI [of _ b1]) simp
  qed
qed

text \<open>The constructed logger, with its first closure queued.\<close>

definition logger_init :: "'a platform \<Rightarrow> (nat \<Rightarrow> 'h) \<Rightarrow> 'h logger" where
  "logger_init E st = (logger_new st)\<lparr>BaseMsg := init_base E LogMessage_default\<rparr>"

lemma LoggingBase_sim:
  assumes "queue_contract Q pend" and "pend q0 = (\<lambda>_. [])"
  shows "sim pend E H thr 0 (LoggingBase Q q0 st thr) (logger_init E st)"
proof -
  have "pend (MessageQueue (ThreadedExecutor q0 (logger_new st))) = (\<lambda>_. [])(thr := map Work [])"
    using assms(2) by (simp add: ThreadedExecutor_def fun_upd_idem)
  note sent = send_pending [OF assms(1) this, of InitBase]
  show ?thesis
    unfolding sim_def LoggingBase_def sent(2,3)
    by (intro conjI exI [of _ "[InitBase]"])
      (use sent(1) in \<open>auto simp: ThreadedExecutor_def logger_init_def logger_new_def\<close>)
qed

section \<open>Contents of messages and destruction\<close>

lemma closures_check:
  "w \<in> set (closures thr k m c) \<Longrightarrow> check_of w = Some j \<Longrightarrow> j = k"
  by (cases c) (auto split: if_splits)

lemma sync_session_checks:
  "sync_session E H thr k cs s = Inr s' \<Longrightarrow> k + length cs \<le> j \<Longrightarrow> Checks s' j = Checks s j"
proof (induction cs arbitrary: k s)
  case (Cons c cs)
  then obtain s1 where s1: "sync_call E H thr k c s = Inr s1" "sync_session E H thr (Suc k) cs s1 = Inr s'"
    by (auto split: sum.splits)
  have "Some j \<notin> check_of ` set (closures thr k (MinSeverity s) c)"
    using closures_check [of _ thr k "MinSeverity s" c j] Cons.prems(2) by force
  then have "Checks s1 j = Checks s j" using s1(1) fold_checks unfolding sync_call_def by blast
  with Cons.IH [OF s1(2)] Cons.prems(2) show ?case by simp
qed simp

lemma addFields_map:
  assumes "fields_fit (length fs) m"
  shows "map_of (AdditionalFields (addFields fs m)) = map_of (AdditionalFields m) ++ map_of (rev fs)"
  using assms by (simp add: addFields_updates updates_conv' map_upds_def zip_map_fst_snd)

lemma log_message_parts:
  "MessageString (log_message E Level Message fs tid s) = Message"
  "SeverityLevel (log_message E Level Message fs tid s) = Level"
  "Timestamp (log_message E Level Message fs tid s) = clock E (Ticks s)"
  "ThreadId (log_message E Level Message fs tid s) = show_thread E tid"
  "Host (log_message E Level Message fs tid s) = Host (BaseMsg s)"
  "ProcessId (log_message E Level Message fs tid s) = ProcessId (BaseMsg s)"
  "ProcessName (log_message E Level Message fs tid s) = ProcessName (BaseMsg s)"
  "AdditionalFields (log_message E Level Message fs tid s) = AdditionalFields (addFields fs (BaseMsg s))"
  by (simp_all add: log_message_def)

text \<open>The destructor after a session of the only client thread.\<close>

lemma shutdown_delivers:
  assumes "queue_contract Q pend" and "queue_live Q pend" and "pend q0 = (\<lambda>_. [])"
    and "sync_session E H thr 0 (map fst cs) (logger_init E st) = Inr a"
    and "session Q E H thr 0 cs (LoggingBase Q q0 st thr) = Inr (True, b)"
  shows "\<exists>n m b'. destroy_LoggingBase Q E H thr (length cs) n m b = Inr (Some (), b')
    \<and> \<not> RunThread b' \<and> Store (target b') = Store a \<and> Handlers (target b') = []"
proof -
  let ?k = "length cs"
  have "sim pend E H thr (0 + ?k) b a"
    using session_sim [OF assms(1) LoggingBase_sim [OF assms(1,3)] assms(4)] assms(5) by auto
  then obtain ws where ws: "RunThread b" "pend (MessageQueue b) = (\<lambda>_. [])(thr := map Work ws)"
    "fold_result (run_base E H) ws (target b) = Inr a" by (auto simp: sim_def)
  let ?a = "notify_check ?k (a\<lparr>Handlers := []\<rparr>)" and ?b = "SendWork Q thr (Work (ClearHandlers ?k)) b"
  note sent = send_pending [OF assms(1) ws(2), of "ClearHandlers ?k"]
  have fold: "fold_result (run_base E H) (ws @ [ClearHandlers ?k]) (target ?b) = Inr ?a"
    using ws(3) by (simp add: sent(2) fold_result_append)
  have "RunThread ?b" using ws(1) sent(3) by simp
  from single_producer_drains [OF assms(1,2) this sent(1) fold]
  obtain n b1 where b1: "ThreadFunction Q (run_base E H) n ?b = Inr b1" "RunThread b1"
    "target b1 = ?a" "pend (MessageQueue b1) = (\<lambda>_. [])" by blast
  have "Checks a ?k = Semaphore"
    using sync_session_checks [OF assms(4), of ?k] by (simp add: logger_init_def logger_new_def)
  then have passed: "check_passed ?k (target b1) = Some ()"
    by (simp add: b1(3) check_passed_def notify_check_def notify_token_def wait_token_def Semaphore_def)
  have "pend (MessageQueue b1) = (\<lambda>_. [])(thr := map Work [])" using b1(4) by (simp add: fun_upd_idem)
  from single_thread_destroyed [OF assms(1,2) b1(2) this, of "run_base E H"]
  obtain m b' where "ThreadFunction Q (run_base E H) m (destroy_send Q thr b1) = Inr b'"
    "\<not> RunThread b'" "target b' = ?a" by (auto simp: b1(3))
  with b1 passed show ?thesis
    by (intro exI [of _ n] exI [of _ m] exI [of _ b'])
      (simp add: destroy_LoggingBase_def removeAllHandlers_def await_def notify_check_def)
qed

section \<open>Waiting calls return\<close>

lemma sim_worker:
  assumes "queue_contract Q pend" and "sim pend E H thr k b a"
  shows "\<exists>b'. ThreadFunction Q (run_base E H) n b = Inr b' \<and> sim pend E H thr k b' a
    \<and> (pend (MessageQueue b) = (\<lambda>_. []) \<longrightarrow> target b' = a \<and> pend (MessageQueue b') = (\<lambda>_. []))"
proof -
  obtain ws where ws: "RunThread b" "pend (MessageQueue b) = (\<lambda>_. [])(thr := map Work ws)"
    "fold_result (run_base E H) ws (target b) = Inr a" "list_all (\<lambda>w. \<not> is_store w) ws"
    "\<forall>j \<ge> k. Futures (target b) j = Unset \<and> Some j \<notin> promise_of ` set ws"
    using assms(2) by (auto simp: sim_def)
  obtain us vs b' where b': "ThreadFunction Q (run_base E H) n b = Inr b'" "RunThread b'" "ws = us @ vs"
    "pend (MessageQueue b') = (\<lambda>_. [])(thr := map Work vs)"
    "fold_result (run_base E H) us (target b) = Inr (target b')"
    "fold_result (run_base E H) vs (target b') = Inr a"
    by (rule sim_run [OF assms(1) ws(1-3), where n = n])
  have "Futures (target b') j = Unset \<and> Some j \<notin> promise_of ` set vs" if "j \<ge> k" for j
    using fold_futures [OF b'(5), of j] ws(5) b'(3) that by auto
  moreover have "list_all (\<lambda>w. \<not> is_store w) vs" using ws(4) b'(3) by simp
  ultimately have "sim pend E H thr k b' a" using b' unfolding sim_def by blast
  moreover have "target b' = a \<and> pend (MessageQueue b') = (\<lambda>_. [])" if "pend (MessageQueue b) = (\<lambda>_. [])"
  proof -
    have "ws = []" using that ws(2) by (metis fun_upd_same map_is_Nil_conv)
    with b'(3,4,6) show ?thesis by (simp add: fun_upd_idem)
  qed
  ultimately show ?thesis using b'(1) by blast
qed

text \<open>A call returns when everything queued has run.\<close>

lemma returned_sync:
  assumes "sync_call E H thr k c a = Inr a'" and "Checks a k = Semaphore"
  shows "returned k c a'"
  using assms
  by (cases c) (auto simp: sync_call_def check_passed_def future_done_def flush_done_def notify_check_def
      notify_token_def wait_token_def Semaphore_def split: sum.splits prod.splits)

text \<open>Whatever the worker got done in the calls so far, with more iterations every call returns.\<close>

lemma call_can_return:
  assumes "queue_contract Q pend" and "queue_live Q pend" and "sim pend E H thr k b a"
    and "Checks a k = Semaphore" and "sync_call E H thr k c a = Inr a'"
  shows "\<exists>m b'. n \<le> m \<and> perform Q E H thr k m c b = Inr (True, b') \<and> sim pend E H thr (Suc k) b' a'"
proof -
  obtain ws where ws: "RunThread b" "pend (MessageQueue b) = (\<lambda>_. [])(thr := map Work ws)"
    "fold_result (run_base E H) ws (target b) = Inr a"
    using assms(3) by (auto simp: sim_def)
  let ?cl = "closures thr k (MinSeverity (target b)) c"
  note sent = send_all_pending [OF assms(1) ws(2), of ?cl]
  have "fold_result (run_base E H) (ws @ ?cl) (target (send_all Q thr ?cl b)) = Inr a'"
    using ws(3) assms(5) sim_min [OF assms(3)] unfolding sent(2)
    by (simp add: fold_result_append sync_call_def)
  moreover have "RunThread (send_all Q thr ?cl b)" using ws(1) sent(3) by simp
  ultimately obtain i b1 where b1: "ThreadFunction Q (run_base E H) i (send_all Q thr ?cl b) = Inr b1"
    "target b1 = a'" "pend (MessageQueue b1) = (\<lambda>_. [])"
    using single_producer_drains [OF assms(1,2) _ sent(1)] by metis
  have "perform Q E H thr k i c b = Inr (True, b1)"
    using returned_sync [OF assms(5,4)] b1(1,2) by (simp add: perform_eq)
  then have "sim pend E H thr (Suc k) b1 a'" using perform_sim [OF assms(1,3,5), of i] by auto
  from sim_worker [OF assms(1) this, of n] b1(3) obtain b' where
    b': "ThreadFunction Q (run_base E H) n b1 = Inr b'" "sim pend E H thr (Suc k) b' a'" "target b' = a'"
    by blast
  have "ThreadFunction Q (run_base E H) (i + n) (send_all Q thr ?cl b) = Inr b'"
    using b1(1) b'(1) by (simp add: ThreadFunction_add)
  then have "perform Q E H thr k (i + n) c b = Inr (True, b')"
    using returned_sync [OF assms(5,4)] b'(3) by (simp add: perform_eq)
  with b'(2) show ?thesis by (intro exI [of _ "i + n"]) auto
qed

lemma session_can_return:
  assumes "queue_contract Q pend" and "queue_live Q pend"
    and "sim pend E H thr k b a" and "\<forall>j \<ge> k. Checks a j = Semaphore"
    and "sync_session E H thr k (map fst cs) a = Inr a'"
  shows "\<exists>ms b'. length ms = length cs \<and> session Q E H thr k (map2 (\<lambda>(c, n) m. (c, n + m)) cs ms) b = Inr (True, b')"
  using assms(3-5)
proof (induction cs arbitrary: k b a)
  case (Cons x cs)
  obtain c n where x: "x = (c, n)" by (cases x)
  from Cons.prems(3) x obtain a1 where a1: "sync_call E H thr k c a = Inr a1"
    "sync_session E H thr (Suc k) (map fst cs) a1 = Inr a'" by (auto split: sum.splits)
  have "Checks a k = Semaphore" using Cons.prems(2) by simp
  from call_can_return [OF assms(1,2) Cons.prems(1) this a1(1), of n] obtain m b1 where
    m: "n \<le> m" "perform Q E H thr k m c b = Inr (True, b1)" "sim pend E H thr (Suc k) b1 a1" by blast
  have "\<forall>j \<ge> Suc k. Checks a1 j = Semaphore"
    using sync_session_checks [of E H thr k "[c]" a a1] a1(1) Cons.prems(2) by simp
  from Cons.IH [OF m(3) this a1(2)] obtain ms b' where
    "length ms = length cs" "session Q E H thr (Suc k) (map2 (\<lambda>(c, n) m. (c, n + m)) cs ms) b1 = Inr (True, b')"
    by blast
  with m x show ?case by (intro exI [of _ "(m - n) # ms"] exI [of _ b']) simp
qed simp

text \<open>A handler for the witnesses that records the messages it is given.\<close>

definition recorder :: "LogMessage list handler_ops" where
  "recorder = \<lparr>hop_addMessage = (\<lambda>thr m h. Inr (h @ [m])), hop_flush = (\<lambda>thr h. Inr (True, h)),
     hop_is_console = (\<lambda>h. False)\<rparr>"

definition test_platform :: "nat platform" where
  "test_platform = \<lparr>clock = int, hostname_call = (0, ''host'' @ [nul]), getpid = 7,
     readlink = (\<lambda>p n. Some ''/bin/app''), show_thread = show_nat, fmt = (\<lambda>f a. Inl ''bad''), worker = 99\<rparr>"

lemma recorder_total: "\<exists>s'. run_base E recorder w s = Inr s'"
proof -
  have add: "\<exists>st'. add_to_handlers E recorder m ps st = Inr st'" for m ps st
    by (induction ps arbitrary: st) (simp_all add: add_to_handlers_def recorder_def)
  have flush: "\<exists>r. flush_handlers recorder tid ps st = Inr r" for tid ps st
  proof (induction ps arbitrary: tid st)
    case (Cons p ps)
    obtain rs where "flush_handlers recorder (Suc tid) ps (st(p := st p)) = Inr rs" using Cons by blast
    then show ?case by (cases rs) (simp add: recorder_def)
  qed simp
  show ?thesis
  proof (cases w)
    case (LogWork L m fs tid)
    with add [of "log_message E L m fs tid s" "Handlers s" "Store s"] show ?thesis by auto
  next
    case (FmtWork L f args tid)
    with add [of "fmt_message E L f args tid s" "Handlers s" "Store s"] show ?thesis by auto
  next
    case (FlushHandlers k)
    with flush [of "Threads s" "Handlers s" "Store s"] show ?thesis by auto
  qed auto
qed

lemma recorder_sync: "\<exists>a. sync_session E recorder thr k cs s = Inr a"
proof (induction cs arbitrary: k s)
  case (Cons c cs)
  obtain a where a: "sync_call E recorder thr k c s = Inr a"
    using fold_result_total [of "run_base E recorder"] recorder_total
    unfolding sync_call_def by (metis sum.exhaust)
  obtain b where "sync_session E recorder thr (Suc k) cs a = Inr b" using Cons by blast
  with a show ?case by simp
qed simp

text \<open>A session with two messages, the second of which is filtered out.\<close>

definition test_session :: "(nat call \<times> nat) list" where
  "test_session = [(CAddOrReplace 5, 0), (CField ''k'' (AdditionalField_int 3), 1),
     (CLog Error ''boom'' [], 0), (CMin Critical, 9), (CLog Error ''again'' [], 0)]"

lemma test_session_returns:
  "case session list_queue test_platform recorder 1 0 test_session (LoggingBase list_queue [] (\<lambda>_. []) 1) of
     Inl e \<Rightarrow> False | Inr (r, b) \<Rightarrow> r"
  by code_simp

section \<open>Properties\<close>

text \<open>
  C5: for one client thread the asynchronous logger refines the synchronous one. In a session
  of any calls (messages, fields, handlers, minimum severity, flush), whatever the worker gets
  done in between, nothing is thrown that the synchronous logger does not throw, and when all
  calls have returned, running what is still queued leads to exactly the state of the
  synchronous logger; the filter already uses the same minimum severity.
\<close>

theorem logger_refines_synchronous:
  assumes "queue_contract Q pend" and "pend q0 = (\<lambda>_. [])"
    and "sync_session E H thr 0 (map fst cs) (logger_init E st) = Inr a"
  shows "\<exists>r b. session Q E H thr 0 cs (LoggingBase Q q0 st thr) = Inr (r, b)
    \<and> (r \<longrightarrow> (\<exists>ws. pend (MessageQueue b) = (\<lambda>_. [])(thr := map Work ws)
                  \<and> fold_result (run_base E H) ws (target b) = Inr a)
            \<and> MinSeverity (target b) = MinSeverity a)"
proof -
  obtain r b where rb: "session Q E H thr 0 cs (LoggingBase Q q0 st thr) = Inr (r, b)"
    "r \<longrightarrow> sim pend E H thr (0 + length cs) b a"
    using session_sim [OF assms(1) LoggingBase_sim [OF assms(1,2)] assms(3)] by blast
  moreover have "(\<exists>ws. pend (MessageQueue b) = (\<lambda>_. [])(thr := map Work ws)
      \<and> fold_result (run_base E H) ws (target b) = Inr a) \<and> MinSeverity (target b) = MinSeverity a" if r
    using rb(2) that sim_min [of pend E H thr "0 + length cs" b a] unfolding sim_def by blast
  ultimately show ?thesis by blast
qed

theorem logger_refines_synchronous_witness:
  "\<exists>r b. session list_queue test_platform recorder 1 0 test_session
      (LoggingBase list_queue [] (\<lambda>_. []) 1) = Inr (r, b)"
proof -
  obtain a where "sync_session test_platform recorder 1 0 (map fst test_session)
      (logger_init test_platform (\<lambda>_. [])) = Inr a"
    using recorder_sync by blast
  moreover have "list_pend [] = (\<lambda>_. [] :: nat base_work task list)" by (simp add: list_pend_def fun_eq_iff)
  ultimately show ?thesis using logger_refines_synchronous [OF list_queue_contract] by blast
qed

text \<open>
  C9: nothing logged is lost at shutdown. After such a session of the only client thread, the
  destructor returns (the worker stops), the handlers have been removed, and every handler
  object has received exactly what the synchronous logger would have given it, including the
  messages that were still queued when the destructor was called.
\<close>

theorem shutdown_delivers_everything:
  assumes "queue_contract Q pend" and "queue_live Q pend" and "pend q0 = (\<lambda>_. [])"
    and "sync_session E H thr 0 (map fst cs) (logger_init E st) = Inr a"
    and "session Q E H thr 0 cs (LoggingBase Q q0 st thr) = Inr (True, b)"
  shows "\<exists>n m b'. destroy_LoggingBase Q E H thr (length cs) n m b = Inr (Some (), b')
    \<and> \<not> RunThread b' \<and> Store (target b') = Store a \<and> Handlers (target b') = []"
  by (rule shutdown_delivers [OF assms])

theorem shutdown_delivers_everything_witness:
  "\<exists>b n m b'. session list_queue test_platform recorder 1 0 test_session
      (LoggingBase list_queue [] (\<lambda>_. []) 1) = Inr (True, b)
    \<and> destroy_LoggingBase list_queue test_platform recorder 1 5 n m b = Inr (Some (), b') \<and> \<not> RunThread b'"
proof -
  obtain a where a: "sync_session test_platform recorder 1 0 (map fst test_session)
      (logger_init test_platform (\<lambda>_. [])) = Inr a"
    using recorder_sync by blast
  obtain b where b: "session list_queue test_platform recorder 1 0 test_session
      (LoggingBase list_queue [] (\<lambda>_. []) 1) = Inr (True, b)"
    using test_session_returns by (auto split: sum.splits)
  have "list_pend [] = (\<lambda>_. [] :: nat base_work task list)" by (simp add: list_pend_def fun_eq_iff)
  moreover have "length test_session = 5" by (simp add: test_session_def)
  ultimately show ?thesis
    using shutdown_delivers_everything [OF list_queue_contract list_queue_live _ a b] b by auto
qed

text \<open>
  C14: what one call of \<open>log\<close> leads to. The closure gives one and the same message to every
  registered handler and touches no other; the message has the text, level, thread and the
  time of the call's execution, the process data of the base message, and its fields are those of
  the base message overridden by the call's own (the last of several with the same key), while
  the base message stays as it was.
\<close>

theorem log_reaches_every_handler:
  assumes "run_base E H (LogWork Level Message ExtraFields tid) s = Inr s'"
    and "distinct (Handlers s)" and "fields_fit (length ExtraFields) (BaseMsg s)"
  shows "\<exists>m. (\<forall>p \<in> set (Handlers s). hop_addMessage H (worker E) m (Store s p) = Inr (Store s' p))
    \<and> (\<forall>p. p \<notin> set (Handlers s) \<longrightarrow> Store s' p = Store s p)
    \<and> MessageString m = Message \<and> SeverityLevel m = Level \<and> Timestamp m = clock E (Ticks s)
    \<and> ThreadId m = show_thread E tid
    \<and> (Host m, ProcessId m, ProcessName m)
        = (Host (BaseMsg s), ProcessId (BaseMsg s), ProcessName (BaseMsg s))
    \<and> map_of (AdditionalFields m) = map_of (AdditionalFields (BaseMsg s)) ++ map_of (rev ExtraFields)
    \<and> BaseMsg s' = BaseMsg s"
proof -
  let ?m = "log_message E Level Message ExtraFields tid s"
  have "add_to_handlers E H ?m (Handlers s) (Store s) = Inr (Store s')" "BaseMsg s' = BaseMsg s"
    using assms(1) by (auto split: sum.splits)
  from add_to_handlers_distinct [OF this(1) assms(2)] this(2) addFields_map [OF assms(3)]
  show ?thesis by (intro exI [of _ ?m]) (simp add: log_message_parts)
qed

theorem log_reaches_every_handler_witness:
  "\<exists>s' m. run_base test_platform recorder (LogWork Error ''boom'' [(''k'', AdditionalField_int 3)] 1)
       ((logger_new (\<lambda>_. []))\<lparr>Handlers := [5]\<rparr>) = Inr s'
    \<and> Store s' 5 = [m] \<and> MessageString m = ''boom''"
proof -
  let ?s = "(logger_new (\<lambda>_. [] :: LogMessage list))\<lparr>Handlers := [5]\<rparr>"
  obtain s' where s': "run_base test_platform recorder (LogWork Error ''boom'' [(''k'', AdditionalField_int 3)] 1)
       ?s = Inr s'"
    using recorder_total by blast
  have "distinct (Handlers ?s)" "fields_fit (length [(''k'', AdditionalField_int 3)]) (BaseMsg ?s)"
    by (simp_all add: logger_new_def LogMessage_default_def fields_fit_def)
  from log_reaches_every_handler [OF s' this] obtain m where
    m: "\<forall>p \<in> set (Handlers ?s). hop_addMessage recorder (worker test_platform) m (Store ?s p) = Inr (Store s' p)"
      "MessageString m = ''boom''"
    by (elim exE conjE) (rule that)
  from m(1) have "Store s' 5 = [m]" by (simp add: recorder_def logger_new_def)
  with s' m(2) show ?thesis by blast
qed

text \<open>
  \<open>fmt_log\<close> loses no message: whatever the arguments, each registered handler gets one
  message; if the text cannot be formatted, it says so, quotes the format string and the
  error, and has severity \<open>Error\<close> instead of the level asked for.
\<close>

theorem fmt_log_always_delivers:
  assumes "run_base E H (FmtWork Level Format args tid) s = Inr s'" and "distinct (Handlers s)"
  shows "\<exists>m. (\<forall>p \<in> set (Handlers s). hop_addMessage H (worker E) m (Store s p) = Inr (Store s' p))
    \<and> ThreadId m = show_thread E tid \<and> AdditionalFields m = AdditionalFields (BaseMsg s)
    \<and> (case fmt E Format args of
         Inr t \<Rightarrow> MessageString m = t \<and> SeverityLevel m = Level
       | Inl what \<Rightarrow> SeverityLevel m = Error
           \<and> MessageString m = format_failed Format what)"
proof -
  let ?m = "fmt_message E Level Format args tid s"
  have "add_to_handlers E H ?m (Handlers s) (Store s) = Inr (Store s')"
    using assms(1) by (auto split: sum.splits)
  from add_to_handlers_distinct [OF this assms(2)] show ?thesis
    by (intro exI [of _ ?m]) (auto simp: fmt_message_def Let_def split: sum.splits)
qed

theorem fmt_log_always_delivers_witness:
  "\<exists>s' m. run_base test_platform recorder (FmtWork Notice ''{'' [1] 1) ((logger_new (\<lambda>_. []))\<lparr>Handlers := [5]\<rparr>) = Inr s'
    \<and> Store s' 5 = [m] \<and> SeverityLevel m = Error"
proof -
  let ?s = "(logger_new (\<lambda>_. [] :: LogMessage list))\<lparr>Handlers := [5]\<rparr>"
  obtain s' where s': "run_base test_platform recorder (FmtWork Notice ''{'' [1] 1) ?s = Inr s'"
    using recorder_total by blast
  have "distinct (Handlers ?s)" by simp
  from fmt_log_always_delivers [OF s' this] obtain m where
    "\<forall>p \<in> set (Handlers ?s). hop_addMessage recorder (worker test_platform) m (Store ?s p) = Inr (Store s' p)"
    "SeverityLevel m = Error"
    by (auto simp: test_platform_def)
  then have "Store s' 5 = [m]" by (simp add: recorder_def logger_new_def)
  with s' \<open>SeverityLevel m = Error\<close> show ?thesis by blast
qed

text \<open>
  C15: \<open>setMinSeverity\<close> has taken effect when it returns, although it never sets its promise:
  the future becomes ready because the closure, when it has run, is destroyed together with
  the promise (a broken promise). From then on a message of any thread reaches the queue
  exactly if its level is at most the new minimum; other messages change nothing.
\<close>

theorem setMinSeverity_takes_effect:
  assumes "queue_contract Q pend" and "RunThread b"
    and "pend (MessageQueue b) = (\<lambda>_. [])(thr := map Work ws)"
    and "fold_result (run_base E H) ws (target b) = Inr a"
    and "Futures (target b) k = Unset" and "Some k \<notin> promise_of ` set ws"
    and "setMinSeverity Q E H thr k n Level b = Inr (Some (), b')"
  shows "MinSeverity (target b') = Level \<and> Futures (target b') k = Broken
    \<and> (\<forall>thr' L M X. log_fields Q thr' L M X b' =
         (if L \<le> Level then SendWork Q thr' (Work (LogWork L M X thr')) b' else b'))"
proof -
  let ?w = "StoreSeverity Level k :: 'b base_work" and ?b = "SendWork Q thr (Work (StoreSeverity Level k)) b"
  let ?a = "a\<lparr>MinSeverity := Level, Futures := (Futures a)(k := drop_promise (Futures a k))\<rparr>"
  note sent = send_pending [OF assms(1,3), of ?w]
  have fold: "fold_result (run_base E H) (ws @ [?w]) (target ?b) = Inr ?a"
    using assms(4) by (simp add: sent(2) fold_result_append)
  have "RunThread ?b" using assms(2) sent(3) by simp
  note run = sim_run [OF assms(1) this sent(1) fold, unfolded sent(2)]
  obtain us vs b1 where r: "ThreadFunction Q (run_base E H) n ?b = Inr b1" "RunThread b1" "ws @ [?w] = us @ vs"
    "pend (MessageQueue b1) = (\<lambda>_. [])(thr := map Work vs)"
    "fold_result (run_base E H) us (target b) = Inr (target b1)"
    "fold_result (run_base E H) vs (target b1) = Inr ?a"
    by (rule run [where n = n])
  have b1: "b1 = b'" "Futures (target b') k \<noteq> Unset"
    using assms(7) r(1) by (auto simp: setMinSeverity_def await_def future_done_def split: if_splits)
  have "vs = []"
  proof (rule ccontr)
    assume "vs \<noteq> []"
    with r(3) have "set us \<subseteq> set ws" by (cases vs rule: rev_cases) auto
    then have "Some k \<notin> promise_of ` set us" using assms(6) by blast
    from fold_futures [OF r(5) this] b1 assms(5) show False by simp
  qed
  with r(6) b1 have t: "target b' = ?a" by simp
  have "Futures a k = Unset" using fold_futures [OF assms(4,6)] assms(5) by simp
  with t show ?thesis by (auto simp: drop_promise_def log_fields_def less_eq_Severity_def)
qed

theorem setMinSeverity_takes_effect_witness:
  "\<exists>b'. setMinSeverity list_queue test_platform recorder 1 0 2 Critical
      (ThreadedExecutor [] (logger_new (\<lambda>_. []))) = Inr (Some (), b')
    \<and> log_fields list_queue 8 Error ''x'' [] b' = b'"
proof -
  let ?b = "ThreadedExecutor [] (logger_new (\<lambda>_. [] :: LogMessage list))"
  have "case setMinSeverity list_queue test_platform recorder 1 0 2 Critical ?b of
      Inl e \<Rightarrow> False | Inr (r, b) \<Rightarrow> r = Some ()"
    by code_simp
  then obtain b' where b': "setMinSeverity list_queue test_platform recorder 1 0 2 Critical ?b = Inr (Some (), b')"
    by (auto split: sum.splits)
  have "list_pend (MessageQueue ?b) = (\<lambda>_. [])(1 := map Work [])"
    by (simp add: ThreadedExecutor_def list_pend_def fun_eq_iff)
  note effect = setMinSeverity_takes_effect [OF list_queue_contract _ this _ _ _ b']
  have "\<not> Error \<le> Critical" by code_simp
  with effect b' show ?thesis by (auto simp: ThreadedExecutor_def logger_new_def)
qed

text \<open>
  The result of \<open>flush\<close> is the conjunction: its closure calls \<open>flush\<close> once on every
  registered handler, each from a thread of its own, sets the promise, and the value is true
  exactly if every handler's was.
\<close>

theorem flush_is_conjunction:
  assumes "run_base E H (FlushHandlers k) s = Inr s'" and "distinct (Handlers s)"
  shows "\<exists>rs. flush_done k s' = Some (list_all (\<lambda>r. r) rs) \<and> length rs = length (Handlers s)
    \<and> (\<forall>i < length rs. hop_flush H (Threads s + i) (Store s (Handlers s ! i)) =
          Inr (rs ! i, Store s' (Handlers s ! i)))
    \<and> (\<forall>p. p \<notin> set (Handlers s) \<longrightarrow> Store s' p = Store s p) \<and> Handlers s' = Handlers s"
proof -
  obtain rs st where rs: "flush_handlers H (Threads s) (Handlers s) (Store s) = Inr (rs, st)"
    "s' = s\<lparr>Store := st, Threads := Threads s + length (Handlers s),
       FlushValues := (FlushValues s)(k := Some (flush_value rs)),
       Futures := (Futures s)(k := set_value (Futures s k))\<rparr>"
    using assms(1) by (auto split: sum.splits prod.splits)
  from flush_handlers_all [OF rs(1) assms(2)] rs(2) show ?thesis
    by (intro exI [of _ rs]) (simp add: flush_done_def flush_value_all)
qed

theorem flush_is_conjunction_witness:
  "\<exists>s' rs. run_base test_platform recorder (FlushHandlers 3) ((logger_new (\<lambda>_. []))\<lparr>Handlers := [5, 6]\<rparr>) = Inr s'
    \<and> flush_done 3 s' = Some (list_all (\<lambda>r. r) rs) \<and> length rs = 2"
proof -
  let ?s = "(logger_new (\<lambda>_. [] :: LogMessage list))\<lparr>Handlers := [5, 6]\<rparr>"
  obtain s' where s': "run_base test_platform recorder (FlushHandlers 3) ?s = Inr s'"
    using recorder_total by blast
  have d: "distinct (Handlers ?s)" "length (Handlers ?s) = 2" by simp_all
  from flush_is_conjunction [OF s' d(1)] s' d(2) show ?thesis by metis
qed

end
