(* ===== verification/Logger.thy ===== *)
theory Logger
  imports Logging_Sync
begin

text \<open>
  Model of the singleton \<open>Logger\<close> (\<open>src/Logger.cpp\<close>, \<open>include/graylog_logger/Logger.hpp\<close>) and
  of the free functions of the public interface (\<open>src/Log.cpp\<close>,
  \<open>include/graylog_logger/Log.hpp\<close>). Access to the base class is private, so the only way to
  register a handler is \<open>Logger::addLogHandler\<close>, which keeps at most one console handler.
\<close>

section \<open>The singleton\<close>

text \<open>The constructor registers a console handler (the object at \<open>console\<close>).\<close>

definition Logger ::
  "('q, 'a) base_queue \<Rightarrow> 'q \<Rightarrow> (nat \<Rightarrow> 'h) \<Rightarrow> nat \<Rightarrow> nat \<Rightarrow> ('q, 'h) base" where
  "Logger Q empty_queue st thr console =
     Logger_addLogHandler Q thr console (LoggingBase Q empty_queue st thr)"

text \<open>\<open>Inst\<close>: the static local is constructed by the first call.\<close>

definition Inst :: "('q, 'h) base \<Rightarrow> ('q, 'h) base option \<Rightarrow> ('q, 'h) base \<times> ('q, 'h) base option" where
  "Inst constructed inst = (case inst of Some b \<Rightarrow> (b, inst) | None \<Rightarrow> (constructed, Some constructed))"

section \<open>The public interface\<close>

definition Msg :: "('q, 'a) base_queue \<Rightarrow> nat \<Rightarrow> Severity \<Rightarrow> string \<Rightarrow> ('q, 'h) base \<Rightarrow> ('q, 'h) base" where
  "Msg Q thr Level Message b = log_plain Q thr Level Message b"

definition Msg_int :: "('q, 'a) base_queue \<Rightarrow> nat \<Rightarrow> int32 \<Rightarrow> string \<Rightarrow> ('q, 'h) base \<Rightarrow> ('q, 'h) base" where
  "Msg_int Q thr Level Message b = log_plain Q thr (Severity Level) Message b"

definition Msg_field ::
  "('q, 'a) base_queue \<Rightarrow> nat \<Rightarrow> Severity \<Rightarrow> string \<Rightarrow> string \<times> AdditionalField
     \<Rightarrow> ('q, 'h) base \<Rightarrow> ('q, 'h) base" where
  "Msg_field Q thr Level Message ExtraField b = log_field Q thr Level Message ExtraField b"

definition Msg_int_field ::
  "('q, 'a) base_queue \<Rightarrow> nat \<Rightarrow> int32 \<Rightarrow> string \<Rightarrow> string \<times> AdditionalField
     \<Rightarrow> ('q, 'h) base \<Rightarrow> ('q, 'h) base" where
  "Msg_int_field Q thr Level Message ExtraField b = log_field Q thr (Severity Level) Message ExtraField b"

definition Msg_fields ::
  "('q, 'a) base_queue \<Rightarrow> nat \<Rightarrow> Severity \<Rightarrow> string \<Rightarrow> fields \<Rightarrow> ('q, 'h) base \<Rightarrow> ('q, 'h) base" where
  "Msg_fields Q thr Level Message ExtraFields b = log_fields Q thr Level Message ExtraFields b"

definition Msg_int_fields ::
  "('q, 'a) base_queue \<Rightarrow> nat \<Rightarrow> int32 \<Rightarrow> string \<Rightarrow> fields \<Rightarrow> ('q, 'h) base \<Rightarrow> ('q, 'h) base" where
  "Msg_int_fields Q thr Level Message ExtraFields b = log_fields Q thr (Severity Level) Message ExtraFields b"

definition FmtMsg ::
  "('q, 'a) base_queue \<Rightarrow> nat \<Rightarrow> Severity \<Rightarrow> string \<Rightarrow> 'a list \<Rightarrow> ('q, 'h) base \<Rightarrow> ('q, 'h) base" where
  "FmtMsg Q thr Level Format args b = fmt_log Q thr Level Format args b"

definition Flush ::
  "('q, 'a) base_queue \<Rightarrow> 'a platform \<Rightarrow> 'h handler_ops \<Rightarrow> nat \<Rightarrow> nat \<Rightarrow> nat
     \<Rightarrow> ('q, 'h) base \<Rightarrow> exn + (bool option \<times> ('q, 'h) base)" where
  "Flush Q E H thr k n b = base_flush Q E H thr k n b"

definition AddField ::
  "('q, 'a) base_queue \<Rightarrow> nat \<Rightarrow> string \<Rightarrow> AdditionalField \<Rightarrow> ('q, 'h) base \<Rightarrow> ('q, 'h) base" where
  "AddField Q thr Key Value b = base_addField Q thr Key Value b"

definition SetMinimumSeverity ::
  "('q, 'a) base_queue \<Rightarrow> 'a platform \<Rightarrow> 'h handler_ops \<Rightarrow> nat \<Rightarrow> nat \<Rightarrow> nat \<Rightarrow> Severity
     \<Rightarrow> ('q, 'h) base \<Rightarrow> exn + (unit option \<times> ('q, 'h) base)" where
  "SetMinimumSeverity Q E H thr k n Level b = setMinSeverity Q E H thr k n Level b"

definition AddLogHandler ::
  "('q, 'a) base_queue \<Rightarrow> nat \<Rightarrow> nat \<Rightarrow> ('q, 'h) base \<Rightarrow> ('q, 'h) base" where
  "AddLogHandler Q thr Handler b = Logger_addLogHandler Q thr Handler b"

definition RemoveAllHandlers ::
  "('q, 'a) base_queue \<Rightarrow> 'a platform \<Rightarrow> 'h handler_ops \<Rightarrow> nat \<Rightarrow> nat \<Rightarrow> nat
     \<Rightarrow> ('q, 'h) base \<Rightarrow> exn + (unit option \<times> ('q, 'h) base)" where
  "RemoveAllHandlers Q E H thr k n b = removeAllHandlers Q E H thr k n b"

definition GetHandlers :: "('q, 'h) base \<Rightarrow> nat list" where
  "GetHandlers b = getHandlers b"

section \<open>Console handlers\<close>

definition consoles :: "'h handler_ops \<Rightarrow> 'h logger \<Rightarrow> nat list" where
  "consoles H s = filter (\<lambda>p. hop_is_console H (Store s p)) (Handlers s)"

definition others :: "'h handler_ops \<Rightarrow> 'h logger \<Rightarrow> nat list" where
  "others H s = filter (\<lambda>p. \<not> hop_is_console H (Store s p)) (Handlers s)"

definition one_console :: "'h handler_ops \<Rightarrow> 'h logger \<Rightarrow> bool" where
  "one_console H s \<longleftrightarrow> length (consoles H s) \<le> 1"

text \<open>An operation of a handler does not change the class of the object.\<close>

definition types_stable :: "'h handler_ops \<Rightarrow> bool" where
  "types_stable H \<longleftrightarrow>
     (\<forall>thr m h h'. hop_addMessage H thr m h = Inr h' \<longrightarrow> hop_is_console H h' = hop_is_console H h) \<and>
     (\<forall>thr h r h'. hop_flush H thr h = Inr (r, h') \<longrightarrow> hop_is_console H h' = hop_is_console H h)"

lemma replace_consoles_eq:
  "replace_consoles H st Handler ps =
     (map (\<lambda>p. if hop_is_console H (st p) then Handler else p) ps,
      \<exists>p \<in> set ps. hop_is_console H (st p))"
  by (induction ps) (auto simp: Let_def)

lemma add_or_replace_consoles:
  assumes "hop_is_console H (Store s Handler)"
  shows "consoles H (add_or_replace H Handler s) =
      (if consoles H s = [] then [Handler] else replicate (length (consoles H s)) Handler)"
    and "others H (add_or_replace H Handler s) = others H s"
proof -
  let ?st = "Store s" and ?f = "\<lambda>p. if hop_is_console H (Store s p) then Handler else p"
  have "filter (\<lambda>p. hop_is_console H (?st p)) (map ?f ps) =
      replicate (length (filter (\<lambda>p. hop_is_console H (?st p)) ps)) Handler"
    "filter (\<lambda>p. \<not> hop_is_console H (?st p)) (map ?f ps) = filter (\<lambda>p. \<not> hop_is_console H (?st p)) ps" for ps
    using assms by (induction ps) auto
  note f = this
  have "(\<exists>p \<in> set (Handlers s). hop_is_console H (?st p)) \<longleftrightarrow> consoles H s \<noteq> []"
    by (auto simp: consoles_def filter_empty_conv)
  with f assms show "consoles H (add_or_replace H Handler s) =
      (if consoles H s = [] then [Handler] else replicate (length (consoles H s)) Handler)"
    and "others H (add_or_replace H Handler s) = others H s"
    by (auto simp: add_or_replace_def replace_consoles_eq consoles_def others_def Let_def)
qed

lemma add_to_handlers_types:
  assumes "types_stable H"
  shows "add_to_handlers E H m ps st = Inr st' \<Longrightarrow> hop_is_console H (st' p) = hop_is_console H (st p)"
proof (induction ps arbitrary: st)
  case (Cons q ps)
  then obtain h where h: "hop_addMessage H (worker E) m (st q) = Inr h"
    "add_to_handlers E H m ps (st(q := h)) = Inr st'"
    by (auto simp: add_to_handlers_def split: sum.splits)
  have "hop_is_console H h = hop_is_console H (st q)"
    using assms h(1) by (simp add: types_stable_def)
  with Cons.IH [OF h(2)] show ?case by simp
qed (simp add: add_to_handlers_def)

lemma flush_handlers_types:
  assumes "types_stable H"
  shows "flush_handlers H tid ps st = Inr (rs, st') \<Longrightarrow> hop_is_console H (st' p) = hop_is_console H (st p)"
proof (induction ps arbitrary: tid st rs)
  case (Cons q ps)
  then obtain r h rs1 where h: "hop_flush H tid (st q) = Inr (r, h)"
    "flush_handlers H (Suc tid) ps (st(q := h)) = Inr (rs1, st')"
    by (auto split: sum.splits prod.splits)
  have "hop_is_console H h = hop_is_console H (st q)"
    using assms h(1) by (simp add: types_stable_def)
  with Cons.IH [OF h(2)] show ?case by simp
qed simp

text \<open>The closures of a \<open>Logger\<close>: all but \<open>LoggingBase::addLogHandler\<close>, which it overrides.\<close>

fun logger_work :: "'a base_work \<Rightarrow> bool" where
  "logger_work (PushHandler Handler k) = False"
| "logger_work _ = True"

lemma run_base_consoles:
  assumes "types_stable H" and "one_console H s" and "logger_work w" and "run_base E H w s = Inr s'"
  shows "one_console H s'"
proof (cases w)
  case (LogWork L m fs tid)
  with assms(4) obtain st where st: "add_to_handlers E H (log_message E L m fs tid s) (Handlers s) (Store s) = Inr st"
    "s' = s\<lparr>Store := st, Ticks := Suc (Ticks s)\<rparr>" by (auto split: sum.splits)
  with assms(2) add_to_handlers_types [OF assms(1) st(1)] show ?thesis
    by (simp add: one_console_def consoles_def)
next
  case (FmtWork L f args tid)
  with assms(4) obtain st where st: "add_to_handlers E H (fmt_message E L f args tid s) (Handlers s) (Store s) = Inr st"
    "s' = s\<lparr>Store := st, Ticks := Suc (Ticks s)\<rparr>" by (auto split: sum.splits)
  with assms(2) add_to_handlers_types [OF assms(1) st(1)] show ?thesis
    by (simp add: one_console_def consoles_def)
next
  case (FlushHandlers k)
  with assms(4) obtain rs st where st: "flush_handlers H (Threads s) (Handlers s) (Store s) = Inr (rs, st)"
    "Store s' = st" "Handlers s' = Handlers s" by (auto split: sum.splits)
  with assms(2) flush_handlers_types [OF assms(1) st(1)] show ?thesis
    by (simp add: one_console_def consoles_def)
next
  case (ReplaceHandler p)
  with assms(4) have s': "s' = add_or_replace H p s" by simp
  show ?thesis
  proof (cases "hop_is_console H (Store s p)")
    case True
    from add_or_replace_consoles(1) [OF this] assms(2) show ?thesis
      by (simp add: s' one_console_def)
  next
    case False
    with assms(2) show ?thesis by (simp add: s' add_or_replace_def one_console_def consoles_def)
  qed
qed (use assms(2-4) in \<open>auto simp: one_console_def consoles_def notify_check_def\<close>)

interpretation logger_worker: worker_object "run_base E H" "\<lambda>s. types_stable H \<and> one_console H s" logger_work
  for E :: "'a platform" and H :: "'h handler_ops"
  by unfold_locales (auto intro: run_base_consoles)

section \<open>Properties\<close>

text \<open>
  C17: a logger never has more than one console handler. Whatever any number of threads have
  queued through the public interface and however far the worker has got, at most one of the
  registered handlers is a console; so no message is printed twice.
\<close>

theorem at_most_one_console:
  assumes "queue_contract Q pend" and "RunThread b" and "types_stable H"
    and "\<And>thr w. Work w \<in> set (pend (MessageQueue b) thr) \<Longrightarrow> logger_work w"
    and "one_console H (target b)"
    and "ThreadFunction Q (run_base E H) n b = Inr b'"
  shows "length (filter (\<lambda>p. hop_is_console H (Store (target b') p)) (GetHandlers b')) \<le> 1"
  using logger_worker.worker_inv [OF assms(1,6,2,4)] assms(3,5)
  by (simp add: one_console_def consoles_def GetHandlers_def getHandlers_def)

theorem at_most_one_console_witness:
  "\<exists>b'. ThreadFunction list_queue (run_base test_platform (recorder\<lparr>hop_is_console := (\<lambda>h. True)\<rparr>)) 9
       (AddLogHandler list_queue 2 6 (Logger list_queue [] (\<lambda>_. []) 1 5)) = Inr b'
    \<and> length (filter (\<lambda>p. True) (GetHandlers b')) \<le> 1"
proof -
  let ?H = "recorder\<lparr>hop_is_console := (\<lambda>h. True)\<rparr>"
  let ?b = "AddLogHandler list_queue 2 6 (Logger list_queue ([] :: (nat \<times> nat base_work task) list) (\<lambda>_. [] :: LogMessage list) 1 5)"
  have "case ThreadFunction list_queue (run_base test_platform ?H) 9 ?b of Inl e \<Rightarrow> False | Inr b \<Rightarrow> True"
    by code_simp
  then obtain b' where b': "ThreadFunction list_queue (run_base test_platform ?H) 9 ?b = Inr b'"
    by (auto split: sum.splits)
  have q: "MessageQueue ?b = [(1, Work InitBase), (1, Work (ReplaceHandler 5)), (2, Work (ReplaceHandler 6))]"
    "RunThread ?b" "Handlers (target ?b) = []"
    by (simp_all add: AddLogHandler_def Logger_def Logger_addLogHandler_def LoggingBase_def SendWork_def
        ThreadedExecutor_def list_queue_def logger_new_def)
  have "logger_work w" if "Work w \<in> set (list_pend (MessageQueue ?b) thr)" for thr and w :: "nat base_work"
    using that unfolding list_pend_def q(1) by (auto split: if_splits)
  moreover have "types_stable ?H" by (simp add: types_stable_def recorder_def)
  moreover have "one_console ?H (target ?b)" unfolding one_console_def consoles_def q(3) by simp
  ultimately show ?thesis
    using at_most_one_console [OF list_queue_contract q(2) _ _ _ b'] b' by auto
qed

text \<open>
  Registering a console handler replaces the one that is registered, in its place; the
  other handlers and their order stay. Without one it is appended, as any other handler is.
\<close>

theorem console_is_replaced:
  assumes "one_console H s"
  shows "consoles H (add_or_replace H Handler s)
      = (if hop_is_console H (Store s Handler) then [Handler] else consoles H s)
    \<and> others H (add_or_replace H Handler s)
      = (if hop_is_console H (Store s Handler) then others H s else others H s @ [Handler])"
proof (cases "hop_is_console H (Store s Handler)")
  case True
  have "consoles H s = [] \<or> length (consoles H s) = 1"
    using assms by (cases "consoles H s") (auto simp: one_console_def)
  with True add_or_replace_consoles [OF True] show ?thesis by (auto split: if_splits)
next
  case False
  then show ?thesis by (simp add: add_or_replace_def consoles_def others_def)
qed

theorem console_is_replaced_witness:
  "consoles (recorder\<lparr>hop_is_console := (\<lambda>h. h = [])\<rparr>)
     (add_or_replace (recorder\<lparr>hop_is_console := (\<lambda>h. h = [])\<rparr>) 7 ((logger_new (\<lambda>_. []))\<lparr>Handlers := [4]\<rparr>)) = [7]"
proof -
  have "one_console (recorder\<lparr>hop_is_console := (\<lambda>h. h = [])\<rparr>) ((logger_new (\<lambda>_. []))\<lparr>Handlers := [4]\<rparr>)"
    by (simp add: one_console_def consoles_def)
  from console_is_replaced [OF this, of 7] show ?thesis by (simp add: logger_new_def)
qed

text \<open>
  C33: the integer overload of \<open>Msg\<close> lets severities through that do not exist. Any negative
  level passes the filter of a logger whose minimum severity is one of the defined ones, and
  a message with a severity that no handler can name goes to the handlers.
\<close>

theorem negative_level_passes_filter:
  assumes "queue_contract Q pend" and "known_severity (MinSeverity (target b))" and "sint Level < 0"
  shows "pend (MessageQueue (Msg_int Q thr Level Message b)) thr =
      pend (MessageQueue b) thr @ [Work (LogWork (Severity Level) Message [] thr)]
    \<and> severity_name (Severity Level) = Inl Out_of_range"
proof -
  have "\<not> int_of_severity (Severity Level) > int_of_severity (MinSeverity (target b))"
    using assms(2,3) by (simp add: known_severity_def int_of_severity_def)
  moreover have "\<not> known_severity (Severity Level)"
    using assms(3) by (simp add: known_severity_def int_of_severity_def)
  ultimately show ?thesis
    using severity_name_unknown
    by (simp add: Msg_int_def log_plain_def log_fields_def SendWork_def contract_enqueue [OF assms(1)])
qed

theorem negative_level_passes_filter_witness:
  "list_pend (MessageQueue (Msg_int list_queue 3 (- 7) ''x'' (ThreadedExecutor [] (logger_new (\<lambda>_. ()))))) 3
   = [Work (LogWork (Severity (- 7)) ''x'' [] 3) :: nat base_work task]"
proof -
  let ?b = "ThreadedExecutor ([] :: (nat \<times> nat base_work task) list) (logger_new (\<lambda>_. ()))"
  have "known_severity (MinSeverity (target ?b))"
    by (simp add: ThreadedExecutor_def logger_new_def known_severity_def int_of_severity_def Notice_def)
  from negative_level_passes_filter [OF list_queue_contract this, of "- 7" 3 "''x''"]
  show ?thesis by (simp add: ThreadedExecutor_def list_pend_def)
qed

end
