(* ===== verification/System.thy ===== *)
theory System
  imports Logger Console_Interface File_Interface Test_Server
begin

text \<open>
  The components put together: a log handler is a console, file or Graylog handler, and the
  logger calls it through the virtual functions of \<open>BaseLogHandler\<close>. The third-party queues of
  the three classes, the file system, the JSON library and the iterations that the workers
  get done while a \<open>flush\<close> waits are parameters.
\<close>

section \<open>Handlers of all classes\<close>

datatype ('c, 'f, 'g) handler =
    ConsoleH "'c console"
  | FileH "'f file_handler"
  | GraylogH "'g impl"

record ('c, 'f, 'g) handler_env =
  console_q :: "'c console_queue"
  file_q :: "'f file_queue"
  graylog_q :: "'g bounded_queue_ops"
  local_time :: "int \<Rightarrow> tm"
  file_disk :: disk
  json_dump :: "json \<Rightarrow> exn + string"
  to_secs :: "int \<Rightarrow> double"
  flush_budget :: nat
  io_run :: "'g impl \<Rightarrow> 'g impl"

definition map_result :: "('a \<Rightarrow> 'b) \<Rightarrow> exn + 'a \<Rightarrow> exn + 'b" where
  "map_result f r = (case r of Inl e \<Rightarrow> Inl e | Inr x \<Rightarrow> Inr (f x))"

definition virtual_addMessage ::
  "('c, 'f, 'g) handler_env \<Rightarrow> nat \<Rightarrow> LogMessage \<Rightarrow> ('c, 'f, 'g) handler \<Rightarrow> exn + ('c, 'f, 'g) handler" where
  "virtual_addMessage V thr m h = (case h of
     ConsoleH c \<Rightarrow> map_result ConsoleH (console_addMessage (console_q V) thr m c)
   | FileH f \<Rightarrow> map_result FileH (file_addMessage (file_q V) thr m f)
   | GraylogH g \<Rightarrow> map_result GraylogH (graylog_addMessage (json_dump V) (to_secs V) (graylog_q V) thr m g))"

text \<open>
  \<open>flush\<close>: the promise of the call is numbered by the flushing thread. What the worker or,
  for the Graylog handler, the I/O thread gets done while the call waits is given by
  \<open>flush_budget\<close> and \<open>io_run\<close>.
\<close>

definition virtual_flush ::
  "('c, 'f, 'g) handler_env \<Rightarrow> nat \<Rightarrow> ('c, 'f, 'g) handler \<Rightarrow> exn + (bool \<times> ('c, 'f, 'g) handler)" where
  "virtual_flush V thr h = (case h of
     ConsoleH c \<Rightarrow> map_result (map_prod id ConsoleH) (console_flush (console_q V) thr thr (flush_budget V) c)
   | FileH f \<Rightarrow> map_result (map_prod id FileH)
       (file_flush (local_time V) (file_disk V) (file_q V) thr thr (flush_budget V) f)
   | GraylogH g \<Rightarrow>
       (let g' = io_run V (flush_start (graylog_q V) thr thr g) in Inr (flush_result thr g', GraylogH g')))"

fun is_ConsoleH :: "('c, 'f, 'g) handler \<Rightarrow> bool" where
  "is_ConsoleH (ConsoleH c) = True"
| "is_ConsoleH _ = False"

definition virtual_ops :: "('c, 'f, 'g) handler_env \<Rightarrow> ('c, 'f, 'g) handler handler_ops" where
  "virtual_ops V = \<lparr>hop_addMessage = virtual_addMessage V, hop_flush = virtual_flush V,
     hop_is_console = is_ConsoleH\<rparr>"

lemma virtual_types_stable: "types_stable (virtual_ops V)"
proof -
  have "is_ConsoleH h' = is_ConsoleH h" if "virtual_addMessage V thr m h = Inr h'" for thr m h h'
    using that by (auto simp: virtual_addMessage_def map_result_def split: handler.splits sum.splits)
  moreover have "is_ConsoleH h' = is_ConsoleH h" if "virtual_flush V thr h = Inr (r, h')" for thr h r h'
    using that by (auto simp: virtual_flush_def map_result_def Let_def split: handler.splits sum.splits)
  ultimately show ?thesis unfolding types_stable_def virtual_ops_def by auto
qed

section \<open>A console logger\<close>

text \<open>What a thread logs: level and text, with the iterations of the worker after the call.\<close>

type_synonym logged = "Severity \<times> string \<times> nat"

definition printed_line :: "logged \<Rightarrow> string" where
  "printed_line l = sevToStr ! nat (int_of_severity (fst l)) @ '': '' @ fst (snd l) @ newline"

definition log_calls :: "logged list \<Rightarrow> ('a call \<times> nat) list" where
  "log_calls ls = map (\<lambda>l. (CLog (fst l) (fst (snd l)) [], snd (snd l))) ls"

lemma sync_log_console:
  assumes "Handlers s = [0]" and "Store s 0 = ConsoleH c"
  shows "\<exists>a c' ms. sync_session E (virtual_ops V) thr k (map fst (log_calls ls)) s = Inr a
    \<and> Store a 0 = ConsoleH c' \<and> fold_result (console_addMessage (console_q V) (worker E)) ms c = Inr c'
    \<and> map (\<lambda>m. (SeverityLevel m, MessageString m)) ms =
        map (\<lambda>l. (fst l, fst (snd l))) (filter (\<lambda>l. fst l \<le> MinSeverity s) ls)"
  using assms
proof (induction ls arbitrary: k s c)
  case Nil
  then show ?case by (intro exI [of _ s] exI [of _ c] exI [of _ "[]"]) (simp add: log_calls_def)
next
  case (Cons l ls)
  show ?case
  proof (cases "fst l \<le> MinSeverity s")
    case False
    with Cons.IH [OF Cons.prems, of "Suc k"] show ?thesis
      by (simp add: log_calls_def sync_call_def)
  next
    case True
    let ?m = "log_message E (fst l) (fst (snd l)) [] thr s"
    obtain c1 where c1: "console_addMessage (console_q V) (worker E) ?m c = Inr c1"
      by (simp add: console_addMessage_def)
    let ?s = "s\<lparr>Store := (Store s)(0 := ConsoleH c1), Ticks := Suc (Ticks s)\<rparr>"
    have step: "sync_call E (virtual_ops V) thr k (CLog (fst l) (fst (snd l)) []) s = Inr ?s"
      using True c1 Cons.prems
      by (simp add: sync_call_def add_to_handlers_def virtual_ops_def virtual_addMessage_def map_result_def)
    obtain a c' ms where "sync_session E (virtual_ops V) thr (Suc k) (map fst (log_calls ls)) ?s = Inr a"
      "Store a 0 = ConsoleH c'" "fold_result (console_addMessage (console_q V) (worker E)) ms c1 = Inr c'"
      "map (\<lambda>m. (SeverityLevel m, MessageString m)) ms =
        map (\<lambda>l. (fst l, fst (snd l))) (filter (\<lambda>l. fst l \<le> MinSeverity s) ls)"
      using Cons.IH [of ?s c1 "Suc k"] Cons.prems by auto
    with True c1 step show ?thesis
      by (intro exI [of _ a] exI [of _ c'] exI [of _ "?m # ms"])
        (simp add: log_calls_def log_message_parts)
  qed
qed

lemma console_line_eq:
  "map (\<lambda>m. (SeverityLevel m, MessageString m)) ms = map (\<lambda>l. (fst l, fst (snd l))) ls \<Longrightarrow>
     map console_line ms = map printed_line ls"
proof (induction ms arbitrary: ls)
  case (Cons m ms)
  then show ?case by (cases ls) (auto simp: console_line_def printed_line_def)
qed simp

lemma printable_eq:
  assumes "map (\<lambda>m. (SeverityLevel m, MessageString m)) ms = map (\<lambda>l. (fst l, fst (snd l))) ls"
    and "\<forall>l \<in> set ls. known_severity (fst l) \<and> nul \<notin> set (fst (snd l))"
  shows "\<forall>m \<in> set ms. printable m"
  using assms
proof (induction ms arbitrary: ls)
  case (Cons m ms)
  then show ?case by (cases ls) (auto simp: printable_def)
qed simp

lemma console_session_prints:
  assumes "queue_contract Q pend" and "queue_live Q pend" and "pend q0 = (\<lambda>_. [])"
    and "queue_contract (console_q V) cpend" and "queue_live (console_q V) cpend" and "cpend c0 = (\<lambda>_. [])"
    and "\<forall>l \<in> set ls. known_severity (fst l) \<and> nul \<notin> set (fst (snd l))"
    and "session Q E (virtual_ops V) thr 0 ((CAddOrReplace 0, n0) # log_calls ls)
           (LoggingBase Q q0 (\<lambda>_. ConsoleH (ConsoleInterface c0)) thr) = Inr (True, b)"
  shows "\<exists>n m k b' c c'. destroy_LoggingBase Q E (virtual_ops V) thr (Suc (length ls)) n m b = Inr (Some (), b')
    \<and> \<not> RunThread b' \<and> Store (target b') 0 = ConsoleH c
    \<and> ThreadFunction (console_q V) run_console k (destroy_send (console_q V) (worker E) c) = Inr c'
    \<and> \<not> RunThread c'
    \<and> Stdout (target c') = concat (map printed_line (filter (\<lambda>l. fst l \<le> Notice) ls))"
proof -
  let ?st = "\<lambda>_. ConsoleH (ConsoleInterface c0)" and ?cs = "(CAddOrReplace 0, n0) # log_calls ls"
  let ?s = "(logger_init E ?st)\<lparr>Handlers := [0]\<rparr>"
  have "sync_call E (virtual_ops V) thr 0 (CAddOrReplace 0) (logger_init E ?st) = Inr ?s"
    by (simp add: sync_call_def add_or_replace_def virtual_ops_def logger_init_def logger_new_def)
  moreover obtain a c ms where a: "sync_session E (virtual_ops V) thr 1 (map fst (log_calls ls)) ?s = Inr a"
    "Store a 0 = ConsoleH c"
    "fold_result (console_addMessage (console_q V) (worker E)) ms (ConsoleInterface c0) = Inr c"
    "map (\<lambda>m. (SeverityLevel m, MessageString m)) ms =
       map (\<lambda>l. (fst l, fst (snd l))) (filter (\<lambda>l. fst l \<le> Notice) ls)"
    using sync_log_console [of ?s "ConsoleInterface c0" E V thr 1 ls]
    by (auto simp: logger_init_def logger_new_def)
  ultimately have "sync_session E (virtual_ops V) thr 0 (map fst ?cs) (logger_init E ?st) = Inr a" by simp
  from shutdown_delivers [OF assms(1-3) this assms(8)] obtain n m b' where
    d: "destroy_LoggingBase Q E (virtual_ops V) thr (Suc (length ls)) n m b = Inr (Some (), b')"
    "\<not> RunThread b'" "Store (target b') = Store a"
    by (auto simp: log_calls_def)
  note fresh = console_fresh_queue [OF assms(4,6) a(3)]
  have "\<forall>l \<in> set (filter (\<lambda>l. fst l \<le> Notice) ls). known_severity (fst l) \<and> nul \<notin> set (fst (snd l))"
    using assms(7) by auto
  from printable_eq [OF a(4) this] have "\<forall>m \<in> set ms. printable m" .
  from run_console_prints [OF fresh(4) this] fresh(5) console_line_eq [OF a(4)]
  have "fold_result run_console (map PrintMessage ms) (target c) =
      Inr ((target c)\<lparr>Stdout := concat (map printed_line (filter (\<lambda>l. fst l \<le> Notice) ls))\<rparr>)" by simp
  with single_thread_destroyed [OF assms(4,5) fresh(2,1), where run = run_console]
  obtain k c' where "ThreadFunction (console_q V) run_console k (destroy_send (console_q V) (worker E) c) = Inr c'"
    "\<not> RunThread c'" "Stdout (target c') = concat (map printed_line (filter (\<lambda>l. fst l \<le> Notice) ls))"
    by auto
  moreover have "Store (target b') 0 = ConsoleH c" using d(3) a(2) by simp
  ultimately show ?thesis using d(1,2) by blast
qed

section \<open>An environment for the witnesses\<close>

definition test_env :: "((nat \<times> console_work task) list, (nat \<times> file_work task) list, (nat \<times> queued) list) handler_env" where
  "test_env = \<lparr>console_q = list_queue, file_q = list_queue, graylog_q = bounded_list 9,
     local_time = epoch_localtime, file_disk = block_disk, json_dump = (\<lambda>_. Inr ''{}''),
     to_secs = (\<lambda>_. 0), flush_budget = 9, io_run = id\<rparr>"

end
