(* ===== verification/Graylog_System.thy ===== *)
theory Graylog_System
  imports System "HOL-Library.Sublist"
begin

text \<open>
  The whole way of a message to a Graylog server: a client thread, the worker of the logger and
  the I/O thread of the connection run interleaved. The connection is the handler object that
  the worker calls, so the two meet in the handler store: the worker puts serialised messages
  into the queue of the connection, and the I/O thread takes them out.
\<close>

section \<open>Interleaved runs\<close>

text \<open>The logger just after the Graylog handler (object 0) was handed to \<open>AddLogHandler\<close>.\<close>

definition graylog_logger ::
  "('q, 'a) base_queue \<Rightarrow> 'q \<Rightarrow> nat \<Rightarrow> 'g impl \<Rightarrow> ('q, ('c, 'f, 'g) handler) base" where
  "graylog_logger Q q0 thr g = Logger_addLogHandler Q thr 0 (LoggingBase Q q0 (\<lambda>_. GraylogH g) thr)"

definition set_connection :: "'g impl \<Rightarrow> ('q, ('c, 'f, 'g) handler) base \<Rightarrow> ('q, ('c, 'f, 'g) handler) base" where
  "set_connection g b = b\<lparr>target := (target b)\<lparr>Store := (Store (target b))(0 := GraylogH g)\<rparr>\<rparr>"

text \<open>
  \<open>graylog_run \<dots> cs b\<close>: the client has made the calls \<open>cs\<close> (level and text) and the program is
  in state \<open>b\<close>. A step is a call, one iteration of the worker, or a step of the I/O thread.
\<close>

inductive graylog_run ::
  "('q, 'a) base_queue \<Rightarrow> 'a platform \<Rightarrow> ('c, 'f, 'g) handler_env \<Rightarrow> (endpoint list \<Rightarrow> endpoint list) \<Rightarrow> nat
     \<Rightarrow> ('q, ('c, 'f, 'g) handler) base \<Rightarrow> (Severity \<times> string) list \<Rightarrow> ('q, ('c, 'f, 'g) handler) base \<Rightarrow> bool"
  for Q :: "('q, 'a) base_queue" and E :: "'a platform" and V :: "('c, 'f, 'g) handler_env"
    and srt :: "endpoint list \<Rightarrow> endpoint list" and thr :: nat and b0 :: "('q, ('c, 'f, 'g) handler) base"
  where
  begins: "graylog_run Q E V srt thr b0 [] b0"
| logs: "graylog_run Q E V srt thr b0 cs b \<Longrightarrow>
    graylog_run Q E V srt thr b0 (cs @ [(Level, Message)]) (log_plain Q thr Level Message b)"
| works: "graylog_run Q E V srt thr b0 cs b \<Longrightarrow>
    ThreadFunction Q (run_base E (virtual_ops V)) 1 b = Inr b' \<Longrightarrow> graylog_run Q E V srt thr b0 cs b'"
| sends: "graylog_run Q E V srt thr b0 cs b \<Longrightarrow> Store (target b) 0 = GraylogH g \<Longrightarrow>
    io_step (graylog_q V) srt True g g' \<Longrightarrow> graylog_run Q E V srt thr b0 cs (set_connection g' b)"

section \<open>The invariant\<close>

abbreviation gelf_text :: "('c, 'f, 'g) handler_env \<Rightarrow> LogMessage \<Rightarrow> string" where
  "gelf_text V \<equiv> json_text (json_dump V) (to_secs V)"

text \<open>The messages that the logger builds from texts in \<open>T\<close>, and what \<open>dump\<close> makes of them.\<close>

definition built_message :: "'a platform \<Rightarrow> nat \<Rightarrow> LogMessage \<Rightarrow> bool" where
  "built_message E thr m \<longleftrightarrow> AdditionalFields m = [] \<and> ThreadId m = show_thread E thr
     \<and> Host m = Host (init_base E LogMessage_default)
     \<and> ProcessName m = ProcessName (init_base E LogMessage_default)"

definition serialisable :: "('c, 'f, 'g) handler_env \<Rightarrow> 'a platform \<Rightarrow> nat \<Rightarrow> string set \<Rightarrow> bool" where
  "serialisable V E thr T \<longleftrightarrow>
     (\<forall>m. built_message E thr m \<and> MessageString m \<in> T \<longrightarrow>
        (\<exists>t. logMsgToJSON (json_dump V) (to_secs V) m = Inr t \<and> t \<noteq> [] \<and> nul \<notin> set t))"

definition never_refuses :: "'g bounded_queue_ops \<Rightarrow> bool" where
  "never_refuses Q \<longleftrightarrow> (\<forall>p f q. fst (b_try_enqueue Q p f q))"

definition log_works :: "nat \<Rightarrow> (Severity \<times> string) list \<Rightarrow> 'a base_work list" where
  "log_works thr cs = map (\<lambda>c. LogWork (fst c) (snd c) [] thr) (filter (\<lambda>c. fst c \<le> Notice) cs)"

text \<open>
  The closures created so far are those that ran, \<open>fin\<close>, and those still queued, \<open>ws\<close>; the
  messages \<open>ms\<close> were built by the closures that ran, and the queue of the connection accepted
  \<open>ks\<close> of them.
\<close>

definition graylog_inv ::
  "('q \<Rightarrow> nat \<Rightarrow> 'a base_work task list) \<Rightarrow> 'a platform \<Rightarrow> ('c, 'f, 'g) handler_env
     \<Rightarrow> (endpoint list \<Rightarrow> endpoint list) \<Rightarrow> nat \<Rightarrow> 'g impl \<Rightarrow> (Severity \<times> string) list
     \<Rightarrow> ('q, ('c, 'f, 'g) handler) base \<Rightarrow> 'a base_work list \<Rightarrow> 'a base_work list \<Rightarrow> 'g impl
     \<Rightarrow> LogMessage list \<Rightarrow> LogMessage list \<Rightarrow> bool" where
  "graylog_inv pend E V srt thr g0 cs b fin ws g ms ks \<longleftrightarrow>
     RunThread b \<and> MinSeverity (target b) = Notice
     \<and> pend (MessageQueue b) = (\<lambda>_. [])(thr := map Work ws)
     \<and> InitBase # ReplaceHandler 0 # log_works thr cs = fin @ ws
     \<and> Handlers (target b) = (if length fin < 2 then [] else [0])
     \<and> BaseMsg (target b) = (if fin = [] then LogMessage_default else init_base E LogMessage_default)
     \<and> Store (target b) 0 = GraylogH g
     \<and> conn_run (graylog_q V) srt True g0 (map (\<lambda>m. (worker E, MsgFunc (gelf_text V m))) ks) g
     \<and> map (\<lambda>m. LogWork (SeverityLevel m) (MessageString m) [] thr) ms = drop 2 fin
     \<and> (\<forall>m \<in> set ms. built_message E thr m)
     \<and> subseq ks ms \<and> (never_refuses (graylog_q V) \<longrightarrow> ks = ms)"

lemma log_works_snoc:
  "log_works thr (cs @ [(L, M)]) = log_works thr cs @ (if L \<le> Notice then [LogWork L M [] thr] else [])"
  by (simp add: log_works_def)

lemma subseq_snoc: "subseq ks ms \<Longrightarrow> subseq ks (ms @ [m])" "subseq ks ms \<Longrightarrow> subseq (ks @ [m]) (ms @ [m])"
  by (auto intro: list_emb_append2 list_emb_append_mono)

lemma graylog_inv_start:
  fixes V :: "('c, 'f, 'g) handler_env"
  assumes "queue_contract Q pend" and "pend q0 = (\<lambda>_. [])"
  shows "graylog_inv pend E V srt thr g [] (graylog_logger Q q0 thr g) [] [InitBase, ReplaceHandler 0] g [] []"
proof -
  have "pend (MessageQueue (ThreadedExecutor q0 (logger_new (\<lambda>_. GraylogH g :: ('c, 'f, 'g) handler)))) =
      (\<lambda>_. [])(thr := map Work [])"
    using assms(2) by (simp add: ThreadedExecutor_def fun_upd_idem)
  from send_all_pending [OF assms(1) this, of "[InitBase, ReplaceHandler 0]"]
  show ?thesis
    by (simp add: graylog_inv_def graylog_logger_def Logger_addLogHandler_def LoggingBase_def send_all_def
        ThreadedExecutor_def logger_new_def log_works_def conn_run.run_start)
qed

lemma graylog_inv_log:
  assumes "queue_contract Q pend" and "graylog_inv pend E V srt thr g0 cs b fin ws g ms ks"
  shows "\<exists>ws'. graylog_inv pend E V srt thr g0 (cs @ [(L, M)]) (log_plain Q thr L M b) fin ws' g ms ks"
proof (cases "L \<le> Notice")
  case False
  with assms(2) have "log_plain Q thr L M b = b"
    by (simp add: log_plain_def log_fields_def graylog_inv_def less_eq_Severity_def)
  with assms(2) False show ?thesis by (auto simp: graylog_inv_def log_works_snoc)
next
  case True
  let ?w = "LogWork L M [] thr"
  have inv: "MinSeverity (target b) = Notice" "pend (MessageQueue b) = (\<lambda>_. [])(thr := map Work ws)"
    using assms(2) by (simp_all add: graylog_inv_def)
  have "log_plain Q thr L M b = SendWork Q thr (Work ?w) b"
    using True inv(1) by (simp add: log_plain_def log_fields_def less_eq_Severity_def)
  with send_pending [OF assms(1) inv(2), of ?w] assms(2) True
  have "graylog_inv pend E V srt thr g0 (cs @ [(L, M)]) (log_plain Q thr L M b) fin (ws @ [?w]) g ms ks"
    by (simp add: graylog_inv_def log_works_snoc)
  then show ?thesis by blast
qed

lemma graylog_inv_io:
  assumes "graylog_inv pend E V srt thr g0 cs b fin ws g ms ks" and "io_step (graylog_q V) srt True g g'"
  shows "graylog_inv pend E V srt thr g0 cs (set_connection g' b) fin ws g' ms ks"
  using assms by (auto simp: graylog_inv_def set_connection_def intro: conn_run.run_io)

text \<open>One iteration of the worker: nothing, or the first queued closure runs.\<close>

lemma worker_iteration:
  assumes "queue_contract Q pend" and "RunThread b" and "pend (MessageQueue b) = (\<lambda>_. [])(thr := map Work ws)"
  obtains q where "pend q = (\<lambda>_. [])(thr := map Work ws)" "ThreadFunction Q run 1 b = Inr (b\<lparr>MessageQueue := q\<rparr>)"
  | q w vs where "ws = w # vs" "pend q = (\<lambda>_. [])(thr := map Work vs)"
      "ThreadFunction Q run 1 b = (case run w (target b) of Inl e \<Rightarrow> Inl e
         | Inr s \<Rightarrow> Inr (b\<lparr>MessageQueue := q, target := s\<rparr>))"
proof -
  obtain r q where rq: "q_try_dequeue Q (MessageQueue b) = (r, q)" by fastforce
  show ?thesis
  proof (cases r)
    case None
    with rq contract_none [OF assms(1)] assms(2,3) show ?thesis by (intro that(1) [of q]) simp_all
  next
    case (Some t)
    from single_producer_step [OF assms(1,3)] rq Some obtain w vs where
      "ws = w # vs" "t = Work w" "pend q = (\<lambda>_. [])(thr := map Work vs)" by metis
    with rq Some assms(2) show ?thesis by (intro that(2) [of w vs q]) (simp_all split: sum.split)
  qed
qed

text \<open>A closure of \<open>log\<close> serialises its message and offers it to the queue of the connection.\<close>

lemma log_work_graylog:
  assumes "Handlers s = [0]" and "Store s 0 = GraylogH g"
    and "logMsgToJSON (json_dump V) (to_secs V) (log_message E L M [] thr s) = Inr t"
  shows "run_base E (virtual_ops V) (LogWork L M [] thr) s =
    Inr (s\<lparr>Store := (Store s)(0 := GraylogH (sendMessage (graylog_q V) (worker E) t g)), Ticks := Suc (Ticks s)\<rparr>)"
  using assms
  by (simp add: add_to_handlers_def virtual_ops_def virtual_addMessage_def map_result_def graylog_addMessage_def)

lemma enqueued_cases:
  "enqueued Q thr f s = [(thr, f)] \<or> enqueued Q thr f s = [] \<and> \<not> never_refuses Q"
  by (auto simp: enqueued_def never_refuses_def)

lemma graylog_inv_log_work:
  assumes "graylog_inv pend E V srt thr g0 cs b fin (LogWork L M [] thr # vs) g ms ks"
    and "serialisable V E thr T" and "M \<in> T" and "pend q = (\<lambda>_. [])(thr := map Work vs)"
  shows "\<exists>s g' ms' ks'. run_base E (virtual_ops V) (LogWork L M [] thr) (target b) = Inr s
    \<and> graylog_inv pend E V srt thr g0 cs (b\<lparr>MessageQueue := q, target := s\<rparr>) (fin @ [LogWork L M [] thr]) vs g' ms' ks'"
proof -
  let ?w = "LogWork L M [] thr" and ?s = "target b" and ?Q = "graylog_q V"
  let ?m = "log_message E L M [] thr ?s"
  note inv = assms(1) [unfolded graylog_inv_def]
  have "length fin \<noteq> 0" "length fin \<noteq> 1" using inv by (auto simp: length_Suc_conv)
  then have "2 \<le> length fin" by linarith
  then have two: "\<not> length fin < 2" "fin \<noteq> []" by auto
  have bm: "BaseMsg ?s = init_base E LogMessage_default" "Handlers ?s = [0]" "Store ?s 0 = GraylogH g"
    using inv two by simp_all
  have fields: "AdditionalFields (init_base E LogMessage_default) = []"
    by (simp add: init_base_def LogMessage_default_def Let_def split: prod.split)
  have built: "built_message E thr ?m" by (simp add: built_message_def log_message_parts bm fields)
  then obtain t where t: "logMsgToJSON (json_dump V) (to_secs V) ?m = Inr t"
    using assms(2,3) by (auto simp: serialisable_def log_message_parts)
  let ?g = "sendMessage ?Q (worker E) t g"
  have jt: "gelf_text V ?m = t" by (simp add: json_text_def t)
  define ks' where "ks' = ks @ (if enqueued ?Q (worker E) (MsgFunc t) g = [] then [] else [?m])"
  have "conn_run ?Q srt True g0 (map (\<lambda>m. (worker E, MsgFunc (gelf_text V m))) ks @ enqueued ?Q (worker E) (MsgFunc t) g) ?g"
    using inv by (intro conn_run.run_send) simp
  moreover have "map (\<lambda>m. (worker E, MsgFunc (gelf_text V m))) ks @ enqueued ?Q (worker E) (MsgFunc t) g =
      map (\<lambda>m. (worker E, MsgFunc (gelf_text V m))) ks'"
    using enqueued_cases [of ?Q "worker E" "MsgFunc t" g] by (auto simp: ks'_def jt)
  ultimately have run: "conn_run ?Q srt True g0 (map (\<lambda>m. (worker E, MsgFunc (gelf_text V m))) ks') ?g" by simp
  have sub: "subseq ks' (ms @ [?m])" "never_refuses ?Q \<longrightarrow> ks' = ms @ [?m]"
    using inv subseq_snoc [of ks ms ?m] enqueued_cases [of ?Q "worker E" "MsgFunc t" g] by (auto simp: ks'_def)
  have "InitBase # ReplaceHandler 0 # log_works thr cs = (fin @ [?w]) @ vs" using inv by simp
  moreover have "map (\<lambda>m. LogWork (SeverityLevel m) (MessageString m) [] thr) (ms @ [?m]) = drop 2 (fin @ [?w])"
    using inv two by (simp add: log_message_parts)
  ultimately have "graylog_inv pend E V srt thr g0 cs (b\<lparr>MessageQueue := q, target := ?s\<lparr>Store := (Store ?s)(0 := GraylogH ?g),
      Ticks := Suc (Ticks ?s)\<rparr>\<rparr>) (fin @ [?w]) vs ?g (ms @ [?m]) ks'"
    unfolding graylog_inv_def using inv two built run sub assms(4) by simp
  with log_work_graylog [OF bm(2,3) t] show ?thesis by blast
qed

lemma graylog_inv_setup_work:
  assumes "graylog_inv pend E V srt thr g0 cs b fin (w # vs) g ms ks" and "length fin < 2"
    and "pend q = (\<lambda>_. [])(thr := map Work vs)"
  shows "\<exists>s. run_base E (virtual_ops V) w (target b) = Inr s
    \<and> graylog_inv pend E V srt thr g0 cs (b\<lparr>MessageQueue := q, target := s\<rparr>) (fin @ [w]) vs g ms ks"
proof -
  note inv = assms(1) [unfolded graylog_inv_def]
  have list: "InitBase # ReplaceHandler 0 # log_works thr cs = fin @ w # vs" using inv by simp
  consider "fin = []" "w = InitBase" | "fin = [InitBase]" "w = ReplaceHandler 0"
    using list assms(2) by (cases fin; cases "tl fin"; auto)
  then show ?thesis
  proof cases
    case 1
    with inv have "ms = []" "ks = []" by auto
    with 1 inv assms(3) show ?thesis by (simp add: graylog_inv_def)
  next
    case 2
    with inv have "ms = []" "ks = []" by auto
    with 2 inv assms(3) show ?thesis
      by (simp add: graylog_inv_def add_or_replace_def virtual_ops_def)
  qed
qed

lemma graylog_inv_work:
  assumes "queue_contract Q pend" and "graylog_inv pend E V srt thr g0 cs b fin ws g ms ks"
    and "serialisable V E thr T" and "snd ` set cs \<subseteq> T"
  shows "\<exists>b' fin ws g ms ks. ThreadFunction Q (run_base E (virtual_ops V)) 1 b = Inr b'
    \<and> graylog_inv pend E V srt thr g0 cs b' fin ws g ms ks"
proof -
  note inv = assms(2) [unfolded graylog_inv_def]
  have "RunThread b" "pend (MessageQueue b) = (\<lambda>_. [])(thr := map Work ws)" using inv by simp_all
  from worker_iteration [OF assms(1) this, of "run_base E (virtual_ops V)"] show ?thesis
  proof cases
    case (1 q)
    with assms(2) have "graylog_inv pend E V srt thr g0 cs (b\<lparr>MessageQueue := q\<rparr>) fin ws g ms ks"
      by (simp add: graylog_inv_def)
    with 1 show ?thesis by blast
  next
    case (2 q w vs)
    show ?thesis
    proof (cases "length fin < 2")
      case True
      from graylog_inv_setup_work [OF assms(2) [unfolded 2(1)] True 2(2)] obtain s where
        s: "run_base E (virtual_ops V) w (target b) = Inr s"
        "graylog_inv pend E V srt thr g0 cs (b\<lparr>MessageQueue := q, target := s\<rparr>) (fin @ [w]) vs g ms ks" by blast
      from 2(3) have "ThreadFunction Q (run_base E (virtual_ops V)) 1 b = Inr (b\<lparr>MessageQueue := q, target := s\<rparr>)"
        by (simp only: s(1) sum.case)
      with s(2) show ?thesis by blast
    next
      case False
      have "InitBase # ReplaceHandler 0 # log_works thr cs = fin @ w # vs" using inv 2(1) by simp
      with False have "w \<in> set (log_works thr cs)"
        by (cases fin; cases "tl fin"; auto)
      with assms(4) obtain L M where w: "w = LogWork L M [] thr" "M \<in> T" by (auto simp: log_works_def)
      from graylog_inv_log_work [OF assms(2) [unfolded 2(1) w(1)] assms(3) w(2) 2(2)] obtain s g' ms' ks' where
        s: "run_base E (virtual_ops V) w (target b) = Inr s"
        "graylog_inv pend E V srt thr g0 cs (b\<lparr>MessageQueue := q, target := s\<rparr>) (fin @ [w]) vs g' ms' ks'"
        unfolding w(1) by blast
      from 2(3) have "ThreadFunction Q (run_base E (virtual_ops V)) 1 b = Inr (b\<lparr>MessageQueue := q, target := s\<rparr>)"
        by (simp only: s(1) sum.case)
      with s(2) show ?thesis by blast
    qed
  qed
qed

lemma graylog_run_inv:
  assumes "queue_contract Q pend" and "pend q0 = (\<lambda>_. [])"
    and "graylog_run Q E V srt thr (graylog_logger Q q0 thr g0) cs b"
    and "serialisable V E thr T" and "snd ` set cs \<subseteq> T"
  shows "\<exists>fin ws g ms ks. graylog_inv pend E V srt thr g0 cs b fin ws g ms ks"
  using assms(3,5)
proof (induction rule: graylog_run.induct)
  case begins
  from graylog_inv_start [OF assms(1,2)] show ?case by blast
next
  case (logs cs b Level Message)
  then obtain fin ws g ms ks where "graylog_inv pend E V srt thr g0 cs b fin ws g ms ks" by auto
  from graylog_inv_log [OF assms(1) this] show ?case by blast
next
  case (works cs b b')
  then obtain fin ws g ms ks where "graylog_inv pend E V srt thr g0 cs b fin ws g ms ks" by auto
  from graylog_inv_work [OF assms(1) this assms(4) works.prems] works.hyps(2) show ?case by auto
next
  case (sends cs b g g')
  then obtain fin ws g1 ms ks where inv: "graylog_inv pend E V srt thr g0 cs b fin ws g1 ms ks" by auto
  with sends.hyps(2) have "g1 = g" by (simp add: graylog_inv_def)
  with graylog_inv_io [OF inv] sends.hyps(3) show ?case by blast
qed

section \<open>What arrives\<close>

lemma sent_messages_gelf:
  assumes "\<forall>m \<in> set ks. gelf_text V m \<noteq> []"
  shows "sent_messages (map (\<lambda>m. (p, MsgFunc (gelf_text V m))) ks) = map (gelf_text V) ks"
  using assms by (induction ks) (simp_all add: sent_messages_def)

lemma log_works_messages:
  assumes "map (\<lambda>m. LogWork (SeverityLevel m) (MessageString m) [] thr) ms = log_works thr cs"
  shows "map (\<lambda>m. (SeverityLevel m, MessageString m)) ms = filter (\<lambda>c. fst c \<le> Notice) cs"
proof -
  let ?f = "\<lambda>w. case w of LogWork L M X t \<Rightarrow> (L, M) | _ \<Rightarrow> (Notice, [])"
  from arg_cong [OF assms, of "map ?f"]
  show ?thesis by (simp add: log_works_def comp_def)
qed

section \<open>A run in which a message arrives\<close>

fun io_action :: "action \<Rightarrow> bool" where
  "io_action (Complete c) = True"
| "io_action (Run_head n) = True"
| "io_action _ = False"

lemma set_connection_simps:
  "Store (target (set_connection g b)) 0 = GraylogH g"
  "set_connection g (set_connection g1 b) = set_connection g b"
  by (simp_all add: set_connection_def)

lemma set_connection_same: "Store (target b) 0 = GraylogH g \<Longrightarrow> set_connection g b = b"
  by (simp add: set_connection_def fun_upd_idem)

lemma graylog_run_act:
  assumes "graylog_run Q E V srt thr b0 cs b" and "Store (target b) 0 = GraylogH g" and "io_action a"
  shows "graylog_run Q E V srt thr b0 cs (set_connection (snd (act (graylog_q V) srt a (h, g))) b)"
proof (cases a)
  case (Complete c)
  with set_connection_same [OF assms(2)] assms(1) show ?thesis
    by (auto intro!: sends [OF assms(1,2)] complete_op [where us = "[]", simplified] split: list.splits)
next
  case (Run_head n)
  with set_connection_same [OF assms(2)] assms(1) show ?thesis
    by (auto intro!: sends [OF assms(1,2)] run_ready [where us = "[]", simplified] split: list.splits)
qed (use assms(3) in auto)

lemma graylog_run_acts:
  assumes "graylog_run Q E V srt thr b0 cs b" and "Store (target b) 0 = GraylogH (snd hs)" and "list_all io_action acts"
  shows "graylog_run Q E V srt thr b0 cs (set_connection (snd (fold (act (graylog_q V) srt) acts hs)) b)"
  using assms
proof (induction acts arbitrary: b hs)
  case Nil
  then show ?case by (simp add: set_connection_same)
next
  case (Cons a acts)
  let ?hs = "act (graylog_q V) srt a hs"
  from graylog_run_act [OF Cons.prems(1,2), of a "fst hs"] Cons.prems(3)
  have "graylog_run Q E V srt thr b0 cs (set_connection (snd ?hs) b)" by simp
  from Cons.IH [OF this set_connection_simps(1)] Cons.prems(3) show ?case by (simp add: set_connection_simps)
qed

lemma graylog_run_works:
  assumes "graylog_run Q E V srt thr b0 cs b" and "ThreadFunction Q (run_base E (virtual_ops V)) n b = Inr b'"
  shows "graylog_run Q E V srt thr b0 cs b'"
  using assms
proof (induction n arbitrary: b)
  case (Suc n)
  have "\<exists>b1. ThreadFunction Q (run_base E (virtual_ops V)) 1 b = Inr b1
      \<and> ThreadFunction Q (run_base E (virtual_ops V)) n b1 = Inr b'"
    using Suc.prems(2) by (cases n) (auto split: if_splits prod.splits option.splits sum.splits)
  with Suc show ?case by (blast intro: works)
qed simp

text \<open>The example: one call, three iterations of the worker, and the connection is established.\<close>

definition example_worked :: "((nat \<times> nat base_work task) list,
    ((nat \<times> console_work task) list, (nat \<times> file_work task) list, (nat \<times> queued) list) handler) base" where
  "example_worked = (case ThreadFunction list_queue (run_base test_platform (virtual_ops test_env)) 3
      (log_plain list_queue 1 Error ''boom'' (graylog_logger list_queue [] 1 (Impl ''h'' 1 []))) of
     Inl e \<Rightarrow> graylog_logger list_queue [] 1 (Impl ''h'' 1 []) | Inr b \<Rightarrow> b)"

definition example_connection :: "(nat \<times> queued) list impl" where
  "example_connection = (case Store (target example_worked) 0 of GraylogH g \<Rightarrow> g | _ \<Rightarrow> Impl ''h'' 1 [])"

definition example_actions :: "action list" where
  "example_actions =
     [Complete (Resolved False [endpoint_default]), Run_head 0,
      Complete (Connected False \<lparr>EndpointList = [endpoint_default], NextEndpoint = 1\<rparr>), Run_head 0,
      Complete (Received False), Run_head 0, Complete (Written False (''{}'' @ [nul])), Run_head 3]"

definition example_sent :: "(nat \<times> queued) list impl" where
  "example_sent = snd (fold (act (graylog_q test_env) id) example_actions ([], example_connection))"

lemma example_run_reaches:
  "graylog_run list_queue test_platform test_env id 1 (graylog_logger list_queue [] 1 (Impl ''h'' 1 []))
     [(Error, ''boom'')] (set_connection example_sent example_worked)"
proof -
  let ?b0 = "graylog_logger list_queue [] 1 (Impl ''h'' 1 []) :: ((nat \<times> nat base_work task) list,
    ((nat \<times> console_work task) list, (nat \<times> file_work task) list, (nat \<times> queued) list) handler) base"
  let ?run = "ThreadFunction list_queue (run_base test_platform (virtual_ops test_env)) 3 (log_plain list_queue 1 Error ''boom'' ?b0)"
  have "case ?run of Inl e \<Rightarrow> False | Inr b \<Rightarrow> True" by code_simp
  then obtain b where b: "?run = Inr b" by (auto split: sum.splits)
  then have "example_worked = b" by (simp add: example_worked_def)
  moreover have "graylog_run list_queue test_platform test_env id 1 ?b0 [(Error, ''boom'')]
      (log_plain list_queue 1 Error ''boom'' ?b0)"
    using logs [OF begins, where Level = Error and Message = "''boom''"] by simp
  ultimately have r: "graylog_run list_queue test_platform test_env id 1 ?b0 [(Error, ''boom'')] example_worked"
    using graylog_run_works b by blast
  have "case Store (target example_worked) 0 of GraylogH g \<Rightarrow> True | _ \<Rightarrow> False" by code_simp
  then have "Store (target example_worked) 0 = GraylogH example_connection"
    by (simp add: example_connection_def split: handler.splits)
  then have "Store (target example_worked) 0 = GraylogH (snd ([] :: (nat \<times> queued) list, example_connection))"
    by simp
  moreover have "list_all io_action example_actions" by (simp add: example_actions_def)
  ultimately show ?thesis unfolding example_sent_def by (rule graylog_run_acts [OF r])
qed

section \<open>Property\<close>

text \<open>
  C2: end to end, what is logged arrives at the Graylog server. Calls of one thread, iterations
  of the logger's worker and steps of the connection's I/O thread (with any outcomes of the
  network operations) are interleaved in any way. The worker never throws. When the queues are
  empty and everything taken from the queue has been sent, there is one message for each call
  at or above the default minimum severity, with its level and text, in the order of the
  calls; the bytes sent are the zero-terminated JSON texts of those messages that the bounded
  queue accepted, in that order, and of all of them if it refused none; and a server that gets
  these bytes in any blocks has counted them and holds the last. Serialised texts are not
  empty and have no zero byte.
\<close>

theorem logged_messages_arrive:
  assumes "queue_contract Q pend" and "pend q0 = (\<lambda>_. [])"
    and "bounded_contract (graylog_q V) gpend" and "gpend r0 = (\<lambda>_. [])"
    and "graylog_run Q E V srt thr (graylog_logger Q q0 thr (Impl host port r0)) cs b"
    and "serialisable V E thr (snd ` set cs)"
  shows "(\<exists>b'. ThreadFunction Q (run_base E (virtual_ops V)) 1 b = Inr b')
    \<and> (pend (MessageQueue b) = (\<lambda>_. []) \<longrightarrow>
        (\<exists>g. Store (target b) 0 = GraylogH g
          \<and> (gpend (LogMessages g) = (\<lambda>_. []) \<and> MessageBuffer g = [] \<longrightarrow>
              (\<exists>ms ks. map (\<lambda>m. (SeverityLevel m, MessageString m)) ms = filter (\<lambda>c. fst c \<le> Notice) cs
                \<and> subseq ks ms \<and> (never_refuses (graylog_q V) \<longrightarrow> ks = ms)
                \<and> Sent g = concat (map (\<lambda>m. gelf_text V m @ [nul]) ks)
                \<and> (\<forall>blocks. concat blocks = Sent g \<longrightarrow>
                    (let srv = fold read_bytes blocks LogTestServer in
                       GetNrOfMessages srv = length ks
                       \<and> fst (GetLatestMessage srv) = (if ks = [] then [] else gelf_text V (last ks))
                       \<and> currentMessage srv = []))))))"
proof (intro conjI impI)
  obtain fin ws g ms ks where I: "graylog_inv pend E V srt thr (Impl host port r0) cs b fin ws g ms ks"
    using graylog_run_inv [OF assms(1,2,5,6)] by auto
  from graylog_inv_work [OF assms(1) I assms(6)]
  show "\<exists>b'. ThreadFunction Q (run_base E (virtual_ops V)) 1 b = Inr b'" by auto
  assume empty: "pend (MessageQueue b) = (\<lambda>_. [])"
  note inv = I [unfolded graylog_inv_def]
  have "ws = []" using inv empty by (metis fun_upd_same map_is_Nil_conv)
  then have fin: "fin = InitBase # ReplaceHandler 0 # log_works thr cs" using inv by simp
  have ms: "map (\<lambda>m. LogWork (SeverityLevel m) (MessageString m) [] thr) ms = drop 2 fin" using inv by simp
  note level_text = log_works_messages [OF ms [unfolded fin numeral_2_eq_2 drop_Suc_Cons drop0]]
  have texts: "gelf_text V m \<noteq> [] \<and> nul \<notin> set (gelf_text V m)" if m: "m \<in> set ks" for m
  proof -
    have "m \<in> set ms" using m inv by (auto dest: list_emb_set)
    moreover from this have "(SeverityLevel m, MessageString m) \<in> set cs"
      using level_text by (metis (no_types, lifting) filter_is_subset image_eqI list.set_map subsetD)
    ultimately have "built_message E thr m \<and> MessageString m \<in> snd ` set cs" using inv by force
    with assms(6) show ?thesis unfolding serialisable_def json_text_def by fastforce
  qed
  show "\<exists>g. Store (target b) 0 = GraylogH g \<and> (gpend (LogMessages g) = (\<lambda>_. []) \<and> MessageBuffer g = [] \<longrightarrow>
      (\<exists>ms ks. map (\<lambda>m. (SeverityLevel m, MessageString m)) ms = filter (\<lambda>c. fst c \<le> Notice) cs
        \<and> subseq ks ms \<and> (never_refuses (graylog_q V) \<longrightarrow> ks = ms)
        \<and> Sent g = concat (map (\<lambda>m. gelf_text V m @ [nul]) ks)
        \<and> (\<forall>blocks. concat blocks = Sent g \<longrightarrow>
            (let srv = fold read_bytes blocks LogTestServer in
               GetNrOfMessages srv = length ks
               \<and> fst (GetLatestMessage srv) = (if ks = [] then [] else gelf_text V (last ks))
               \<and> currentMessage srv = []))))"
  proof (intro exI [of _ g] conjI impI)
    show "Store (target b) 0 = GraylogH g" using inv by simp
    assume done_g: "gpend (LogMessages g) = (\<lambda>_. []) \<and> MessageBuffer g = []"
    let ?h = "map (\<lambda>m. (worker E, MsgFunc (gelf_text V m))) ks"
    have "conn_run (graylog_q V) srt True (Impl host port r0) ?h g" using inv by simp
    from run_accounted [OF assms(3,4) this] obtain ts where ts: "accounted gpend ?h ts g" by blast
    have "of_producer (worker E) ?h = of_producer (worker E) ts" using accountedD [OF ts, of "worker E"] done_g by simp
    then have "ts = ?h" by (intro of_producer_only [OF _ taken_in_history [OF ts]]) auto
    with ts done_g have "Sent g = frames ?h" by (simp add: accounted_def)
    then have sent: "Sent g = concat (map (\<lambda>t. t @ [nul]) (map (gelf_text V) ks))"
      using frames_sent [of ?h] sent_messages_gelf [of ks V "worker E"] texts by simp
    have "\<forall>m \<in> set (map (gelf_text V) ks). nul \<notin> set m" using texts by auto
    from receive_frames [OF this, of LogTestServer] sent
    have recv: "fold receive_char (Sent g) LogTestServer = LogTestServer\<lparr>
        previousMessage := (if ks = [] then [] else gelf_text V (last ks)), nrOfMessagesReceived := length ks\<rparr>"
      by (simp add: LogTestServer_def last_map)
    show "\<exists>ms ks. map (\<lambda>m. (SeverityLevel m, MessageString m)) ms = filter (\<lambda>c. fst c \<le> Notice) cs
        \<and> subseq ks ms \<and> (never_refuses (graylog_q V) \<longrightarrow> ks = ms)
        \<and> Sent g = concat (map (\<lambda>m. gelf_text V m @ [nul]) ks)
        \<and> (\<forall>blocks. concat blocks = Sent g \<longrightarrow>
            (let srv = fold read_bytes blocks LogTestServer in
               GetNrOfMessages srv = length ks
               \<and> fst (GetLatestMessage srv) = (if ks = [] then [] else gelf_text V (last ks))
               \<and> currentMessage srv = []))"
      using inv level_text sent recv
      by (intro exI [of _ ms] exI [of _ ks])
        (auto simp: read_blocks GetNrOfMessages_def GetLatestMessage_def LogTestServer_def comp_def Let_def)
  qed
qed

theorem logged_messages_arrive_witness:
  "\<exists>ks. concat (map (\<lambda>m. gelf_text test_env m @ [nul]) ks) = ''{}'' @ [nul]
     \<and> GetNrOfMessages (fold read_bytes [''{'', ''}'' @ [nul]] LogTestServer) = length ks"
proof -
  let ?b = "set_connection example_sent example_worked"
  have contract: "bounded_contract (graylog_q test_env) list_pend"
    by (simp add: test_env_def bounded_list_contract)
  have ser: "serialisable test_env test_platform 1 (snd ` set [(Error, ''boom'')])"
    by (simp add: serialisable_def test_env_def logMsgToJSON_def nul_def)
  have "MessageQueue example_worked = []" by code_simp
  then have q: "list_pend (MessageQueue ?b) = (\<lambda>_. [])"
    by (simp add: set_connection_def list_pend_empty)
  have "LogMessages example_sent = []" "MessageBuffer example_sent = []" by code_simp+
  then have e: "list_pend (LogMessages example_sent) = (\<lambda>_. [])" "MessageBuffer example_sent = []"
    by (simp_all add: list_pend_empty)
  have s: "Sent example_sent = ''{}'' @ [nul]" by code_simp
  note arrive = logged_messages_arrive [OF list_queue_contract list_pend_empty contract list_pend_empty
      example_run_reaches ser, THEN conjunct2, rule_format, OF q]
  then obtain ks where ks: "Sent example_sent = concat (map (\<lambda>m. gelf_text test_env m @ [nul]) ks)"
    "\<forall>blocks. concat blocks = Sent example_sent \<longrightarrow>
       GetNrOfMessages (fold read_bytes blocks LogTestServer) = length ks"
    using e by (auto simp: set_connection_simps Let_def)
  have "concat [''{'', ''}'' @ [nul]] = Sent example_sent" by (simp add: s)
  with ks(2) have "GetNrOfMessages (fold read_bytes [''{'', ''}'' @ [nul]] LogTestServer) = length ks" by blast
  with ks(1) [unfolded s] show ?thesis by metis
qed

end
