(* ===== verification/Console_Logger.thy ===== *)
theory Console_Logger
  imports Logger File_Interface
begin

text \<open>
  Model of the command line tool \<open>console_logger/ConsoleLogger.cpp\<close>: the loop over the results
  of \<open>getopt_long\<close> (option character and \<open>optarg\<close>), the conversion of numbers, and the calls
  of the logging library that follow. Parameters: \<open>std::stof\<close>, the conversion of the timeout
  to milliseconds, the three formatted arguments of the second message, and the content of the
  file of a name (\<open>None\<close> if it cannot be opened for appending).
\<close>

section \<open>Conversion of numbers\<close>

text \<open>\<open>std::stoi\<close> in base 10: white space, an optional sign, and the longest run of digits.\<close>

definition is_space :: "char \<Rightarrow> bool" where
  "is_space c \<longleftrightarrow> (let n = of_char c :: nat in n = 32 \<or> 9 \<le> n \<and> n \<le> 13)"

definition digit_val :: "char \<Rightarrow> int" where
  "digit_val c = int (of_char c) - 48"

definition digits_val :: "string \<Rightarrow> int" where
  "digits_val ds = foldl (\<lambda>a d. 10 * a + digit_val d) 0 ds"

definition strtol :: "string \<Rightarrow> int option" where
  "strtol s =
     (let t = dropWhile is_space s;
          neg = (t \<noteq> [] \<and> hd t = CHR ''-'');
          u = (if t \<noteq> [] \<and> (hd t = CHR ''-'' \<or> hd t = CHR ''+'') then tl t else t);
          ds = takeWhile is_digit u
      in if ds = [] then None else Some (if neg then - digits_val ds else digits_val ds))"

definition stoi :: "string \<Rightarrow> exn + int" where
  "stoi s = (case strtol s of
     None \<Rightarrow> Inl Invalid_argument
   | Some i \<Rightarrow> if - (2 ^ 31) \<le> i \<and> i < 2 ^ 31 then Inr i else Inl Out_of_range)"

section \<open>The option loop\<close>

record 'f options =
  fileName :: string
  address1 :: string
  msg :: string
  sevLevel :: int
  port :: "16 word"
  timeout :: 'f
  extraKey :: string
  extraField :: AdditionalField

definition options_default :: "'f \<Rightarrow> 'f options" where
  "options_default one = \<lparr>fileName = ''messages.log'', address1 = ''localhost'', msg = [], sevLevel = 7,
     port = 12201, timeout = one, extraKey = [], extraField = AdditionalField_default\<rparr>"

text \<open>
  What an option leads to: the loop goes on, \<open>main\<close> returns 0 after printing the usage
  (\<open>Usage\<close>), or an exception leaves \<open>main\<close>.
\<close>

datatype 'f outcome = Continue "'f options" | Usage | Uncaught exn

text \<open>\<open>try ... catch (std::invalid_argument)\<close> around a conversion.\<close>

definition convert :: "exn + 'v \<Rightarrow> ('v \<Rightarrow> 'f outcome) \<Rightarrow> 'f outcome" where
  "convert r k = (case r of
     Inl e \<Rightarrow> (if e = Invalid_argument then Usage else Uncaught e)
   | Inr v \<Rightarrow> k v)"

definition set_extra :: "string \<Rightarrow> 'f options \<Rightarrow> 'f options" where
  "set_extra val o1 =
     (case find_char (CHR '':'') val of
        None \<Rightarrow> o1
      | Some splitLoc \<Rightarrow>
          (let o2 = o1\<lparr>extraKey := substr val 0 splitLoc,
                 extraField := AdditionalField_str (substr val (splitLoc + 1) (length val - 1))\<rparr>
           in if extraKey o2 = [] \<or> strVal (extraField o2) = [] then o2\<lparr>extraKey := []\<rparr> else o2))"

definition handle_option ::
  "(string \<Rightarrow> exn + 'f) \<Rightarrow> char \<times> string option \<Rightarrow> 'f options \<Rightarrow> 'f outcome" where
  "handle_option stof copt o1 =
     (let (c, optarg) = copt in
      if c = CHR ''h'' then Usage
      else if c = CHR ''f'' then
        Continue (o1\<lparr>fileName := (case optarg of Some a \<Rightarrow> a | None \<Rightarrow> [])\<rparr>)
      else if c = CHR ''a'' then
        Continue (o1\<lparr>address1 := (case optarg of Some a \<Rightarrow> a | None \<Rightarrow> [])\<rparr>)
      else (case optarg of
        None \<Rightarrow> Continue o1
      | Some val \<Rightarrow>
          if c = CHR ''p'' then convert (stoi val) (\<lambda>i. Continue (o1\<lparr>port := word_of_int i\<rparr>))
          else if c = CHR ''t'' then convert (stof val) (\<lambda>f. Continue (o1\<lparr>timeout := f\<rparr>))
          else if c = CHR ''m'' then Continue (o1\<lparr>msg := val\<rparr>)
          else if c = CHR ''l'' then convert (stoi val) (\<lambda>i.
            if i < 0 \<or> i > 7 then Usage else Continue (o1\<lparr>sevLevel := i\<rparr>))
          else if c = CHR ''e'' then Continue (set_extra val o1)
          else Continue o1))"

fun option_loop ::
  "(string \<Rightarrow> exn + 'f) \<Rightarrow> (char \<times> string option) list \<Rightarrow> 'f options \<Rightarrow> 'f outcome" where
  "option_loop stof [] o1 = Continue o1"
| "option_loop stof (copt # rest) o1 =
     (case handle_option stof copt o1 of
        Continue o2 \<Rightarrow> option_loop stof rest o2
      | r \<Rightarrow> r)"

section \<open>The calls of the library\<close>

text \<open>
  The handlers that \<open>main\<close> constructs, in this order, are registered under the numbers 0, 1
  and 2.
\<close>

datatype handler_spec = NewConsole | NewFile string | NewGraylog string "16 word"

definition new_handlers :: "'f options \<Rightarrow> (nat \<times> handler_spec) list" where
  "new_handlers o1 = (0, NewConsole)
     # (if fileName o1 \<noteq> [] then [(1, NewFile (fileName o1))] else [])
     @ (if address1 o1 \<noteq> [] then [(2, NewGraylog (address1 o1) (port o1))] else [])"

definition second_format :: string where
  "second_format =
     ''A formatted string containing an int ({}), a float ({}) and the string '' @ [CHR 0x22] @ ''{}''
     @ [CHR 0x22] @ ''.''"

definition command_line :: "string list \<Rightarrow> string" where
  "command_line argv = concat (map (\<lambda>a. '' '' @ a) (drop 1 argv))"

text \<open>The call of \<open>Log::Msg\<close> in the constructor of \<open>FileInterface\<close>, before that handler is added.\<close>

definition file_report :: "string option \<Rightarrow> string \<Rightarrow> 'a call" where
  "file_report existing Name =
     (case snd (FileInterface existing () Name 100) of (Level, Message) \<Rightarrow> CLog Level Message [])"

definition library_calls ::
  "(string \<Rightarrow> string option) \<Rightarrow> 'a list \<Rightarrow> string list \<Rightarrow> 'f options \<Rightarrow> 'a call list" where
  "library_calls files second_args argv o1 =
     [CField ''arguments'' (AdditionalField_str (command_line argv)), CMin Debug, CClear, CAddOrReplace 0]
     @ (if fileName o1 \<noteq> [] then [file_report (files (fileName o1)) (fileName o1), CAddOrReplace 1] else [])
     @ (if address1 o1 \<noteq> [] then [CAddOrReplace 2] else [])
     @ [CLog (Severity (word_of_int (sevLevel o1))) (msg o1)
          (if extraKey o1 \<noteq> [] then [(extraKey o1, extraField o1)] else []),
        CFmt Info second_format second_args, CFlush]"

datatype ('a, 'f) main_result =
    PrintAlternatives
  | Terminated exn
  | Calls "(nat \<times> handler_spec) list" "'a call list" int

definition main ::
  "(string \<Rightarrow> string option) \<Rightarrow> (string \<Rightarrow> exn + 'f) \<Rightarrow> 'f \<Rightarrow> ('f \<Rightarrow> int) \<Rightarrow> 'a list \<Rightarrow> string list
     \<Rightarrow> (char \<times> string option) list \<Rightarrow> ('a, 'f) main_result" where
  "main files stof one to_ms second_args argv getopt_results =
     (case option_loop stof getopt_results (options_default one) of
        Usage \<Rightarrow> PrintAlternatives
      | Uncaught e \<Rightarrow> Terminated e
      | Continue o1 \<Rightarrow>
          if msg o1 = [] then PrintAlternatives
          else Calls (new_handlers o1) (library_calls files second_args argv o1) (to_ms (timeout o1)))"

section \<open>Lemmas\<close>

lemma digit_char_props:
  assumes "d < 10"
  shows "digit_val (digit_char d) = int d" and "\<not> is_space (digit_char d)"
  using assms by (simp_all add: digit_char_def digit_val_def is_space_def Let_def)

lemma digit_not_sign: "is_digit c \<Longrightarrow> c \<noteq> CHR ''-'' \<and> c \<noteq> CHR ''+''"
  by (auto simp: is_digit_def)

lemma digit_not_space: "is_digit c \<Longrightarrow> \<not> is_space c"
  by (simp add: is_digit_def is_space_def Let_def)

lemma show_nat_not_empty: "show_nat n \<noteq> []"
  by (subst show_nat.simps) simp

lemma digits_val_show_nat: "digits_val (show_nat n) = int n"
proof (induction n rule: show_nat.induct)
  case (1 n)
  show ?case
  proof (cases "n < 10")
    case True
    with digit_char_props [OF True] show ?thesis by (simp add: show_nat.simps [of n] digits_val_def)
  next
    case False
    have "digits_val (show_nat n) = 10 * int (n div 10) + int (n mod 10)"
      using 1 [OF False] False digit_char_props(1) [of "n mod 10"]
      by (simp add: show_nat.simps [of n] digits_val_def)
    also have "\<dots> = int n" using mult_div_mod_eq [of 10 n] by linarith
    finally show ?thesis .
  qed
qed

lemma strtol_digits:
  assumes "ds \<noteq> []" and "list_all is_digit ds" and "rest = [] \<or> \<not> is_digit (hd rest)"
  shows "strtol (ds @ rest) = Some (digits_val ds)" and "strtol (CHR ''-'' # ds @ rest) = Some (- digits_val ds)"
proof -
  have tw: "takeWhile is_digit (ds @ rest) = ds"
    using assms(2,3) by (cases rest) (auto simp: list_all_iff takeWhile_append)
  obtain d es where ds: "ds = d # es" using assms(1) by (cases ds) auto
  then have d: "is_digit d" using assms(2) by simp
  have h: "dropWhile is_space (ds @ rest) = ds @ rest" "hd (ds @ rest) = d" "ds @ rest \<noteq> []"
    using ds digit_not_space [OF d] by simp_all
  show "strtol (ds @ rest) = Some (digits_val ds)"
    using digit_not_sign [OF d] assms(1) by (simp add: strtol_def h tw Let_def)
  have "dropWhile is_space (CHR ''-'' # ds @ rest) = CHR ''-'' # ds @ rest"
    by (simp add: is_space_def Let_def)
  then show "strtol (CHR ''-'' # ds @ rest) = Some (- digits_val ds)"
    using assms(1) by (simp add: strtol_def tw Let_def)
qed

lemma stoi_show_int:
  assumes "- (2 ^ 31) \<le> i" and "i < 2 ^ 31"
  shows "stoi (show_int i) = Inr i"
proof -
  have "strtol (show_int i) = Some i"
    using strtol_digits [OF show_nat_not_empty show_nat_digits, of "[]"]
    by (auto simp: show_int_def digits_val_show_nat)
  with assms show ?thesis by (simp add: stoi_def)
qed

text \<open>The level that the loop leaves is one of the levels 0 to 7.\<close>

definition level_ok :: "'f options \<Rightarrow> bool" where
  "level_ok o1 \<longleftrightarrow> 0 \<le> sevLevel o1 \<and> sevLevel o1 \<le> 7"

lemma set_extra_level [simp]: "sevLevel (set_extra val o1) = sevLevel o1"
  by (simp add: set_extra_def Let_def split: option.splits)

lemma handle_option_level: "handle_option stof copt o1 = Continue o2 \<Longrightarrow> level_ok o1 \<Longrightarrow> level_ok o2"
  by (cases copt)
    (auto simp: handle_option_def convert_def level_ok_def split: if_splits option.splits sum.splits)

lemma option_loop_level: "option_loop stof opts o1 = Continue o2 \<Longrightarrow> level_ok o1 \<Longrightarrow> level_ok o2"
proof (induction opts arbitrary: o1)
  case (Cons copt rest)
  then show ?case
    by (cases "handle_option stof copt o1") (auto dest: handle_option_level)
qed simp

text \<open>
  An extra field is split at the first colon: a key without colon and a non-empty value
  arrive as given (the value may contain colons), and an argument with an empty key or value
  leaves no extra field.
\<close>

lemma extra_field_split:
  assumes "CHR '':'' \<notin> set key"
  shows "set_extra (key @ CHR '':'' # val) o1 =
    o1\<lparr>extraKey := (if val = [] then [] else key), extraField := AdditionalField_str val\<rparr>"
proof -
  have "find_char (CHR '':'') (key @ CHR '':'' # val) = Some (length key)"
    using assms by (rule find_char_split)
  then show ?thesis
    by (auto simp: set_extra_def substr_def Let_def AdditionalField_str_def)
qed

lemma file_report_level: "CLog Level Message flds = file_report existing Name \<Longrightarrow> Level = Info \<or> Level = Error"
  by (cases existing) (simp_all add: file_report_def FileInterface_def Let_def)

section \<open>Properties\<close>

text \<open>
  The tool accepts exactly the levels 0 to 7. For a number in the range of \<open>int\<close> the
  option \<open>-l\<close> continues with that level if it is one of these and ends with the usage
  message otherwise; the usage message, which announces levels from 0 to 8, is wrong about
  the trace level 8.
\<close>

theorem levels_accepted:
  assumes "- (2 ^ 31) \<le> i" and "i < 2 ^ 31"
  shows "handle_option stof (CHR ''l'', Some (show_int i)) o1 =
    (if 0 \<le> i \<and> i \<le> 7 then Continue (o1\<lparr>sevLevel := i\<rparr>) else Usage)"
  using stoi_show_int [OF assms] by (auto simp: handle_option_def convert_def)

theorem levels_accepted_witness:
  "handle_option (\<lambda>_. Inl Invalid_argument) (CHR ''l'', Some ''8'') (options_default (0::nat)) = Usage"
proof -
  have "show_int 8 = ''8''" by code_simp
  with levels_accepted [of 8 "\<lambda>_. Inl Invalid_argument" "options_default (0::nat)"] show ?thesis by simp
qed

text \<open>
  C38: whatever the command line, the tool never logs a message whose severity the handlers
  cannot name: every call of \<open>Log::Msg\<close> that \<open>main\<close> makes, the report
  of the file handler's constructor included, has a severity from 0 to 7, below
  the minimum severity that it sets before.
\<close>

theorem tool_logs_known_severities:
  assumes "main files stof one to_ms second_args argv opts = Calls hs calls ms"
    and "CLog Level Message flds \<in> set calls"
  shows "known_severity Level \<and> Level \<le> Debug \<and> CMin Debug \<in> set (takeWhile (\<lambda>c. c \<noteq> CLog Level Message flds) calls)"
proof -
  obtain o1 where o1: "option_loop stof opts (options_default one) = Continue o1"
    "calls = library_calls files second_args argv o1"
    using assms(1) by (auto simp: main_def split: outcome.splits if_splits)
  have "level_ok o1" by (rule option_loop_level [OF o1(1)]) (simp add: level_ok_def options_default_def)
  then have "sevLevel o1 \<in> {0, 1, 2, 3, 4, 5, 6, 7}" by (auto simp: level_ok_def)
  then have own: "known_severity (Severity (word_of_int (sevLevel o1))) \<and> Severity (word_of_int (sevLevel o1)) \<le> Debug"
    by (elim insertE emptyE; simp add: known_severity_def int_of_severity_def less_eq_Severity_def Debug_def)
  have report: "known_severity Info \<and> Info \<le> Debug" "known_severity Error \<and> Error \<le> Debug"
    by (simp_all add: known_severity_def int_of_severity_def less_eq_Severity_def Debug_def Info_def Error_def)
  have "\<exists>c \<in> set calls. c = CLog Level Message flds
      \<and> (Level = Severity (word_of_int (sevLevel o1)) \<or> c = file_report (files (fileName o1)) (fileName o1))"
    using assms(2) unfolding o1(2) by (auto simp: library_calls_def split: if_splits)
  then have "known_severity Level \<and> Level \<le> Debug"
    using own report by (auto dest: file_report_level)
  moreover have "CMin Debug \<in> set (takeWhile (\<lambda>c. c \<noteq> CLog Level Message flds) calls)"
    by (simp add: o1(2) library_calls_def)
  ultimately show ?thesis by blast
qed

theorem tool_logs_known_severities_witness:
  "\<exists>hs calls ms. main (\<lambda>_. Some []) (\<lambda>_. Inl Invalid_argument) (0::nat) int ([] :: nat list) [''tool'']
      [(CHR ''m'', Some ''text''), (CHR ''l'', Some ''3'')] = Calls hs calls ms
    \<and> CLog (Severity 3) ''text'' [] \<in> set calls \<and> known_severity (Severity 3)"
proof -
  have "stoi ''3'' = Inr 3"
  proof -
    have "show_int 3 = ''3''" by code_simp
    with stoi_show_int [of 3] show ?thesis by simp
  qed
  then have "\<exists>hs calls ms. main (\<lambda>_. Some []) (\<lambda>_. Inl Invalid_argument) (0::nat) int ([] :: nat list) [''tool'']
      [(CHR ''m'', Some ''text''), (CHR ''l'', Some ''3'')] = Calls hs calls ms
    \<and> CLog (Severity 3) ''text'' [] \<in> set calls"
    by (simp add: main_def handle_option_def convert_def library_calls_def options_default_def)
  then obtain hs and calls :: "nat call list" and ms where
    c: "main (\<lambda>_. Some []) (\<lambda>_. Inl Invalid_argument) (0::nat) int ([] :: nat list) [''tool'']
      [(CHR ''m'', Some ''text''), (CHR ''l'', Some ''3'')] = Calls hs calls ms"
    "CLog (Severity 3) ''text'' [] \<in> set calls" by blast
  from tool_logs_known_severities [OF c] c show ?thesis by blast
qed

text \<open>
  A number outside the range of \<open>int\<close> ends the tool with an uncaught exception, for the
  port as for the level, since only \<open>std::invalid_argument\<close> is caught; a port in that range is
  narrowed to 16 bits without a message, so 70000 becomes 4464.
\<close>

theorem port_conversion:
  "handle_option stof (CHR ''p'', Some (show_int i)) o1 =
     (if - (2 ^ 31) \<le> i \<and> i < 2 ^ 31 then Continue (o1\<lparr>port := word_of_int i\<rparr>)
      else Uncaught Out_of_range)"
proof -
  have "strtol (show_int i) = Some i"
    using strtol_digits [OF show_nat_not_empty show_nat_digits, of "[]"]
    by (auto simp: show_int_def digits_val_show_nat)
  then show ?thesis by (auto simp: handle_option_def convert_def stoi_def)
qed

end
