(* ===== verification/Permute_Args.thy ===== *)
theory Permute_Args
  imports Log_Prelude
begin

text \<open>
  Model of the argument permutation of \<open>console_logger/getopt.h\<close>: \<open>gcd\<close> and
  \<open>permute_args\<close>, which exchanges two adjacent blocks of the argument vector in place by
  following the cycles of a rotation, and the proof that it does.
\<close>

section \<open>Definitions\<close>

text \<open>Undefined behaviour that the C code would run into.\<close>

datatype ub = Division_by_zero | Read_past_array

fun gcd_loop :: "nat \<Rightarrow> nat \<Rightarrow> nat \<Rightarrow> nat" where
  "gcd_loop a b c = (if c = 0 then b else gcd_loop b c (b mod c))"

declare gcd_loop.simps [simp del]

definition getopt_gcd :: "nat \<Rightarrow> nat \<Rightarrow> ub + nat" where
  "getopt_gcd a b = (if b = 0 then Inl Division_by_zero else Inr (gcd_loop a b (a mod b)))"

definition next_pos :: "nat \<Rightarrow> nat \<Rightarrow> nat \<Rightarrow> nat \<Rightarrow> nat" where
  "next_pos panonopt_end nnonopts nopts pos =
     (if pos \<ge> panonopt_end then pos - nnonopts else pos + nopts)"

definition swap_entries :: "nat \<Rightarrow> nat \<Rightarrow> 'a list \<Rightarrow> 'a list" where
  "swap_entries cstart pos nargv =
     (let swap = nargv ! pos; nargv' = nargv[pos := nargv ! cstart] in nargv'[cstart := swap])"

text \<open>The inner loop, with the number of iterations left, and the outer loop.\<close>

fun permute_cycle ::
  "nat \<Rightarrow> nat \<Rightarrow> nat \<Rightarrow> nat \<Rightarrow> nat \<Rightarrow> nat \<Rightarrow> 'a list \<Rightarrow> 'a list" where
  "permute_cycle panonopt_end nnonopts nopts cstart 0 pos nargv = nargv"
| "permute_cycle panonopt_end nnonopts nopts cstart (Suc j) pos nargv =
     (let pos' = next_pos panonopt_end nnonopts nopts pos
      in permute_cycle panonopt_end nnonopts nopts cstart j pos' (swap_entries cstart pos' nargv))"

fun permute_cycles ::
  "nat \<Rightarrow> nat \<Rightarrow> nat \<Rightarrow> nat \<Rightarrow> nat \<Rightarrow> nat \<Rightarrow> 'a list \<Rightarrow> 'a list" where
  "permute_cycles panonopt_end nnonopts nopts cyclelen 0 i nargv = nargv"
| "permute_cycles panonopt_end nnonopts nopts cyclelen (Suc r) i nargv =
     permute_cycles panonopt_end nnonopts nopts cyclelen r (Suc i)
       (permute_cycle panonopt_end nnonopts nopts (panonopt_end + i) cyclelen (panonopt_end + i) nargv)"

definition permute_args :: "nat \<Rightarrow> nat \<Rightarrow> nat \<Rightarrow> 'a list \<Rightarrow> ub + 'a list" where
  "permute_args panonopt_start panonopt_end opt_end nargv =
     (let nnonopts = panonopt_end - panonopt_start;
          nopts = opt_end - panonopt_end
      in case getopt_gcd nnonopts nopts of
           Inl e \<Rightarrow> Inl e
         | Inr ncycle \<Rightarrow>
             Inr (permute_cycles panonopt_end nnonopts nopts ((opt_end - panonopt_start) div ncycle)
                    ncycle 0 nargv))"

section \<open>Lemmas\<close>

lemma gcd_loop_gcd: "c = a mod b \<Longrightarrow> gcd_loop a b c = gcd a b"
proof (induction a b c rule: gcd_loop.induct)
  case (1 a b c)
  show ?case
  proof (cases "c = 0")
    case True
    with 1(2) have "b dvd a" by (simp add: dvd_eq_mod_eq_0)
    with True show ?thesis by (simp add: gcd_loop.simps [of a b] gcd_nat.absorb2)
  next
    case False
    with 1 show ?thesis by (simp add: gcd_loop.simps [of a b] gcd_red_nat [of a b])
  qed
qed

lemma getopt_gcd_gcd: "0 < b \<Longrightarrow> getopt_gcd a b = Inr (gcd a b)"
  by (simp add: getopt_gcd_def gcd_loop_gcd)

lemma length_swap [simp]: "length (swap_entries c p a) = length a"
  by (simp add: swap_entries_def Let_def)

lemma nth_swap:
  "c < length a \<Longrightarrow> p < length a \<Longrightarrow>
     swap_entries c p a ! x = (if x = c then a ! p else if x = p then a ! c else a ! x)"
  by (auto simp: swap_entries_def Let_def nth_list_update)

lemma length_permute_cycle [simp]: "length (permute_cycle e m n c j p a) = length a"
  by (induction e m n c j p a rule: permute_cycle.induct) (simp_all add: Let_def)

lemma length_permute_cycles [simp]: "length (permute_cycles e m n l r i a) = length a"
  by (induction e m n l r i a rule: permute_cycles.induct) simp_all

lemma permute_cycle_last:
  "permute_cycle e m n c (Suc j) p a =
     swap_entries c ((next_pos e m n ^^ Suc j) p) (permute_cycle e m n c j p a)"
proof (induction j arbitrary: p a)
  case 0
  then show ?case by (simp add: Let_def)
next
  case (Suc j)
  have "permute_cycle e m n c (Suc (Suc j)) p a =
      permute_cycle e m n c (Suc j) (next_pos e m n p) (swap_entries c (next_pos e m n p) a)"
    by (simp add: Let_def)
  also have "\<dots> = swap_entries c ((next_pos e m n ^^ Suc (Suc j)) p) (permute_cycle e m n c (Suc j) p a)"
    unfolding Suc.IH [of "next_pos e m n p"] by (simp add: Let_def funpow_swap1)
  finally show ?case .
qed

text \<open>In coordinates relative to the start of the blocks, a step adds \<open>n\<close> modulo \<open>m + n\<close>.\<close>

definition orbit :: "nat \<Rightarrow> nat \<Rightarrow> nat \<Rightarrow> nat \<Rightarrow> nat" where
  "orbit m n p k = (p + k * n) mod (m + n)"

lemma orbit_less: "0 < n \<Longrightarrow> orbit m n p k < m + n"
  by (simp add: orbit_def)

lemma orbit_Suc: "orbit m n p (Suc k) = (orbit m n p k + n) mod (m + n)"
  by (simp add: orbit_def mod_simps algebra_simps)

lemma next_pos_rel:
  assumes "p < m + n"
  shows "next_pos (s + m) m n (s + p) = s + (p + n) mod (m + n)"
proof (cases "m \<le> p")
  case True
  then have "(p + n) mod (m + n) = (p - m + (m + n)) mod (m + n)" by simp
  also have "\<dots> = p - m" using assms by (simp del: add_diff_assoc2)
  finally show ?thesis using True by (simp add: next_pos_def)
next
  case False
  then show ?thesis by (simp add: next_pos_def)
qed

lemma next_pos_orbit:
  assumes "p < m + n"
  shows "(next_pos (s + m) m n ^^ k) (s + p) = s + orbit m n p k"
proof (induction k)
  case 0
  then show ?case using assms by (simp add: orbit_def)
next
  case (Suc k)
  have "orbit m n p k < m + n" unfolding orbit_def using assms by (intro mod_less_divisor) linarith
  with Suc show ?case by (simp add: next_pos_rel orbit_Suc)
qed

definition cycle_length :: "nat \<Rightarrow> nat \<Rightarrow> nat" where
  "cycle_length m n = (m + n) div gcd m n"

lemma cycle_length_mult: "cycle_length m n * gcd m n = m + n"
proof -
  have "gcd m n dvd m + n" by simp
  then show ?thesis unfolding cycle_length_def by (rule dvd_div_mult_self)
qed

lemma cycle_length_pos: "0 < n \<Longrightarrow> 0 < cycle_length m n"
  using cycle_length_mult [of m n] by (cases "cycle_length m n = 0") auto

lemma cycle_length_dvd:
  assumes "0 < n"
  shows "(m + n) dvd d * n \<longleftrightarrow> cycle_length m n dvd d"
proof -
  let ?g = "gcd m n"
  have g: "0 < ?g" using assms by simp
  have "gcd (m + n) n = ?g" by simp
  then have c: "coprime (cycle_length m n) (n div ?g)"
    unfolding cycle_length_def using assms by (metis div_gcd_coprime less_numeral_extra(3))
  have "n = n div ?g * ?g" by simp
  then have "(m + n) dvd d * n \<longleftrightarrow> cycle_length m n * ?g dvd d * (n div ?g) * ?g"
    by (metis cycle_length_mult mult.assoc)
  also have "\<dots> \<longleftrightarrow> cycle_length m n dvd d * (n div ?g)" using g by simp
  also have "\<dots> \<longleftrightarrow> cycle_length m n dvd d" using c by (simp add: coprime_dvd_mult_left_iff)
  finally show ?thesis .
qed

lemma orbit_period:
  assumes "0 < n" and "p < m + n"
  shows "orbit m n p (cycle_length m n) = p"
proof -
  have "(m + n) dvd cycle_length m n * n" using cycle_length_dvd [OF assms(1)] by simp
  then show ?thesis
    using assms(2) unfolding orbit_def by (metis mod_add_right_eq dvd_imp_mod_0 mod_less add_0_right)
qed

lemma orbit_inj:
  assumes "0 < n" and "k < l" and "l < cycle_length m n"
  shows "orbit m n p k \<noteq> orbit m n p l"
proof
  assume "orbit m n p k = orbit m n p l"
  moreover have "p + k * n \<le> p + l * n" using assms(2) by simp
  ultimately have "(m + n) dvd (p + l * n) - (p + k * n)"
    unfolding orbit_def by (metis mod_eq_dvd_iff_nat)
  moreover have "(p + l * n) - (p + k * n) = (l - k) * n" by (simp add: diff_mult_distrib)
  ultimately have "cycle_length m n dvd l - k" using cycle_length_dvd [OF assms(1)] by simp
  then have "cycle_length m n \<le> l - k" using assms(2) by (intro dvd_imp_le) auto
  then show False using assms(3) by simp
qed

lemma orbit_class: "orbit m n p k mod gcd m n = p mod gcd m n"
proof -
  have "gcd m n dvd m + n" "gcd m n dvd k * n" by simp_all
  then have "orbit m n p k mod gcd m n = (p + k * n) mod gcd m n" "k * n mod gcd m n = 0"
    by (simp_all add: orbit_def mod_mod_cancel)
  then show ?thesis by (metis add.right_neutral mod_add_right_eq)
qed

lemma orbit_onto:
  assumes "0 < n" and "p < m + n" and "q < m + n" and "q mod gcd m n = p mod gcd m n"
  shows "\<exists>k < cycle_length m n. orbit m n p k = q"
proof -
  let ?L = "m + n" and ?g = "gcd m n"
  obtain x y where xy: "n * x = ?L * y + gcd n ?L"
    using bezout_nat [of n ?L] assms(1) by auto
  have g: "gcd n ?L = ?g" by (metis gcd.commute gcd_add1)
  have "?g dvd q + ?L - p"
  proof -
    have "(q + ?L) mod ?g = p mod ?g"
      using assms(4) by (metis dvd_add gcd_dvd1 gcd_dvd2 mod_add_right_eq dvd_imp_mod_0 add_0_right)
    moreover have "p \<le> q + ?L" using assms(2) by simp
    ultimately show ?thesis by (metis mod_eq_dvd_iff_nat)
  qed
  then obtain d where d: "q + ?L - p = ?g * d" by (auto elim: dvdE)
  have "p + (x * d) * n = p + d * (n * x)" by (simp add: algebra_simps)
  also have "\<dots> = p + ?g * d + ?L * (y * d)" unfolding xy g by (simp add: algebra_simps)
  also have "p + ?g * d = q + ?L" using d assms(2) by linarith
  finally have "(p + (x * d) * n) mod ?L = (q + ?L + ?L * (y * d)) mod ?L" by simp
  then have k: "orbit m n p (x * d) = q" using assms(3) by (simp add: orbit_def)
  let ?c = "cycle_length m n"
  have "?L dvd (x * d) div ?c * ?c * n" using cycle_length_dvd [OF assms(1)] by simp
  then have "((x * d) div ?c * ?c * n + (p + (x * d) mod ?c * n)) mod ?L = (p + (x * d) mod ?c * n) mod ?L"
    by (metis mod_add_left_eq dvd_imp_mod_0 add_0)
  moreover have "(x * d) div ?c * ?c * n + (p + (x * d) mod ?c * n) = p + (x * d) * n"
    by (metis add.left_commute add_mult_distrib div_mult_mod_eq)
  ultimately have "orbit m n p ((x * d) mod ?c) = q" using k by (simp add: orbit_def)
  moreover have "(x * d) mod ?c < ?c" using cycle_length_pos [OF assms(1)] by simp
  ultimately show ?thesis by blast
qed

text \<open>After \<open>j\<close> steps of a cycle every visited entry but the first holds its predecessor.\<close>

lemma permute_cycle_steps:
  assumes "0 < n" and "p < m + n" and "s + (m + n) \<le> length a" and "j < cycle_length m n"
  defines "A \<equiv> permute_cycle (s + m) m n (s + p) j (s + p) a"
  shows "(\<forall>k < j. A ! (s + orbit m n p (Suc k)) = a ! (s + orbit m n p k))
    \<and> A ! (s + p) = a ! (s + orbit m n p j)
    \<and> (\<forall>x. (\<forall>k \<le> j. x \<noteq> s + orbit m n p k) \<longrightarrow> A ! x = a ! x)"
  using assms(4) unfolding A_def
proof (induction j)
  case 0
  then show ?case using assms(2) by (simp add: orbit_def)
next
  case (Suc j)
  let ?B = "permute_cycle (s + m) m n (s + p) j (s + p) a"
  let ?new = "s + orbit m n p (Suc j)"
  from Suc have IH: "\<And>k. k < j \<Longrightarrow> ?B ! (s + orbit m n p (Suc k)) = a ! (s + orbit m n p k)"
    "?B ! (s + p) = a ! (s + orbit m n p j)"
    "\<And>x. (\<And>k. k \<le> j \<Longrightarrow> x \<noteq> s + orbit m n p k) \<Longrightarrow> ?B ! x = a ! x" by auto
  have p: "orbit m n p 0 = p" using assms(2) by (simp add: orbit_def)
  have fresh: "orbit m n p (Suc j) \<noteq> orbit m n p k" if "k \<le> j" for k
    using orbit_inj [OF assms(1), of k "Suc j" m p] that Suc.prems by auto
  have len: "?new < length ?B" "s + p < length ?B"
    using orbit_less [OF assms(1), of m p "Suc j"] assms(2,3) by simp_all
  have old: "?B ! ?new = a ! ?new" by (rule IH(3)) (use fresh in auto)
  have eq: "permute_cycle (s + m) m n (s + p) (Suc j) (s + p) a = swap_entries (s + p) ?new ?B"
    unfolding permute_cycle_last next_pos_orbit [OF assms(2)] by simp
  have nth: "permute_cycle (s + m) m n (s + p) (Suc j) (s + p) a ! x =
      (if x = s + p then a ! ?new else if x = ?new then a ! (s + orbit m n p j) else ?B ! x)" for x
    unfolding eq nth_swap [OF len(2,1)] by (simp add: old IH(2))
  have ne: "orbit m n p (Suc k) \<noteq> p" if "k \<le> j" for k
    using orbit_inj [OF assms(1), of 0 "Suc k" m p] that Suc.prems p by auto
  show ?case
  proof (intro conjI allI impI)
    fix k assume k: "k < Suc j"
    show "permute_cycle (s + m) m n (s + p) (Suc j) (s + p) a ! (s + orbit m n p (Suc k)) = a ! (s + orbit m n p k)"
    proof (cases "k = j")
      case True
      then show ?thesis unfolding nth using ne [of j] by simp
    next
      case False
      with k have "k < j" by simp
      then show ?thesis unfolding nth using ne [of k] fresh [of "Suc k"] IH(1) by force
    qed
  next
    show "permute_cycle (s + m) m n (s + p) (Suc j) (s + p) a ! (s + p) = a ! ?new" unfolding nth by simp
  next
    fix x assume x: "\<forall>k \<le> Suc j. x \<noteq> s + orbit m n p k"
    then have "x \<noteq> s + p" "x \<noteq> ?new" using p by (metis le0, blast)
    then show "permute_cycle (s + m) m n (s + p) (Suc j) (s + p) a ! x = a ! x"
      unfolding nth using IH(3) x by simp
  qed
qed

text \<open>A whole cycle moves every entry of its class; the last swap changes nothing.\<close>

lemma permute_cycle_class:
  assumes "0 < n" and "p < m + n" and "s + (m + n) \<le> length a"
  defines "A \<equiv> permute_cycle (s + m) m n (s + p) (cycle_length m n) (s + p) a"
  shows "q < m + n \<Longrightarrow> q mod gcd m n = p mod gcd m n \<Longrightarrow> A ! (s + (q + n) mod (m + n)) = a ! (s + q)"
    and "x < s \<or> s + (m + n) \<le> x \<or> (x - s) mod gcd m n \<noteq> p mod gcd m n \<Longrightarrow> A ! x = a ! x"
proof -
  obtain j where j: "cycle_length m n = Suc j" using cycle_length_pos [OF assms(1)] by (metis gr0_implies_Suc)
  let ?B = "permute_cycle (s + m) m n (s + p) j (s + p) a"
  have period: "orbit m n p (Suc j) = p" using orbit_period [OF assms(1,2)] j by simp
  have len: "s + p < length ?B" using assms(2,3) by simp
  have A: "A ! x = ?B ! x" for x
    unfolding A_def j permute_cycle_last next_pos_orbit [OF assms(2)] period nth_swap [OF len len] by simp
  have B: "\<And>k. k < j \<Longrightarrow> ?B ! (s + orbit m n p (Suc k)) = a ! (s + orbit m n p k)"
    "?B ! (s + p) = a ! (s + orbit m n p j)"
    "\<And>x. (\<And>k. k \<le> j \<Longrightarrow> x \<noteq> s + orbit m n p k) \<Longrightarrow> ?B ! x = a ! x"
    using permute_cycle_steps [OF assms(1-3), of j] j by auto
  show "A ! (s + (q + n) mod (m + n)) = a ! (s + q)" if "q < m + n" "q mod gcd m n = p mod gcd m n"
  proof -
    from orbit_onto [OF assms(1,2) that] j obtain k where k: "k \<le> j" "orbit m n p k = q"
      by (auto simp: less_Suc_eq_le)
    have "A ! (s + orbit m n p (Suc k)) = a ! (s + orbit m n p k)"
      using B(1,2) period k(1) A by (cases "k = j") auto
    then show ?thesis using k(2) by (simp add: orbit_Suc)
  qed
  show "A ! x = a ! x" if "x < s \<or> s + (m + n) \<le> x \<or> (x - s) mod gcd m n \<noteq> p mod gcd m n"
  proof -
    have "x \<noteq> s + orbit m n p k" for k
      using that orbit_less [OF assms(1), of m p k] orbit_class [of m n p k] by auto
    then show ?thesis using A B(3) by simp
  qed
qed

lemma permute_cycles_classes:
  assumes "0 < n" and "s + (m + n) \<le> length a" and "i + r = gcd m n"
    and moved: "\<And>q. q < m + n \<Longrightarrow> q mod gcd m n < i \<Longrightarrow> a ! (s + (q + n) mod (m + n)) = b ! (s + q)"
    and kept: "\<And>q. q < m + n \<Longrightarrow> i \<le> q mod gcd m n \<Longrightarrow> a ! (s + q) = b ! (s + q)"
    and outside: "\<And>x. x < s \<or> s + (m + n) \<le> x \<Longrightarrow> a ! x = b ! x"
  defines "A \<equiv> permute_cycles (s + m) m n (cycle_length m n) r i a"
  shows "(\<forall>q < m + n. A ! (s + (q + n) mod (m + n)) = b ! (s + q))
    \<and> (\<forall>x. x < s \<or> s + (m + n) \<le> x \<longrightarrow> A ! x = b ! x)"
  using assms(2-6) unfolding A_def
proof (induction r arbitrary: i a)
  case 0
  have "0 < gcd m n" using assms(1) by simp
  with 0 show ?case by simp
next
  case (Suc r)
  let ?g = "gcd m n" and ?a = "permute_cycle (s + m) m n (s + (m + i)) (cycle_length m n) (s + (m + i)) a"
  have g: "0 < ?g" "?g \<le> n" "i < ?g" using assms(1) Suc.prems(2) by (simp_all add: gcd_le2_nat)
  then have p: "m + i < m + n" by simp
  have c: "(m + i) mod ?g = i" using g(3) by (metis gcd_dvd1 dvd_imp_mod_0 mod_add_left_eq add_0 mod_less)
  have shift: "(q + n) mod (m + n) mod ?g = q mod ?g" for q
    using orbit_class [of m n q 1] by (simp add: orbit_def)
  note cyc = permute_cycle_class [OF assms(1) p Suc.prems(1), unfolded c]
  have eq: "permute_cycles (s + m) m n (cycle_length m n) (Suc r) i a =
      permute_cycles (s + m) m n (cycle_length m n) r (Suc i) ?a" by (simp add: add.assoc)
  show ?case unfolding eq
  proof (rule Suc.IH)
    show "s + (m + n) \<le> length ?a" "Suc i + r = ?g" using Suc.prems(1,2) by simp_all
    fix q assume q: "q < m + n"
    show "?a ! (s + (q + n) mod (m + n)) = b ! (s + q)" if "q mod ?g < Suc i"
    proof (cases "q mod ?g = i")
      case True
      then show ?thesis using cyc(1) [OF q] Suc.prems(4) [OF q] by simp
    next
      case False
      with that have "q mod ?g < i" by simp
      then show ?thesis using cyc(2) [of "s + (q + n) mod (m + n)"] shift [of q] Suc.prems(3) [OF q] by simp
    qed
    show "?a ! (s + q) = b ! (s + q)" if "Suc i \<le> q mod ?g"
      using cyc(2) [of "s + q"] Suc.prems(4) [OF q] that by simp
  next
    show "?a ! x = b ! x" if "x < s \<or> s + (m + n) \<le> x" for x
    proof -
      have "?a ! x = a ! x" by (rule cyc(2)) (use that in blast)
      then show ?thesis using Suc.prems(5) [OF that] by simp
    qed
  qed
qed

lemma permute_args_blocks:
  assumes "length option_args > 0"
  shows "permute_args (length before) (length before + length others)
      (length before + length others + length option_args) (before @ others @ option_args @ after) =
    Inr (before @ option_args @ others @ after)"
proof -
  let ?s = "length before" and ?m = "length others" and ?n = "length option_args"
  let ?b = "before @ others @ option_args @ after"
  let ?A = "permute_cycles (?s + ?m) ?m ?n (cycle_length ?m ?n) (gcd ?m ?n) 0 ?b"
  have A: "\<And>q. q < ?m + ?n \<Longrightarrow> ?A ! (?s + (q + ?n) mod (?m + ?n)) = ?b ! (?s + q)"
    "\<And>x. x < ?s \<or> ?s + (?m + ?n) \<le> x \<Longrightarrow> ?A ! x = ?b ! x"
    using permute_cycles_classes [OF assms, of ?s ?m ?b 0 "gcd ?m ?n" ?b] by auto
  have "?A = before @ option_args @ others @ after"
  proof (rule nth_equalityI)
    show "length ?A = length (before @ option_args @ others @ after)" by simp
    fix x assume x: "x < length ?A"
    have "x < ?s \<or> ?s + (?m + ?n) \<le> x \<or> (x = ?s + (x - ?s) \<and> x - ?s < ?n)
      \<or> (x = ?s + (?n + (x - ?s - ?n)) \<and> x - ?s - ?n < ?m)" by linarith
    then consider "x < ?s \<or> ?s + (?m + ?n) \<le> x" | r where "x = ?s + r" "r < ?n"
      | r where "x = ?s + (?n + r)" "r < ?m" by blast
    then show "?A ! x = (before @ option_args @ others @ after) ! x"
    proof cases
      case 1
      then have "?A ! x = ?b ! x" by (rule A(2))
      also have "\<dots> = (before @ option_args @ others @ after) ! x"
        using 1 by (auto simp: nth_append intro: arg_cong [where f = "(!) after"])
      finally show ?thesis .
    next
      case 2
      have "?m + r + ?n = r + (?m + ?n)" by simp
      then have "(?m + r + ?n) mod (?m + ?n) = r" using 2(2) by (simp only: mod_add_self2) simp
      then show ?thesis using A(1) [of "?m + r"] 2 by (simp add: nth_append)
    next
      case 3
      then show ?thesis using A(1) [of r] by (simp add: nth_append add.commute)
    qed
  qed
  then show ?thesis using assms
    by (simp add: permute_args_def Let_def getopt_gcd_gcd cycle_length_def [symmetric] add.assoc)
qed

lemma permute_args_index:
  assumes "st \<le> en" and "en < t" and "t \<le> length v"
  shows "permute_args st en t v =
    Inr (take st v @ drop en (take t v) @ drop st (take en v) @ drop t v)"
proof -
  let ?b = "take st v" and ?o = "drop st (take en v)" and ?p = "drop en (take t v)" and ?a = "drop t v"
  have "v = take t v @ drop t v" by simp
  also have "take t v = take en v @ ?p" using assms(2) by (metis append_take_drop_id min_def take_take less_imp_le_nat)
  also have "take en v = ?b @ ?o" using assms(1) by (metis append_take_drop_id min_def take_take)
  finally have "v = ?b @ ?o @ ?p @ ?a" by simp
  moreover have "length ?b = st" "length ?b + length ?o = en" "length ?b + length ?o + length ?p = t"
    using assms by simp_all
  ultimately show ?thesis using permute_args_blocks [of ?p ?b ?o ?a] assms by (metis length_greater_0_conv less_add_same_cancel1)
qed

section \<open>Property\<close>

text \<open>
  C20: the cycle-following permutation is the exchange of two adjacent blocks. For every
  non-empty block of options behind any block of other arguments, \<open>permute_args\<close> terminates,
  divides by no zero, and leaves the vector in which the two blocks have changed places, each
  in its old order, with everything before and behind them untouched.
\<close>

theorem permute_args_exchanges_blocks:
  assumes "st \<le> en" and "en < t" and "t \<le> length v"
  shows "permute_args st en t v =
    Inr (take st v @ drop en (take t v) @ drop st (take en v) @ drop t v)"
  by (rule permute_args_index [OF assms])

theorem permute_args_exchanges_blocks_witness:
  "permute_args 1 5 7 [0, 1, 2, 3, 4, 5, 6, 7 :: nat] = Inr [0, 5, 6, 1, 2, 3, 4, 7]"
  using permute_args_exchanges_blocks [of 1 5 7 "[0, 1, 2, 3, 4, 5, 6, 7 :: nat]"] by simp

end
