(* ===== verification/Getopt.thy ===== *)
theory Getopt
  imports Permute_Args
begin

text \<open>
  Model of the option parser \<open>console_logger/getopt.h\<close> that the command line tool is built
  with on Windows: \<open>getopt\<close>, \<open>getopt_long\<close> and \<open>getopt_long_only\<close> over
  \<open>getopt_internal\<close> and \<open>parse_long_options\<close>.

  The global variables are the fields of \<open>getopt_state\<close>, with the argument vector. A
  \<open>char *\<close> into the arguments is a pair of the argument and an offset (\<open>Ptr\<close>); \<open>-1\<close> in
  \<open>nonopt_start\<close> and \<open>nonopt_end\<close> is \<open>None\<close>. \<open>nargv[nargc]\<close> is the null pointer. Reads
  outside the option table or a string and divisions by zero are values of \<open>ub\<close>.
\<close>

section \<open>State\<close>

datatype char_ptr = EMSG | Ptr string nat

fun pointee :: "char_ptr \<Rightarrow> string" where
  "pointee EMSG = []"
| "pointee (Ptr s k) = drop k s"

fun next_char :: "char_ptr \<Rightarrow> char_ptr" where
  "next_char EMSG = EMSG"
| "next_char (Ptr s k) = Ptr s (Suc k)"

text \<open>\<open>*p\<close> of a C string: its first character, or the terminating zero.\<close>

definition deref :: "string \<Rightarrow> char" where
  "deref s = (case s of [] \<Rightarrow> nul | c # _ \<Rightarrow> c)"

record option_entry =
  option_name :: "string option"
  has_arg :: int
  option_flag :: "nat option"
  option_val :: int

definition no_argument :: int where "no_argument = 0"
definition required_argument :: int where "required_argument = 1"
definition optional_argument :: int where "optional_argument = 2"

record getopt_state =
  nargv :: "string list"
  opterr :: bool
  optind :: nat
  optopt :: int
  optreset :: bool
  optarg :: "string option"
  place :: char_ptr
  nonopt_start :: "nat option"
  nonopt_end :: "nat option"
  posixly_correct :: "bool option"
  long_index :: int
  flag_store :: "nat \<Rightarrow> int"
  err_output :: string

definition getopt_start :: "string list \<Rightarrow> getopt_state" where
  "getopt_start argv = \<lparr>nargv = argv, opterr = True, optind = 1, optopt = 63, optreset = False,
     optarg = None, place = EMSG, nonopt_start = None, nonopt_end = None, posixly_correct = None,
     long_index = 0, flag_store = (\<lambda>_. 0), err_output = []\<rparr>"

datatype getopt_flag = FLAG_PERMUTE | FLAG_ALLARGS | FLAG_LONGONLY

text \<open>A \<open>char\<close> converted to \<open>int\<close>; the type is signed.\<close>

definition char_int :: "char \<Rightarrow> int" where
  "char_int c = (if of_char c < (128::int) then of_char c else of_char c - 256)"

definition BADCH :: int where "BADCH = char_int (CHR ''?'')"

definition BADARG :: "string \<Rightarrow> int" where
  "BADARG opts = (if deref opts = CHR '':'' then char_int (CHR '':'') else char_int (CHR ''?''))"

definition INORDER :: int where "INORDER = 1"

section \<open>Diagnostics\<close>

datatype diagnostic =
    Recargchar char
  | Recargstring string
  | Ambig string
  | Noarg string
  | Illoptchar char
  | Illoptstring string

fun diagnostic_text :: "diagnostic \<Rightarrow> string" where
  "diagnostic_text (Recargchar c) = ''option requires an argument -- '' @ [c]"
| "diagnostic_text (Recargstring s) = ''option requires an argument -- '' @ s"
| "diagnostic_text (Ambig s) = ''ambiguous option -- '' @ s"
| "diagnostic_text (Noarg s) = ''option doesn'' @ [CHR 0x27] @ ''t take an argument -- '' @ s"
| "diagnostic_text (Illoptchar c) = ''unknown option -- '' @ [c]"
| "diagnostic_text (Illoptstring s) = ''unknown option -- '' @ s"

text \<open>
  \<open>warnx\<close>, under the condition \<open>PRINT_ERROR\<close>; \<open>__progname\<close> is the first argument.
\<close>

definition warnx :: "string \<Rightarrow> diagnostic \<Rightarrow> getopt_state \<Rightarrow> getopt_state" where
  "warnx opts d s =
     (if opterr s \<and> deref opts \<noteq> CHR '':'' then
        s\<lparr>err_output := err_output s @ concat (take 1 (nargv s)) @ '': '' @ diagnostic_text d @ newline\<rparr>
      else s)"

section \<open>Long options\<close>

definition identical_interpretation :: "option_entry \<Rightarrow> option_entry \<Rightarrow> bool" where
  "identical_interpretation x y \<longleftrightarrow>
     has_arg x = has_arg y \<and> option_flag x = option_flag y \<and> option_val x = option_val y"

text \<open>
  The search loop of \<open>parse_long_options\<close> over the entries from number \<open>i\<close> on: the match so far
  and whether it is ambiguous. The loop ends at an entry without a name; running off the
  table is undefined. \<open>strncmp\<close> compares the first \<open>n\<close> characters.
\<close>

fun search_long ::
  "string \<Rightarrow> bool \<Rightarrow> option_entry list \<Rightarrow> nat \<Rightarrow> (nat \<times> option_entry) option \<Rightarrow> bool
     \<Rightarrow> ub + ((nat \<times> option_entry) option \<times> bool)" where
  "search_long key short_too [] i found ambiguous = Inl Read_past_array"
| "search_long key short_too (e # es) i found ambiguous =
     (case option_name e of
        None \<Rightarrow> Inr (found, ambiguous)
      | Some nm \<Rightarrow>
          if take (length key) nm \<noteq> key then search_long key short_too es (Suc i) found ambiguous
          else if length nm = length key then Inr (Some (i, e), False)
          else if short_too \<and> length key = 1 then search_long key short_too es (Suc i) found ambiguous
          else (case found of
            None \<Rightarrow> search_long key short_too es (Suc i) (Some (i, e)) ambiguous
          | Some (_, e') \<Rightarrow>
              search_long key short_too es (Suc i) found
                (ambiguous \<or> \<not> identical_interpretation e e')))"

text \<open>The value left in \<open>optopt\<close> after an error of an option that was found.\<close>

definition error_value :: "option_entry \<Rightarrow> int" where
  "error_value e = (if option_flag e = None then option_val e else 0)"

definition store_option :: "bool \<Rightarrow> nat \<Rightarrow> option_entry \<Rightarrow> getopt_state \<Rightarrow> int \<times> getopt_state" where
  "store_option idx i e s =
     (let s1 = (if idx then s\<lparr>long_index := int i\<rparr> else s) in
      case option_flag e of
        Some p \<Rightarrow> (0, s1\<lparr>flag_store := (flag_store s1)(p := option_val e)\<rparr>)
      | None \<Rightarrow> (option_val e, s1))"

text \<open>The argument of an option that takes one.\<close>

definition fetch_argument ::
  "string option \<Rightarrow> option_entry \<Rightarrow> getopt_state \<Rightarrow> ub + getopt_state" where
  "fetch_argument has_equal e s =
     (if has_arg e = required_argument \<or> has_arg e = optional_argument then
        (case has_equal of
           Some a \<Rightarrow> Inr (s\<lparr>optarg := Some a\<rparr>)
         | None \<Rightarrow>
             if has_arg e = required_argument then
               (if optind s < length (nargv s) then
                  Inr (s\<lparr>optarg := Some (nargv s ! optind s), optind := Suc (optind s)\<rparr>)
                else if optind s = length (nargv s) then
                  Inr (s\<lparr>optarg := None, optind := Suc (optind s)\<rparr>)
                else Inl Read_past_array)
             else Inr s)
      else Inr s)"

definition parse_long_options ::
  "string \<Rightarrow> option_entry list \<Rightarrow> bool \<Rightarrow> bool \<Rightarrow> getopt_state \<Rightarrow> ub + (int \<times> getopt_state)" where
  "parse_long_options opts long_options idx short_too s =
     (let current_argv = pointee (place s);
          s1 = s\<lparr>optind := Suc (optind s)\<rparr>;
          eq = find_char (CHR ''='') current_argv;
          has_equal = map_option (\<lambda>k. drop (Suc k) current_argv) eq;
          key = (case eq of Some k \<Rightarrow> take k current_argv | None \<Rightarrow> current_argv)
      in case search_long key short_too long_options 0 None False of
           Inl e \<Rightarrow> Inl e
         | Inr (found, True) \<Rightarrow> Inr (BADCH, (warnx opts (Ambig key) s1)\<lparr>optopt := 0\<rparr>)
         | Inr (None, False) \<Rightarrow>
             if short_too then Inr (-1, s1\<lparr>optind := optind s1 - 1\<rparr>)
             else Inr (BADCH, (warnx opts (Illoptstring current_argv) s1)\<lparr>optopt := 0\<rparr>)
         | Inr (Some (i, e), False) \<Rightarrow>
             if has_arg e = no_argument \<and> has_equal \<noteq> None then
               Inr (BADARG opts, (warnx opts (Noarg key) s1)\<lparr>optopt := error_value e\<rparr>)
             else
               (case fetch_argument has_equal e s1 of
                  Inl u \<Rightarrow> Inl u
                | Inr s2 \<Rightarrow>
                    if has_arg e = required_argument \<and> optarg s2 = None then
                      Inr (BADARG opts, (warnx opts (Recargstring current_argv) s2)
                        \<lparr>optopt := error_value e, optind := optind s2 - 1\<rparr>)
                    else Inr (store_option idx i e s2)))"

section \<open>The scanner\<close>

text \<open>
  The three places that move skipped arguments behind the options before them: at the end of
  the vector or at \<open>--\<close>, and before another argument is skipped.
\<close>

definition permute_skipped :: "getopt_state \<Rightarrow> ub + getopt_state" where
  "permute_skipped s =
     (case (nonopt_start s, nonopt_end s) of
        (Some st, Some en) \<Rightarrow>
          (case permute_args st en (optind s) (nargv s) of
             Inl u \<Rightarrow> Inl u
           | Inr v \<Rightarrow> Inr (s\<lparr>nargv := v\<rparr>))
      | _ \<Rightarrow> Inr s)"

definition skipped :: "getopt_state \<Rightarrow> nat" where
  "skipped s = (case (nonopt_start s, nonopt_end s) of (Some st, Some en) \<Rightarrow> en - st | _ \<Rightarrow> 0)"

definition end_of_options :: "getopt_state \<Rightarrow> ub + getopt_state" where
  "end_of_options s =
     (case permute_skipped s of
        Inl u \<Rightarrow> Inl u
      | Inr s' \<Rightarrow> Inr (s'\<lparr>optind := optind s - skipped s, nonopt_start := None, nonopt_end := None\<rparr>))"

definition end_of_arguments :: "getopt_state \<Rightarrow> ub + getopt_state" where
  "end_of_arguments s =
     (if nonopt_end s \<noteq> None then end_of_options s
      else (case nonopt_start s of
        Some st \<Rightarrow> Inr (s\<lparr>optind := st, nonopt_start := None, nonopt_end := None\<rparr>)
      | None \<Rightarrow> Inr (s\<lparr>nonopt_start := None, nonopt_end := None\<rparr>)))"

definition skip_argument :: "getopt_state \<Rightarrow> ub + getopt_state" where
  "skip_argument s =
     (if nonopt_start s = None then Inr (s\<lparr>nonopt_start := Some (optind s), optind := Suc (optind s)\<rparr>)
      else if nonopt_end s \<noteq> None then
        (case permute_skipped s of
           Inl u \<Rightarrow> Inl u
         | Inr s' \<Rightarrow> Inr (s'\<lparr>nonopt_start := Some (optind s - skipped s), nonopt_end := None,
                           optind := Suc (optind s)\<rparr>))
      else Inr (s\<lparr>optind := Suc (optind s)\<rparr>))"

text \<open>
  The block at the label \<open>start\<close>, for the argument number \<open>optind\<close>. The result is the value
  that is returned, or \<open>None\<close> when the parser goes on with an option; the \<open>goto\<close> is the
  recursion, over the arguments that are left.
\<close>

definition is_nonoption :: "string \<Rightarrow> string \<Rightarrow> bool" where
  "is_nonoption opts arg \<longleftrightarrow> deref arg \<noteq> CHR ''-'' \<or> (length arg = 1 \<and> CHR ''-'' \<notin> set opts)"

definition scan_option :: "getopt_state \<Rightarrow> ub + (int option \<times> getopt_state)" where
  "scan_option s =
     (let arg = nargv s ! optind s;
          s1 = (if nonopt_start s \<noteq> None \<and> nonopt_end s = None
                then s\<lparr>nonopt_end := Some (optind s)\<rparr> else s)
      in if length arg = 1 then Inr (None, s1\<lparr>place := Ptr arg 0\<rparr>)
         else if drop 1 arg = ''-'' then
           (case end_of_options (s1\<lparr>optind := Suc (optind s1), place := EMSG\<rparr>) of
              Inl u \<Rightarrow> Inl u
            | Inr s2 \<Rightarrow> Inr (Some (-1), s2))
         else Inr (None, s1\<lparr>place := Ptr arg 1\<rparr>))"

lemma length_permute_args: "permute_args st en t v = Inr w \<Longrightarrow> length w = length v"
  by (auto simp: permute_args_def Let_def split: sum.splits)

lemma permute_skipped_fields:
  assumes "permute_skipped s = Inr s'"
  shows "length (nargv s') = length (nargv s)" and "\<exists>v. s' = s\<lparr>nargv := v\<rparr>"
proof -
  have "(\<exists>v. s' = s\<lparr>nargv := v\<rparr> \<and> length v = length (nargv s)) \<or> s' = s"
    using assms
    by (auto simp: permute_skipped_def dest: length_permute_args split: option.splits sum.splits)
  then show "length (nargv s') = length (nargv s)" "\<exists>v. s' = s\<lparr>nargv := v\<rparr>"
    by (auto intro: exI [of _ "nargv s"])
qed

lemma skip_argument_advances:
  assumes "skip_argument s = Inr s'"
  shows "optind s' = Suc (optind s)" and "length (nargv s') = length (nargv s)" and "place s' = place s"
proof -
  have "optind s' = Suc (optind s) \<and> length (nargv s') = length (nargv s) \<and> place s' = place s"
  proof (cases "permute_skipped s")
    case (Inl u)
    with assms show ?thesis by (auto simp: skip_argument_def split: if_splits)
  next
    case (Inr t)
    from permute_skipped_fields [OF this] obtain v where "t = s\<lparr>nargv := v\<rparr>" "length v = length (nargv s)"
      by auto
    with Inr assms show ?thesis by (auto simp: skip_argument_def split: if_splits)
  qed
  then show "optind s' = Suc (optind s)" "length (nargv s') = length (nargv s)" "place s' = place s"
    by simp_all
qed

function scan_arguments ::
  "getopt_flag set \<Rightarrow> string \<Rightarrow> getopt_state \<Rightarrow> ub + (int option \<times> getopt_state)" where
  "scan_arguments flags opts s =
     (if optind s \<ge> length (nargv s) then
        (case end_of_arguments (s\<lparr>place := EMSG\<rparr>) of
           Inl u \<Rightarrow> Inl u
         | Inr s' \<Rightarrow> Inr (Some (-1), s'))
      else if is_nonoption opts (nargv s ! optind s) then
        (if FLAG_ALLARGS \<in> flags then
           Inr (Some INORDER, s\<lparr>place := EMSG, optarg := Some (nargv s ! optind s),
                                optind := Suc (optind s)\<rparr>)
         else if FLAG_PERMUTE \<notin> flags then Inr (Some (-1), s\<lparr>place := EMSG\<rparr>)
         else (case skip_argument (s\<lparr>place := EMSG\<rparr>) of
           Inl u \<Rightarrow> Inl u
         | Inr s' \<Rightarrow> scan_arguments flags opts s'))
      else scan_option s)"
  by pat_completeness auto

termination
proof (relation "measure (\<lambda>(_, _, s). length (nargv s) - optind s)", goal_cases)
  case 1
  then show ?case by simp
next
  case (2 flags opts s s')
  with skip_argument_advances [OF 2(5)] show ?case by simp
qed

declare scan_arguments.simps [simp del]

section \<open>Short options\<close>

text \<open>
  \<open>strchr(options, c)\<close>: the rest of the option string after the letter \<open>c\<close>.
\<close>

definition option_rest :: "string \<Rightarrow> char \<Rightarrow> string option" where
  "option_rest opts c = map_option (\<lambda>k. drop (Suc k) opts) (find_char c opts)"

text \<open>\<open>++optind >= nargc\<close>: an argument in the next element is missing.\<close>

definition missing_argument :: "string \<Rightarrow> char \<Rightarrow> getopt_state \<Rightarrow> int \<times> getopt_state" where
  "missing_argument opts c s =
     (BADARG opts, (warnx opts (Recargchar c) (s\<lparr>place := EMSG\<rparr>))\<lparr>optopt := char_int c\<rparr>)"

definition option_W ::
  "string \<Rightarrow> option_entry list \<Rightarrow> bool \<Rightarrow> getopt_state \<Rightarrow> ub + (int \<times> getopt_state)" where
  "option_W opts long_options idx s =
     (let s1 = (if pointee (place s) \<noteq> [] then s else s\<lparr>optind := Suc (optind s)\<rparr>) in
      if pointee (place s) = [] \<and> optind s1 \<ge> length (nargv s1) then
        Inr (missing_argument opts (CHR ''W'') s1)
      else
        (case parse_long_options opts long_options idx False
                (if pointee (place s) \<noteq> [] then s1 else s1\<lparr>place := Ptr (nargv s1 ! optind s1) 0\<rparr>) of
           Inl u \<Rightarrow> Inl u
         | Inr (r, s2) \<Rightarrow> Inr (r, s2\<lparr>place := EMSG\<rparr>)))"

definition option_with_argument ::
  "string \<Rightarrow> char \<Rightarrow> bool \<Rightarrow> getopt_state \<Rightarrow> int \<times> getopt_state" where
  "option_with_argument opts c optional s =
     (let s1 = s\<lparr>optarg := None\<rparr> in
      if pointee (place s1) \<noteq> [] then
        (char_int c, s1\<lparr>optarg := Some (pointee (place s1)), place := EMSG, optind := Suc (optind s1)\<rparr>)
      else if optional then (char_int c, s1\<lparr>place := EMSG, optind := Suc (optind s1)\<rparr>)
      else
        (let s2 = s1\<lparr>optind := Suc (optind s1)\<rparr> in
         if optind s2 \<ge> length (nargv s2) then missing_argument opts c s2
         else (char_int c, s2\<lparr>optarg := Some (nargv s2 ! optind s2), place := EMSG,
                              optind := Suc (optind s2)\<rparr>)))"

text \<open>
  The rest of \<open>getopt_internal\<close> for the letter at \<open>place\<close>. For the terminating zero
  \<open>strchr\<close> finds the end of the option string, and the code reads behind it.
\<close>

definition short_option ::
  "string \<Rightarrow> option_entry list option \<Rightarrow> bool \<Rightarrow> getopt_state \<Rightarrow> ub + (int \<times> getopt_state)" where
  "short_option opts long_options idx s =
     (let c = deref (pointee (place s));
          s1 = s\<lparr>place := next_char (place s)\<rparr>;
          more = (pointee (place s1) \<noteq> []);
          s2 = (if more then s1 else s1\<lparr>optind := Suc (optind s1)\<rparr>)
      in if c = nul then Inl Read_past_array
         else if c = CHR '':'' \<or> (c = CHR ''-'' \<and> more) \<or> option_rest opts c = None then
           (if c = CHR ''-'' \<and> \<not> more then Inr (-1, s1)
            else Inr (BADCH, (warnx opts (Illoptchar c) s2)\<lparr>optopt := char_int c\<rparr>))
         else
           (let oli = the (option_rest opts c) in
            case long_options of
              Some tbl \<Rightarrow>
                if c = CHR ''W'' \<and> deref oli = CHR '';'' then option_W opts tbl idx s1
                else if deref oli \<noteq> CHR '':'' then Inr (char_int c, s2)
                else Inr (option_with_argument opts c (deref (tl oli) = CHR '':'') s1)
            | None \<Rightarrow>
                if deref oli \<noteq> CHR '':'' then Inr (char_int c, s2)
                else Inr (option_with_argument opts c (deref (tl oli) = CHR '':'') s1)))"

section \<open>The parser\<close>

text \<open>An option at \<open>place\<close>: a long one if the caller has any and it can be one.\<close>

definition parse_option ::
  "getopt_flag set \<Rightarrow> string \<Rightarrow> option_entry list option \<Rightarrow> bool \<Rightarrow> getopt_state
     \<Rightarrow> ub + (int \<times> getopt_state)" where
  "parse_option flags opts long_options idx s =
     (let c = deref (pointee (place s));
          at_start = (optind s < length (nargv s) \<and> place s = Ptr (nargv s ! optind s) 0)
      in case long_options of
           Some tbl \<Rightarrow>
             if \<not> at_start \<and> (c = CHR ''-'' \<or> FLAG_LONGONLY \<in> flags) then
               (let s1 = (if c = CHR ''-'' then s\<lparr>place := next_char (place s)\<rparr> else s);
                    short_too = (c \<noteq> CHR ''-'' \<and> c \<noteq> CHR '':'' \<and> option_rest opts c \<noteq> None)
                in case parse_long_options opts tbl idx short_too s1 of
                     Inl u \<Rightarrow> Inl u
                   | Inr (r, s2) \<Rightarrow>
                       if r \<noteq> -1 then Inr (r, s2\<lparr>place := EMSG\<rparr>)
                       else short_option opts long_options idx s2)
             else short_option opts long_options idx s
         | None \<Rightarrow> short_option opts long_options idx s)"

text \<open>
  The entry of \<open>getopt_internal\<close>: reset by \<open>optind = 0\<close>, the environment variable
  \<open>POSIXLY_CORRECT\<close> (\<open>posix\<close>), and the first character of the option string.
\<close>

definition prepare :: "bool \<Rightarrow> getopt_state \<Rightarrow> getopt_state" where
  "prepare posix s =
     (let s1 = (if optind s = 0 then s\<lparr>optind := 1, optreset := True\<rparr> else s);
          s2 = (if posixly_correct s1 = None \<or> optreset s1 then s1\<lparr>posixly_correct := Some posix\<rparr> else s1);
          s3 = s2\<lparr>optarg := None\<rparr>
      in if optreset s3 then s3\<lparr>nonopt_start := None, nonopt_end := None\<rparr> else s3)"

definition adjust_flags :: "string \<Rightarrow> getopt_state \<Rightarrow> getopt_flag set \<Rightarrow> getopt_flag set" where
  "adjust_flags options s flags =
     (if deref options = CHR ''-'' then insert FLAG_ALLARGS flags
      else if posixly_correct s = Some True \<or> deref options = CHR ''+'' then flags - {FLAG_PERMUTE}
      else flags)"

definition option_letters :: "string \<Rightarrow> string" where
  "option_letters options =
     (if deref options = CHR ''+'' \<or> deref options = CHR ''-'' then tl options else options)"

definition getopt_internal ::
  "bool \<Rightarrow> string option \<Rightarrow> option_entry list option \<Rightarrow> bool \<Rightarrow> getopt_flag set \<Rightarrow> getopt_state
     \<Rightarrow> ub + (int \<times> getopt_state)" where
  "getopt_internal posix options long_options idx flags s =
     (case options of
        None \<Rightarrow> Inr (-1, s)
      | Some options \<Rightarrow>
          (let s1 = prepare posix s;
               fl = adjust_flags options s1 flags;
               opts = option_letters options
           in if optreset s1 \<or> pointee (place s1) = [] then
                (case scan_arguments fl opts (s1\<lparr>optreset := False\<rparr>) of
                   Inl u \<Rightarrow> Inl u
                 | Inr (Some r, s2) \<Rightarrow> Inr (r, s2)
                 | Inr (None, s2) \<Rightarrow> parse_option fl opts long_options idx s2)
              else parse_option fl opts long_options idx s1))"

definition getopt :: "bool \<Rightarrow> string \<Rightarrow> getopt_state \<Rightarrow> ub + (int \<times> getopt_state)" where
  "getopt posix options s = getopt_internal posix (Some options) None False {} s"

definition getopt_long ::
  "bool \<Rightarrow> string \<Rightarrow> option_entry list option \<Rightarrow> bool \<Rightarrow> getopt_state \<Rightarrow> ub + (int \<times> getopt_state)" where
  "getopt_long posix options long_options idx s =
     getopt_internal posix (Some options) long_options idx {FLAG_PERMUTE} s"

definition getopt_long_only ::
  "bool \<Rightarrow> string \<Rightarrow> option_entry list option \<Rightarrow> bool \<Rightarrow> getopt_state \<Rightarrow> ub + (int \<times> getopt_state)" where
  "getopt_long_only posix options long_options idx s =
     getopt_internal posix (Some options) long_options idx {FLAG_PERMUTE, FLAG_LONGONLY} s"

end
