(* ===== verification/Getopt_Safety.thy ===== *)
theory Getopt_Safety
  imports Getopt
begin

text \<open>
  What holds of every call of \<open>getopt_long\<close>: with a terminated option table it reads
  nothing out of bounds, it only permutes the arguments, and every call that returns an
  option consumes some of them.
\<close>

section \<open>The state between calls\<close>

definition scan_ok :: "getopt_state \<Rightarrow> bool" where
  "scan_ok s \<longleftrightarrow> \<not> optreset s \<and> optind s \<le> length (nargv s)
    \<and> (\<forall>st. nonopt_start s = Some st \<longrightarrow> 0 < st \<and> st < optind s)
    \<and> (\<forall>en. nonopt_end s = Some en \<longrightarrow>
         (\<exists>st. nonopt_start s = Some st \<and> st \<le> en \<and> en \<le> optind s))
    \<and> (\<forall>a \<in> set (nargv s). nul \<notin> set a)"

definition between_calls :: "getopt_state \<Rightarrow> bool" where
  "between_calls s \<longleftrightarrow> scan_ok s \<and> 0 < optind s
    \<and> nul \<notin> set (pointee (place s))
    \<and> (pointee (place s) \<noteq> [] \<longrightarrow> optind s < length (nargv s))
    \<and> (\<forall>en. nonopt_end s = Some en \<longrightarrow> pointee (place s) = [] \<longrightarrow> en < optind s)
    \<and> (\<forall>a. place s = Ptr a 0 \<longrightarrow> a = [])"

text \<open>The text that is left to be parsed.\<close>

definition arguments_left :: "string list \<Rightarrow> nat" where
  "arguments_left xs = sum_list (map (\<lambda>a. Suc (length a)) xs)"

definition left_over :: "getopt_state \<Rightarrow> nat" where
  "left_over s =
     (if pointee (place s) = [] then arguments_left (drop (optind s) (nargv s))
      else length (pointee (place s)) + arguments_left (drop (Suc (optind s)) (nargv s)))"

definition ready :: "getopt_state \<Rightarrow> bool" where
  "ready s \<longleftrightarrow> scan_ok s \<and> 0 < optind s \<and> (\<forall>en. nonopt_end s = Some en \<longrightarrow> en < optind s)"

section \<open>The scanner\<close>

lemma permute_skipped_ok:
  assumes "ready s"
  obtains v where "permute_skipped s = Inr (s\<lparr>nargv := v\<rparr>)" and "mset v = mset (nargv s)"
    and "drop (optind s) v = drop (optind s) (nargv s)"
proof (cases "nonopt_end s")
  case None
  then have "permute_skipped s = Inr (s\<lparr>nargv := nargv s\<rparr>)"
    by (simp add: permute_skipped_def split: option.split)
  then show ?thesis by (rule that) simp_all
next
  case (Some en)
  with assms obtain st where st: "nonopt_start s = Some st" "st \<le> en" "en < optind s" "optind s \<le> length (nargv s)"
    by (auto simp: ready_def scan_ok_def)
  let ?x = "nargv s" and ?t = "optind s"
  let ?v = "take st ?x @ drop en (take ?t ?x) @ drop st (take en ?x) @ drop ?t ?x"
  have "mset ?x = mset (take st (take en ?x)) + mset (drop st (take en ?x)) + mset (drop en (take ?t ?x)) + mset (drop ?t ?x)"
  proof -
    have "mset ?x = mset (take en (take ?t ?x)) + mset (drop en (take ?t ?x)) + mset (drop ?t ?x)"
      by (metis append_take_drop_id mset_append)
    also have "take en (take ?t ?x) = take en ?x" using st(3) by (simp add: min_def)
    also have "mset (take en ?x) = mset (take st (take en ?x)) + mset (drop st (take en ?x))"
      by (metis append_take_drop_id mset_append)
    finally show ?thesis .
  qed
  then have "mset ?v = mset ?x" using st(2) by (simp add: min_def)
  moreover have "drop ?t ?v = drop ?t ?x"
  proof -
    have "length (take st ?x @ drop en (take ?t ?x) @ drop st (take en ?x)) = ?t" using st by simp
    then show ?thesis by (metis append.assoc append_eq_conv_conj)
  qed
  moreover have "permute_skipped s = Inr (s\<lparr>nargv := ?v\<rparr>)"
    using Some st permute_args_index [OF st(2-4)] by (simp add: permute_skipped_def)
  ultimately show ?thesis using that by blast
qed

lemma skip_argument_ok:
  assumes "ready s" and "optind s < length (nargv s)"
  obtains s' where "skip_argument s = Inr s'" and "ready s'" and "mset (nargv s') = mset (nargv s)"
    and "optind s' = Suc (optind s)" and "drop (optind s) (nargv s') = drop (optind s) (nargv s)"
proof -
  from permute_skipped_ok [OF assms(1)] obtain v where v: "permute_skipped s = Inr (s\<lparr>nargv := v\<rparr>)"
    "mset v = mset (nargv s)" "drop (optind s) v = drop (optind s) (nargv s)" .
  from v(2) have l: "length v = length (nargv s)" "set v = set (nargv s)"
    by (metis mset_eq_length, metis mset_eq_setD)
  consider "nonopt_start s = None" | st where "nonopt_start s = Some st" "nonopt_end s = None"
    | st en where "nonopt_start s = Some st" "nonopt_end s = Some en" by fastforce
  then show ?thesis
  proof cases
    case 1
    then show ?thesis using assms
      by (intro that [of "s\<lparr>nonopt_start := Some (optind s), optind := Suc (optind s)\<rparr>"])
        (auto simp: skip_argument_def ready_def scan_ok_def)
  next
    case 2
    then show ?thesis using assms
      by (intro that [of "s\<lparr>optind := Suc (optind s)\<rparr>"]) (auto simp: skip_argument_def ready_def scan_ok_def)
  next
    case 3
    then have "0 < st" "st \<le> en" "en < optind s" using assms(1) by (auto simp: ready_def scan_ok_def)
    with 3 show ?thesis using assms v l
      by (intro that [of "s\<lparr>nargv := v, nonopt_start := Some (optind s - skipped s), nonopt_end := None,
            optind := Suc (optind s)\<rparr>"])
        (auto simp: skip_argument_def ready_def scan_ok_def skipped_def)
  qed
qed

lemma end_of_options_ok:
  assumes "ready s"
  obtains s' where "end_of_options s = Inr s'" and "ready s'" and "mset (nargv s') = mset (nargv s)"
    and "place s' = place s"
proof -
  from permute_skipped_ok [OF assms] obtain v where v: "permute_skipped s = Inr (s\<lparr>nargv := v\<rparr>)"
    "mset v = mset (nargv s)" "drop (optind s) v = drop (optind s) (nargv s)" .
  from v(2) have l: "length v = length (nargv s)" "set v = set (nargv s)"
    by (metis mset_eq_length, metis mset_eq_setD)
  have "skipped s < optind s"
    using assms by (auto simp: skipped_def ready_def scan_ok_def split: option.splits)
  then show ?thesis using assms v l
    by (intro that [of "s\<lparr>nargv := v, optind := optind s - skipped s, nonopt_start := None,
          nonopt_end := None\<rparr>"])
      (auto simp: end_of_options_def ready_def scan_ok_def)
qed

lemma end_of_arguments_ok:
  assumes "ready s"
  obtains s' where "end_of_arguments s = Inr s'" and "ready s'" and "mset (nargv s') = mset (nargv s)"
    and "place s' = place s"
proof (cases "nonopt_end s")
  case None
  show ?thesis
  proof (cases "nonopt_start s")
    case None
    with \<open>nonopt_end s = None\<close> assms show ?thesis
      by (intro that [of "s\<lparr>nonopt_start := None, nonopt_end := None\<rparr>"])
        (auto simp: end_of_arguments_def ready_def scan_ok_def)
  next
    case (Some st)
    with None assms show ?thesis
      by (intro that [of "s\<lparr>optind := st, nonopt_start := None, nonopt_end := None\<rparr>"])
        (auto simp: end_of_arguments_def ready_def scan_ok_def)
  qed
next
  case (Some en)
  from end_of_options_ok [OF assms] obtain s' where "end_of_options s = Inr s'" "ready s'"
    "mset (nargv s') = mset (nargv s)" "place s' = place s" .
  with Some show ?thesis by (intro that [of s']) (auto simp: end_of_arguments_def)
qed

text \<open>
  The scanner stops with a value to return, or in front of an option at the argument number
  \<open>optind\<close>.
\<close>

definition at_option :: "string \<Rightarrow> getopt_state \<Rightarrow> bool" where
  "at_option opts s \<longleftrightarrow> (\<forall>a. place s = Ptr a 0 \<longrightarrow> CHR ''-'' \<in> set opts) \<and> scan_ok s \<and> 0 < optind s \<and> optind s < length (nargv s)
    \<and> pointee (place s) \<noteq> [] \<and> nul \<notin> set (pointee (place s))"

definition budget :: "getopt_state \<Rightarrow> nat" where
  "budget s = arguments_left (drop (optind s) (nargv s))"

lemma arguments_left_Cons [simp]: "arguments_left (x # xs) = Suc (length x + arguments_left xs)"
  by (simp add: arguments_left_def)

lemma arguments_left_drop:
  assumes "i < length xs"
  shows "arguments_left (drop i xs) = Suc (length (xs ! i) + arguments_left (drop (Suc i) xs))"
  using assms by (simp add: Cons_nth_drop_Suc [symmetric])

lemma scan_option_ok:
  assumes "ready s" and "optind s < length (nargv s)" and "\<not> is_nonoption opts (nargv s ! optind s)"
  obtains r s' where "scan_option s = Inr (r, s')" and "mset (nargv s') = mset (nargv s)"
    and "r = None \<Longrightarrow> at_option opts s' \<and> left_over s' < budget s"
    and "r \<noteq> None \<Longrightarrow> r = Some (-1) \<and> ready s' \<and> place s' = EMSG"
proof -
  let ?arg = "nargv s ! optind s"
  let ?s1 = "if nonopt_start s \<noteq> None \<and> nonopt_end s = None then s\<lparr>nonopt_end := Some (optind s)\<rparr> else s"
  have arg: "?arg \<noteq> []" "nul \<notin> set ?arg" "length ?arg = 1 \<longrightarrow> CHR ''-'' \<in> set opts"
    using assms by (auto simp: is_nonoption_def deref_def nul_def ready_def scan_ok_def)
  have s1: "optind ?s1 = optind s" "nargv ?s1 = nargv s" "scan_ok ?s1" "0 < optind s"
    using assms(1,2) by (auto simp: ready_def scan_ok_def)
  have b: "budget s = Suc (length ?arg + arguments_left (drop (Suc (optind s)) (nargv s)))"
    unfolding budget_def by (rule arguments_left_drop [OF assms(2)])
  consider "length ?arg = 1" | "length ?arg \<noteq> 1" "drop 1 ?arg = ''-''" | "length ?arg \<noteq> 1" "drop 1 ?arg \<noteq> ''-''" by blast
  then show ?thesis
  proof cases
    case 1
    show ?thesis
    proof (rule that)
      show "scan_option s = Inr (None, ?s1\<lparr>place := Ptr ?arg 0\<rparr>)" using 1 by (simp add: scan_option_def Let_def)
    qed (use 1 s1 arg assms(2) b in \<open>auto simp: at_option_def scan_ok_def left_over_def\<close>)
  next
    case 2
    let ?s2 = "?s1\<lparr>optind := Suc (optind ?s1), place := EMSG\<rparr>"
    have "ready ?s2" using s1 assms(1,2) by (auto simp: ready_def scan_ok_def)
    from end_of_options_ok [OF this] obtain s' where s': "end_of_options ?s2 = Inr s'" "ready s'"
      "mset (nargv s') = mset (nargv ?s2)" "place s' = place ?s2" .
    show ?thesis
    proof (rule that)
      show "scan_option s = Inr (Some (-1), s')" using 2 s'(1) by (simp add: scan_option_def Let_def)
    qed (use s' s1 in auto)
  next
    case 3
    have "drop 1 ?arg \<noteq> []" using 3(1) arg(1) by (cases ?arg) auto
    moreover have "set (drop 1 ?arg) \<subseteq> set ?arg" by (rule set_drop_subset)
    ultimately show ?thesis
    proof (intro that)
      show "scan_option s = Inr (None, ?s1\<lparr>place := Ptr ?arg 1\<rparr>)" using 3 by (simp add: scan_option_def Let_def)
    qed (use s1 arg assms(2) b in \<open>auto simp: at_option_def scan_ok_def left_over_def\<close>)
  qed
qed

lemma ready_upd [simp]:
  "ready (s\<lparr>place := p\<rparr>) = ready s" "budget (s\<lparr>place := p\<rparr>) = budget s"
  "ready (s\<lparr>posixly_correct := q\<rparr>) = ready s" "budget (s\<lparr>posixly_correct := q\<rparr>) = budget s"
  "ready (s\<lparr>optarg := a\<rparr>) = ready s" "budget (s\<lparr>optarg := a\<rparr>) = budget s"
  by (simp_all add: ready_def scan_ok_def budget_def)

definition scan_result :: "string \<Rightarrow> getopt_state \<Rightarrow> int option \<times> getopt_state \<Rightarrow> bool" where
  "scan_result opts s res \<longleftrightarrow> mset (nargv (snd res)) = mset (nargv s)
     \<and> (case fst res of
          None \<Rightarrow> at_option opts (snd res) \<and> left_over (snd res) < budget s
        | Some v \<Rightarrow> ready (snd res) \<and> place (snd res) = EMSG \<and> (v = -1 \<or> left_over (snd res) < budget s))"

lemma scan_arguments_ok:
  assumes "ready s"
  shows "\<exists>res. scan_arguments fl opts s = Inr res \<and> scan_result opts s res"
  using assms
proof (induction fl opts s rule: scan_arguments.induct)
  case (1 fl opts s)
  consider "length (nargv s) \<le> optind s"
    | "optind s < length (nargv s)" "\<not> is_nonoption opts (nargv s ! optind s)"
    | "optind s < length (nargv s)" "is_nonoption opts (nargv s ! optind s)" "FLAG_ALLARGS \<in> fl \<or> FLAG_PERMUTE \<notin> fl"
    | "optind s < length (nargv s)" "is_nonoption opts (nargv s ! optind s)" "FLAG_ALLARGS \<notin> fl" "FLAG_PERMUTE \<in> fl"
    by fastforce
  then show ?case
  proof cases
    case 1
    from end_of_arguments_ok [of "s\<lparr>place := EMSG\<rparr>"] \<open>ready s\<close> obtain s' where
      "end_of_arguments (s\<lparr>place := EMSG\<rparr>) = Inr s'" "ready s'" "mset (nargv s') = mset (nargv s)" "place s' = EMSG"
      by auto
    with 1 show ?thesis by (simp add: scan_arguments.simps [of fl opts s] scan_result_def)
  next
    case 2
    from scan_option_ok [OF \<open>ready s\<close> 2] obtain r s' where
      "scan_option s = Inr (r, s')" "mset (nargv s') = mset (nargv s)"
      "r = None \<Longrightarrow> at_option opts s' \<and> left_over s' < budget s"
      "r \<noteq> None \<Longrightarrow> r = Some (-1) \<and> ready s' \<and> place s' = EMSG" by metis
    with 2 show ?thesis
      by (cases r) (auto simp: scan_arguments.simps [of fl opts s] scan_result_def)
  next
    case 3
    let ?n = "s\<lparr>place := EMSG, optarg := Some (nargv s ! optind s), optind := Suc (optind s)\<rparr>"
    have "ready ?n" "left_over ?n < budget s"
      using \<open>ready s\<close> 3(1) arguments_left_drop [OF 3(1)]
      by (auto simp: ready_def scan_ok_def left_over_def budget_def)
    with 3 \<open>ready s\<close> show ?thesis
      by (auto simp: scan_arguments.simps [of fl opts s] scan_result_def)
  next
    case 4
    from skip_argument_ok [of "s\<lparr>place := EMSG\<rparr>"] \<open>ready s\<close> 4(1) obtain t where
      t: "skip_argument (s\<lparr>place := EMSG\<rparr>) = Inr t" "ready t" "mset (nargv t) = mset (nargv s)"
      "optind t = Suc (optind s)" "drop (optind s) (nargv t) = drop (optind s) (nargv s)" by auto
    have "drop (optind t) (nargv t) = drop (optind t) (nargv s)"
      using t(4,5) by (metis drop_Suc drop_tl)
    then have b: "budget t < budget s"
      using arguments_left_drop [OF 4(1)] t(4) by (simp add: budget_def)
    from "1.IH" [OF _ _ _ _ t(1,2)] 4 obtain res where res: "scan_arguments fl opts t = Inr res" "scan_result opts t res"
      by auto
    have "scan_result opts s res" using res(2) b t(3) by (auto simp: scan_result_def split: option.splits)
    with 4 t(1) res(1) show ?thesis by (auto simp: scan_arguments.simps [of fl opts s])
  qed
qed

section \<open>Long options\<close>

text \<open>
  A table as \<open>getopt_long\<close> wants it: with an entry without name, and with no value \<open>-1\<close>,
  which callers could not tell from the end of the options.
\<close>

definition proper_table :: "option_entry list \<Rightarrow> bool" where
  "proper_table tbl \<longleftrightarrow> (\<exists>e \<in> set tbl. option_name e = None) \<and> (\<forall>e \<in> set tbl. option_val e \<noteq> -1)"

lemma search_long_ok:
  assumes "\<exists>e \<in> set es. option_name e = None"
  shows "\<exists>f a. search_long key short_too es i found amb = Inr (f, a)
    \<and> (\<forall>j e. f = Some (j, e) \<longrightarrow> e \<in> set es \<or> f = found)"
  using assms
proof (induction es arbitrary: i found amb)
  case Nil
  then show ?case by simp
next
  case (Cons e es)
  show ?case
  proof (cases "option_name e")
    case None
    then show ?thesis by simp
  next
    case (Some nm)
    with Cons.prems have "\<exists>e \<in> set es. option_name e = None" by auto
    note IH = Cons.IH [OF this]
    show ?thesis
      using IH [of "Suc i" found amb] IH [of "Suc i" "Some (i, e)" amb]
        IH [of "Suc i" found "amb \<or> \<not> identical_interpretation e (snd (the found))"]
      by (auto simp: Some split: option.split prod.split; blast)
  qed
qed

lemma warnx_fields [simp]:
  "nargv (warnx opts d s) = nargv s" "optind (warnx opts d s) = optind s" "place (warnx opts d s) = place s"
  "nonopt_start (warnx opts d s) = nonopt_start s" "nonopt_end (warnx opts d s) = nonopt_end s"
  "optarg (warnx opts d s) = optarg s" "optreset (warnx opts d s) = optreset s"
  "posixly_correct (warnx opts d s) = posixly_correct s" "long_index (warnx opts d s) = long_index s"
  by (simp_all add: warnx_def)

text \<open>What \<open>parse_long_options\<close> leaves: the same arguments, and \<open>optind\<close> behind the option.\<close>

definition behind :: "getopt_state \<Rightarrow> getopt_state \<Rightarrow> bool" where
  "behind s s' \<longleftrightarrow> nargv s' = nargv s \<and> nonopt_start s' = nonopt_start s \<and> nonopt_end s' = nonopt_end s
     \<and> optreset s' = optreset s \<and> optind s < optind s' \<and> optind s' \<le> length (nargv s)"

lemma fetch_argument_ok:
  assumes "optind s \<le> length (nargv s)"
  obtains s' where "fetch_argument h e s = Inr s'" and "nargv s' = nargv s" and "nonopt_start s' = nonopt_start s"
    and "nonopt_end s' = nonopt_end s" and "optreset s' = optreset s" and "optind s \<le> optind s'"
    and "optind s' \<le> length (nargv s) \<or> (has_arg e = required_argument \<and> optarg s' = None \<and> optind s' = Suc (length (nargv s)))"
    and "has_arg e = required_argument \<and> optarg s' = None \<Longrightarrow> optind s < optind s'"
proof (cases h)
  case None
  with assms show ?thesis
    by (cases "has_arg e = required_argument"; cases "optind s < length (nargv s)")
      (auto intro!: that simp: fetch_argument_def)
next
  case (Some a)
  with assms show ?thesis
    by (cases "has_arg e = required_argument"; cases "has_arg e = optional_argument")
      (auto intro!: that simp: fetch_argument_def)
qed

lemma error_codes [simp]: "BADCH \<noteq> -1" "BADARG opts \<noteq> -1"
  by (simp_all add: BADCH_def BADARG_def char_int_def)

lemma store_option_ok:
  assumes "option_val e \<noteq> -1"
  shows "fst (store_option idx i e s) \<noteq> -1" and "nargv (snd (store_option idx i e s)) = nargv s"
    and "nonopt_start (snd (store_option idx i e s)) = nonopt_start s"
    and "nonopt_end (snd (store_option idx i e s)) = nonopt_end s"
    and "optreset (snd (store_option idx i e s)) = optreset s"
    and "optind (snd (store_option idx i e s)) = optind s"
  using assms by (auto simp: store_option_def Let_def split: option.split)

lemma parse_long_options_ok:
  assumes "proper_table tbl" and "optind s < length (nargv s)"
  shows "\<exists>r s'. parse_long_options opts tbl idx short_too s = Inr (r, s')
    \<and> (if r = -1 then short_too \<and> s' = s else behind s s')"
proof -
  let ?s1 = "s\<lparr>optind := Suc (optind s)\<rparr>"
  let ?cur = "pointee (place s)"
  let ?eq = "find_char (CHR ''='') ?cur"
  let ?h = "map_option (\<lambda>k. drop (Suc k) ?cur) ?eq"
  let ?key = "case ?eq of Some k \<Rightarrow> take k ?cur | None \<Rightarrow> ?cur"
  have tbl: "\<exists>e \<in> set tbl. option_name e = None" "\<And>e. e \<in> set tbl \<Longrightarrow> option_val e \<noteq> -1"
    using assms(1) by (auto simp: proper_table_def)
  from search_long_ok [OF tbl(1)] obtain f a where
    f: "search_long ?key short_too tbl 0 None False = Inr (f, a)" "\<And>j e. f = Some (j, e) \<Longrightarrow> e \<in> set tbl"
    by blast
  have b1: "behind s ?s1" using assms(2) by (simp add: behind_def)
  consider "a" | "\<not> a" "f = None" | j e where "\<not> a" "f = Some (j, e)" by (cases f) auto
  then show ?thesis
  proof cases
    case 1
    let ?r = "(warnx opts (Ambig ?key) ?s1)\<lparr>optopt := 0\<rparr>"
    have "parse_long_options opts tbl idx short_too s = Inr (BADCH, ?r)"
      using f(1) 1 by (cases f) (auto simp: parse_long_options_def Let_def)
    moreover have "behind s ?r" using b1 by (simp add: behind_def)
    ultimately show ?thesis by simp
  next
    case 2
    let ?r = "(warnx opts (Illoptstring ?cur) ?s1)\<lparr>optopt := 0\<rparr>"
    have "parse_long_options opts tbl idx short_too s =
        (if short_too then Inr (-1, s) else Inr (BADCH, ?r))"
      using f(1) 2 by (simp add: parse_long_options_def Let_def)
    moreover have "behind s ?r" using b1 by (simp add: behind_def)
    ultimately show ?thesis by simp
  next
    case (3 j e)
    have e: "option_val e \<noteq> -1" using f(2) [OF 3(2)] tbl(2) by blast
    from assms(2) have "optind ?s1 \<le> length (nargv ?s1)" by simp
    from fetch_argument_ok [OF this, of ?h e] obtain s2 where
      s2: "fetch_argument ?h e ?s1 = Inr s2" "nargv s2 = nargv s" "nonopt_start s2 = nonopt_start s"
        "nonopt_end s2 = nonopt_end s" "optreset s2 = optreset s" "Suc (optind s) \<le> optind s2"
        "optind s2 \<le> length (nargv s) \<or> (has_arg e = required_argument \<and> optarg s2 = None \<and> optind s2 = Suc (length (nargv s)))"
        "has_arg e = required_argument \<and> optarg s2 = None \<Longrightarrow> Suc (optind s) < optind s2" by auto
    note b = store_option_ok [OF e, of idx j s2]
    show ?thesis
    proof (cases "has_arg e = no_argument \<and> ?h \<noteq> None")
      case True
      then show ?thesis using f(1) 3 b1 by (auto simp: parse_long_options_def Let_def behind_def)
    next
      case False
      show ?thesis
      proof (cases "has_arg e = required_argument \<and> optarg s2 = None")
        case True
        let ?r = "(warnx opts (Recargstring ?cur) s2)\<lparr>optopt := error_value e, optind := optind s2 - 1\<rparr>"
        have "behind s ?r" using s2 True by (auto simp: behind_def)
        moreover have "parse_long_options opts tbl idx short_too s = Inr (BADARG opts, ?r)"
          using f(1) 3 False True s2(1) by (auto simp: parse_long_options_def Let_def)
        ultimately show ?thesis by simp
      next
        case noarg: False
        have "parse_long_options opts tbl idx short_too s = Inr (store_option idx j e s2)"
          using f(1) 3 False noarg s2(1) by (auto simp: parse_long_options_def Let_def)
        moreover have "behind s (snd (store_option idx j e s2))"
          unfolding behind_def b using s2 noarg by auto
        ultimately show ?thesis using b(1) by (cases "store_option idx j e s2") simp
      qed
    qed
  qed
qed

lemma parse_long_options_behind:
  assumes "proper_table tbl" and "optind s < length (nargv s)"
  obtains r s' where "parse_long_options opts tbl idx False s = Inr (r, s')" and "behind s s'"
  using parse_long_options_ok [OF assms, of opts idx False] that by (auto split: if_splits)

section \<open>An option\<close>

text \<open>After an option the state is fit for the next call, and less text is left.\<close>

definition consumed :: "getopt_state \<Rightarrow> getopt_state \<Rightarrow> bool" where
  "consumed s s' \<longleftrightarrow> between_calls s' \<and> nargv s' = nargv s \<and> left_over s' < left_over s"

lemma arguments_left_mono: "i \<le> j \<Longrightarrow> arguments_left (drop j xs) \<le> arguments_left (drop i xs)"
proof -
  assume "i \<le> j"
  then obtain d where "j = d + i" by (metis le_iff_add add.commute)
  moreover have "arguments_left (drop d ys) \<le> arguments_left ys" for d and ys :: "string list"
    by (metis append_take_drop_id arguments_left_def le_add2 map_append sum_list_append)
  ultimately show ?thesis by (metis drop_drop)
qed

lemma consumed_behind:
  assumes "at_option opts s" and "behind s s'"
  shows "consumed s (s'\<lparr>place := EMSG\<rparr>)"
proof -
  have "left_over (s'\<lparr>place := EMSG\<rparr>) < left_over s"
    using assms arguments_left_mono [of "Suc (optind s)" "optind s'" "nargv s"]
    by (cases "pointee (place s)") (auto simp: left_over_def at_option_def behind_def)
  then show ?thesis using assms
    by (auto simp: consumed_def between_calls_def at_option_def behind_def scan_ok_def)
qed

lemma consumed_upd [simp]:
  "consumed s (t\<lparr>optopt := x\<rparr>) = consumed s t" "consumed s (t\<lparr>optarg := y\<rparr>) = consumed s t"
  by (simp_all add: consumed_def between_calls_def scan_ok_def left_over_def)

lemma consumed_warnx [simp]: "consumed s (warnx opts d t) = consumed s t"
  by (simp add: consumed_def between_calls_def scan_ok_def left_over_def)

lemma behind_upd [simp]:
  "behind s (t\<lparr>optopt := x\<rparr>) = behind s t" "behind s (t\<lparr>optarg := y\<rparr>) = behind s t"
  "behind s (t\<lparr>place := p\<rparr>) = behind s t" "behind s (warnx opts d t) = behind s t"
  by (simp_all add: behind_def)

text \<open>The next letter of a cluster, or the next argument after the last letter.\<close>

lemma next_letter_ok:
  assumes "at_option opts s"
  defines "s1 \<equiv> s\<lparr>place := next_char (place s)\<rparr>"
  shows "pointee (place s1) \<noteq> [] \<Longrightarrow> consumed s s1"
    and "pointee (place s1) = [] \<Longrightarrow> consumed s (s1\<lparr>optind := Suc (optind s)\<rparr>)"
proof -
  obtain a k where p: "place s = Ptr a k" "drop k a \<noteq> []"
    using assms(1) by (cases "place s") (auto simp: at_option_def)
  have d: "drop (Suc k) a = tl (drop k a)" by (simp add: drop_Suc drop_tl)
  have "nul \<notin> set (drop (Suc k) a)" "length (drop (Suc k) a) < length (drop k a)"
    using assms(1) p d list.set_sel(2) [of "drop k a" nul] by (auto simp: at_option_def)
  then show "pointee (place s1) \<noteq> [] \<Longrightarrow> consumed s s1"
    and "pointee (place s1) = [] \<Longrightarrow> consumed s (s1\<lparr>optind := Suc (optind s)\<rparr>)"
    using assms p
    by (auto simp: consumed_def between_calls_def left_over_def at_option_def scan_ok_def)
qed

lemma consumed_EMSG:
  assumes "at_option opts s" and "behind s t" and "place t = EMSG"
  shows "consumed s t"
  using consumed_behind [OF assms(1,2)] assms(3) by (metis (full_types) getopt_state.surjective getopt_state.update_convs(7))

lemma option_with_argument_ok:
  assumes "at_option opts s" and "t = s\<lparr>place := p\<rparr>"
  shows "consumed s (snd (option_with_argument opts' c optional t))"
proof (rule consumed_EMSG [OF assms(1)])
  have "optind s < length (nargv s)" using assms(1) by (simp add: at_option_def)
  then show "behind s (snd (option_with_argument opts' c optional t))"
    using assms(2) by (auto simp: option_with_argument_def missing_argument_def Let_def behind_def)
  show "place (snd (option_with_argument opts' c optional t)) = EMSG"
    by (simp add: option_with_argument_def missing_argument_def Let_def)
qed

lemma option_W_ok:
  assumes "at_option opts s" and "t = s\<lparr>place := p\<rparr>" and "proper_table tbl"
  shows "\<exists>r s'. option_W opts' tbl idx t = Inr (r, s') \<and> consumed s s'"
proof -
  have o: "optind s < length (nargv s)" using assms(1) by (simp add: at_option_def)
  let ?t = "t\<lparr>optind := Suc (optind t)\<rparr>"
  show ?thesis
  proof (cases "pointee p = []")
    case False
    then have eq: "option_W opts' tbl idx t =
        (case parse_long_options opts' tbl idx False t of Inl u \<Rightarrow> Inl u | Inr (r, s2) \<Rightarrow> Inr (r, s2\<lparr>place := EMSG\<rparr>))"
      using assms(2) by (simp add: option_W_def Let_def)
    have "optind t < length (nargv t)" using o assms(2) by simp
    from parse_long_options_behind [OF assms(3) this] obtain r s' where
      r: "parse_long_options opts' tbl idx False t = Inr (r, s')" "behind t s'" .
    then have "behind s s'" using assms(2) by (simp add: behind_def)
    with r eq show ?thesis using consumed_behind [OF assms(1)] by simp
  next
    case True
    show ?thesis
    proof (cases "Suc (optind s) < length (nargv s)")
      case False
      let ?r = "missing_argument opts' (CHR ''W'') ?t"
      have "option_W opts' tbl idx t = Inr ?r" using True False assms(2) by (simp add: option_W_def Let_def)
      moreover have "consumed s (snd ?r)"
        by (rule consumed_EMSG [OF assms(1)])
          (use o False assms(2) in \<open>simp_all add: missing_argument_def behind_def\<close>)
      ultimately show ?thesis by (cases ?r) simp
    next
      case more: True
      let ?u = "?t\<lparr>place := Ptr (nargv t ! Suc (optind t)) 0\<rparr>"
      have eq: "option_W opts' tbl idx t =
          (case parse_long_options opts' tbl idx False ?u of Inl u \<Rightarrow> Inl u | Inr (r, s2) \<Rightarrow> Inr (r, s2\<lparr>place := EMSG\<rparr>))"
        using True more assms(2) by (simp add: option_W_def Let_def)
      have "optind ?u < length (nargv ?u)" using more assms(2) by simp
      from parse_long_options_behind [OF assms(3) this] obtain r s' where
        r: "parse_long_options opts' tbl idx False ?u = Inr (r, s')" "behind ?u s'" .
      then have "behind s s'" using assms(2) by (simp add: behind_def)
      with r eq show ?thesis using consumed_behind [OF assms(1)] by simp
    qed
  qed
qed

lemma short_option_ok:
  assumes "at_option opts s" and "\<And>tbl. long_options = Some tbl \<Longrightarrow> proper_table tbl"
    and "deref (pointee (place s)) = CHR ''-'' \<Longrightarrow> CHR ''-'' \<in> set opts"
  shows "\<exists>r s'. short_option opts long_options idx s = Inr (r, s') \<and> consumed s s'"
proof -
  let ?c = "deref (pointee (place s))"
  let ?s1 = "s\<lparr>place := next_char (place s)\<rparr>"
  let ?s2 = "if pointee (place ?s1) \<noteq> [] then ?s1 else ?s1\<lparr>optind := Suc (optind ?s1)\<rparr>"
  have s2: "consumed s ?s2" using next_letter_ok [OF assms(1)] by simp
  have c: "?c \<noteq> nul" using assms(1) by (cases "pointee (place s)") (auto simp: at_option_def deref_def)
  have dash: "option_rest opts ?c \<noteq> None" if "?c = CHR ''-''"
    using assms(3) that by (simp add: option_rest_def)
  obtain y where y: "option_with_argument opts ?c (deref (tl (the (option_rest opts ?c))) = CHR '':'') ?s1 = y"
    "consumed s (snd y)" using option_with_argument_ok [OF assms(1) refl] by blast
  show ?thesis
  proof (cases "?c = CHR '':'' \<or> (?c = CHR ''-'' \<and> pointee (place ?s1) \<noteq> []) \<or> option_rest opts ?c = None")
    case True
    then have "\<not> (?c = CHR ''-'' \<and> pointee (place ?s1) = [])" using dash by auto
    with True c have "short_option opts long_options idx s =
        Inr (BADCH, (warnx opts (Illoptchar ?c) ?s2)\<lparr>optopt := char_int ?c\<rparr>)"
      by (auto simp: short_option_def Let_def)
    with s2 show ?thesis by simp
  next
    case False
    show ?thesis
    proof (cases long_options)
      case None
      with False c y s2 show ?thesis by (cases y) (auto simp: short_option_def Let_def)
    next
      case (Some tbl)
      from option_W_ok [OF assms(1) refl assms(2) [OF Some]] obtain r s' where
        "option_W opts tbl idx ?s1 = Inr (r, s')" "consumed s s'" by blast
      with Some False c y s2 show ?thesis by (cases y) (auto simp: short_option_def Let_def)
    qed
  qed
qed

lemma parse_option_ok:
  assumes "at_option opts s" and "proper_table tbl"
  shows "\<exists>r s'. parse_option fl opts (Some tbl) idx s = Inr (r, s') \<and> consumed s s'"
proof -
  let ?c = "deref (pointee (place s))"
  let ?start = "optind s < length (nargv s) \<and> place s = Ptr (nargv s ! optind s) 0"
  show ?thesis
  proof (cases "\<not> ?start \<and> (?c = CHR ''-'' \<or> FLAG_LONGONLY \<in> fl)")
    case False
    then have "parse_option fl opts (Some tbl) idx s = short_option opts (Some tbl) idx s"
      by (auto simp: parse_option_def Let_def)
    moreover have "?c = CHR ''-'' \<Longrightarrow> CHR ''-'' \<in> set opts"
      using False assms(1) by (auto simp: at_option_def)
    ultimately show ?thesis using short_option_ok [OF assms(1), of "Some tbl"] assms(2) by simp
  next
    case True
    let ?s1 = "if ?c = CHR ''-'' then s\<lparr>place := next_char (place s)\<rparr> else s"
    let ?short = "?c \<noteq> CHR ''-'' \<and> ?c \<noteq> CHR '':'' \<and> option_rest opts ?c \<noteq> None"
    have "optind ?s1 < length (nargv ?s1)" using assms(1) by (simp add: at_option_def)
    from parse_long_options_ok [OF assms(2) this, of opts idx ?short] obtain r s' where
      r: "parse_long_options opts tbl idx ?short ?s1 = Inr (r, s')"
        "if r = -1 then ?short \<and> s' = ?s1 else behind ?s1 s'" by blast
    have eq: "parse_option fl opts (Some tbl) idx s =
        (if r \<noteq> -1 then Inr (r, s'\<lparr>place := EMSG\<rparr>) else short_option opts (Some tbl) idx s')"
      using True r(1) by (simp add: parse_option_def Let_def)
    show ?thesis
    proof (cases "r = -1")
      case True
      then have "s' = s" "?c \<noteq> CHR ''-''" using r(2) by auto
      with eq True short_option_ok [OF assms(1), of "Some tbl"] assms(2) show ?thesis by auto
    next
      case False
      then have "behind s s'" using r(2) by (auto simp: behind_def split: if_splits)
      with eq False consumed_behind [OF assms(1)] show ?thesis by auto
    qed
  qed
qed

section \<open>The parser\<close>

lemma prepare_id:
  assumes "0 < optind s" and "\<not> optreset s"
  shows "\<exists>p. prepare posix s = s\<lparr>posixly_correct := p, optarg := None\<rparr>"
proof (cases "posixly_correct s")
  case None
  then show ?thesis using assms by (auto simp: prepare_def Let_def)
next
  case (Some b)
  then have "prepare posix s = s\<lparr>posixly_correct := Some b, optarg := None\<rparr>"
    using assms by (simp add: prepare_def Let_def)
  then show ?thesis by blast
qed

lemma getopt_internal_ok:
  assumes "between_calls s" and "proper_table tbl"
  shows "\<exists>r s'. getopt_internal posix (Some options) (Some tbl) idx fl s = Inr (r, s') \<and> between_calls s'
    \<and> mset (nargv s') = mset (nargv s) \<and> (r \<noteq> -1 \<longrightarrow> left_over s' < left_over s)"
proof -
  have b: "0 < optind s" "\<not> optreset s" using assms(1) by (simp_all add: between_calls_def scan_ok_def)
  from prepare_id [OF b] obtain p where p: "prepare posix s = s\<lparr>posixly_correct := p, optarg := None\<rparr>" by blast
  let ?t = "s\<lparr>posixly_correct := p, optarg := None\<rparr>"
  let ?fl = "adjust_flags options ?t fl" and ?opts = "option_letters options"
  have t: "left_over ?t = left_over s" by (simp add: left_over_def)
  have n: "(prepare posix s)\<lparr>optreset := False\<rparr> = prepare posix s" "\<not> optreset (prepare posix s)"
    "pointee (place (prepare posix s)) = pointee (place s)"
    unfolding p using b(2) by (cases s; simp)+
  have fin: "between_calls s' \<and> mset (nargv s') = mset (nargv s) \<and> left_over s' < left_over s"
    if "at_option ?opts u" "consumed u s'" "mset (nargv u) = mset (nargv s)" "left_over u \<le> left_over s" for u s'
    using that by (auto simp: consumed_def)
  show ?thesis
  proof (cases "pointee (place s) = []")
    case True
    then have "ready ?t" "budget ?t = left_over s" using assms(1)
      by (auto simp: between_calls_def ready_def scan_ok_def budget_def left_over_def)
    from scan_arguments_ok [OF this(1), of ?fl ?opts] this(2) obtain r u where
      u: "scan_arguments ?fl ?opts ?t = Inr (r, u)" "scan_result ?opts ?t (r, u)" by (metis surj_pair)
    have eq: "getopt_internal posix (Some options) (Some tbl) idx fl s =
        (case r of Some v \<Rightarrow> Inr (v, u) | None \<Rightarrow> parse_option ?fl ?opts (Some tbl) idx u)"
      using True n(2,3) u(1) [folded p]
      by (simp add: getopt_internal_def Let_def p [symmetric] n(1) split: option.split)
    show ?thesis
    proof (cases r)
      case None
      with u(2) \<open>budget ?t = left_over s\<close> have "at_option ?opts u" "left_over u \<le> left_over s"
        "mset (nargv u) = mset (nargv s)" by (auto simp: scan_result_def)
      with parse_option_ok [OF this(1) assms(2), of ?fl idx] fin eq None show ?thesis by fastforce
    next
      case (Some v)
      with u(2) \<open>budget ?t = left_over s\<close> have "between_calls u \<and> mset (nargv u) = mset (nargv s)
          \<and> (v \<noteq> -1 \<longrightarrow> left_over u < left_over s)"
        by (auto simp: scan_result_def ready_def scan_ok_def between_calls_def)
      with eq Some show ?thesis by simp
    qed
  next
    case False
    then have a: "at_option ?opts ?t" using assms(1)
      by (auto simp: between_calls_def at_option_def scan_ok_def)
    have eq: "getopt_internal posix (Some options) (Some tbl) idx fl s =
        parse_option ?fl ?opts (Some tbl) idx ?t"
      using False n(2,3) by (simp add: getopt_internal_def Let_def p [symmetric])
    from parse_option_ok [OF a assms(2), of ?fl idx] fin [OF a] t eq show ?thesis by fastforce
  qed
qed

lemma between_calls_start:
  "argv \<noteq> [] \<Longrightarrow> (\<And>a. a \<in> set argv \<Longrightarrow> nul \<notin> set a) \<Longrightarrow> between_calls (getopt_start argv)"
  by (cases argv) (auto simp: between_calls_def scan_ok_def getopt_start_def)

end
