(* ===== verification/Getopt_Parse.thy ===== *)
theory Getopt_Parse
  imports Getopt_Safety
begin

text \<open>
  What \<open>getopt_long\<close> makes of a well-formed command line: options in every form it knows, in
  any order and with other arguments between them, and the loop over its results that a
  caller runs.
\<close>

section \<open>The loop of a caller\<close>

text \<open>
  Calls of \<open>getopt_long\<close> until it returns \<open>-1\<close>: the values with \<open>optarg\<close>, and the state at
  the end. \<open>None\<close> says that the number of calls was not enough.
\<close>

fun getopt_results ::
  "bool \<Rightarrow> string \<Rightarrow> option_entry list \<Rightarrow> nat \<Rightarrow> getopt_state
     \<Rightarrow> ub + ((int \<times> string option) list \<times> getopt_state) option" where
  "getopt_results posix options tbl 0 s = Inr None"
| "getopt_results posix options tbl (Suc n) s =
     (case getopt_long posix options (Some tbl) True s of
        Inl u \<Rightarrow> Inl u
      | Inr (c, s') \<Rightarrow>
          if c = -1 then Inr (Some ([], s'))
          else (case getopt_results posix options tbl n s' of
            Inl u \<Rightarrow> Inl u
          | Inr None \<Rightarrow> Inr None
          | Inr (Some (cs, s'')) \<Rightarrow> Inr (Some ((c, optarg s') # cs, s''))))"

lemma getopt_results_end:
  assumes "between_calls s" and "proper_table tbl" and "left_over s < n"
  shows "\<exists>cs s'. getopt_results posix options tbl n s = Inr (Some (cs, s')) \<and> between_calls s'
    \<and> mset (nargv s') = mset (nargv s) \<and> length cs \<le> left_over s"
  using assms
proof (induction n arbitrary: s)
  case 0
  then show ?case by simp
next
  case (Suc n)
  from getopt_internal_ok [OF Suc.prems(1,2)] obtain r s' where
    r: "getopt_long posix options (Some tbl) True s = Inr (r, s')" "between_calls s'"
      "mset (nargv s') = mset (nargv s)" "r \<noteq> -1 \<Longrightarrow> left_over s' < left_over s"
    unfolding getopt_long_def by metis
  show ?case
  proof (cases "r = -1")
    case True
    with r show ?thesis by simp
  next
    case False
    with r(4) Suc.prems(3) have "left_over s' < n" by simp
    from Suc.IH [OF r(2) Suc.prems(2) this] obtain cs s'' where
      "getopt_results posix options tbl n s' = Inr (Some (cs, s''))" "between_calls s''"
      "mset (nargv s'') = mset (nargv s')" "length cs \<le> left_over s'" by blast
    with r False show ?thesis by simp
  qed
qed

section \<open>Command lines\<close>

datatype word =
    Flag char
  | Attached char string
  | Separate char string
  | LongFlag string
  | LongEq string string
  | LongSep string string
  | Plain string

fun written :: "word \<Rightarrow> string list" where
  "written (Flag c) = [[CHR ''-'', c]]"
| "written (Attached c a) = [CHR ''-'' # c # a]"
| "written (Separate c a) = [[CHR ''-'', c], a]"
| "written (LongFlag nm) = [''--'' @ nm]"
| "written (LongEq nm a) = [''--'' @ nm @ ''='' @ a]"
| "written (LongSep nm a) = [''--'' @ nm, a]"
| "written (Plain a) = [a]"

fun is_plain :: "word \<Rightarrow> bool" where
  "is_plain (Plain a) = True"
| "is_plain _ = False"

text \<open>The entry with exactly the given name, among those before the end of the table.\<close>

fun exact_entry :: "option_entry list \<Rightarrow> string \<Rightarrow> option_entry option" where
  "exact_entry [] key = None"
| "exact_entry (e # es) key =
     (case option_name e of
        None \<Rightarrow> None
      | Some nm \<Rightarrow> if nm = key then Some e else exact_entry es key)"

definition long_value :: "option_entry list \<Rightarrow> string \<Rightarrow> int" where
  "long_value tbl nm = option_val (the (exact_entry tbl nm))"

fun meaning :: "option_entry list \<Rightarrow> word \<Rightarrow> (int \<times> string option) list" where
  "meaning tbl (Flag c) = [(char_int c, None)]"
| "meaning tbl (Attached c a) = [(char_int c, Some a)]"
| "meaning tbl (Separate c a) = [(char_int c, Some a)]"
| "meaning tbl (LongFlag nm) = [(long_value tbl nm, None)]"
| "meaning tbl (LongEq nm a) = [(long_value tbl nm, Some a)]"
| "meaning tbl (LongSep nm a) = [(long_value tbl nm, Some a)]"
| "meaning tbl (Plain a) = []"

text \<open>The letters and long names that the caller has declared, with their arguments.\<close>

definition letter_ok :: "string \<Rightarrow> char \<Rightarrow> (string \<Rightarrow> bool) \<Rightarrow> bool" where
  "letter_ok opts c P \<longleftrightarrow> c \<noteq> nul \<and> c \<noteq> CHR ''-'' \<and> c \<noteq> CHR '':'' \<and> char_int c \<noteq> -1
     \<and> (case option_rest opts c of
          None \<Rightarrow> False
        | Some oli \<Rightarrow> \<not> (c = CHR ''W'' \<and> deref oli = CHR '';'') \<and> P oli)"

definition name_ok :: "option_entry list \<Rightarrow> string \<Rightarrow> (int \<Rightarrow> bool) \<Rightarrow> bool" where
  "name_ok tbl nm P \<longleftrightarrow> nm \<noteq> [] \<and> CHR ''='' \<notin> set nm
     \<and> (case exact_entry tbl nm of
          None \<Rightarrow> False
        | Some e \<Rightarrow> option_flag e = None \<and> option_val e \<noteq> -1 \<and> P (has_arg e))"

fun fits :: "string \<Rightarrow> option_entry list \<Rightarrow> word \<Rightarrow> bool" where
  "fits opts tbl (Flag c) =
     letter_ok opts c (\<lambda>oli. deref oli \<noteq> CHR '':'' \<or> deref (tl oli) = CHR '':'')"
| "fits opts tbl (Attached c a) = (a \<noteq> [] \<and> letter_ok opts c (\<lambda>oli. deref oli = CHR '':''))"
| "fits opts tbl (Separate c a) =
     letter_ok opts c (\<lambda>oli. deref oli = CHR '':'' \<and> deref (tl oli) \<noteq> CHR '':'')"
| "fits opts tbl (LongFlag nm) = name_ok tbl nm (\<lambda>k. k = no_argument \<or> k = optional_argument)"
| "fits opts tbl (LongEq nm a) = name_ok tbl nm (\<lambda>k. k = required_argument \<or> k = optional_argument)"
| "fits opts tbl (LongSep nm a) = name_ok tbl nm (\<lambda>k. k = required_argument)"
| "fits opts tbl (Plain a) = is_nonoption opts a"

definition command_line_of :: "string \<Rightarrow> word list \<Rightarrow> string list" where
  "command_line_of prog ws = prog # concat (map written ws)"

section \<open>The layout of the arguments\<close>

text \<open>
  Between the calls the vector is the program name, parsed options \<open>O1\<close>, skipped arguments
  \<open>N\<close>, options \<open>O2\<close> parsed since, and the arguments \<open>R\<close> that are left.
\<close>

definition laid_out ::
  "string \<Rightarrow> string list \<Rightarrow> string list \<Rightarrow> string list \<Rightarrow> string list \<Rightarrow> getopt_state \<Rightarrow> bool" where
  "laid_out prog O1 N O2 R s \<longleftrightarrow> nargv s = prog # O1 @ N @ O2 @ R
     \<and> optind s = Suc (length O1 + length N + length O2) \<and> \<not> optreset s
     \<and> posixly_correct s \<noteq> Some True
     \<and> nonopt_start s = (if N = [] then None else Some (Suc (length O1)))
     \<and> nonopt_end s = (if N = [] \<or> O2 = [] then None else Some (Suc (length O1 + length N)))"

text \<open>The same in front of an option, whose start is recorded.\<close>

definition at_word ::
  "string \<Rightarrow> string list \<Rightarrow> string list \<Rightarrow> string list \<Rightarrow> string list \<Rightarrow> getopt_state \<Rightarrow> bool" where
  "at_word prog O1 N O2 R s \<longleftrightarrow> nargv s = prog # O1 @ N @ O2 @ R
     \<and> optind s = Suc (length O1 + length N + length O2) \<and> \<not> optreset s
     \<and> posixly_correct s \<noteq> Some True
     \<and> nonopt_start s = (if N = [] then None else Some (Suc (length O1)))
     \<and> nonopt_end s = (if N = [] then None else Some (Suc (length O1 + length N)))"

lemma at_word_done:
  assumes "at_word prog O1 N O2 (u @ R) s" and "u \<noteq> []"
    and "nargv t = nargv s" and "optind t = optind s + length u" and "optreset t = optreset s"
    and "posixly_correct t = posixly_correct s"
    and "nonopt_start t = nonopt_start s" and "nonopt_end t = nonopt_end s"
  shows "laid_out prog O1 N (O2 @ u) R t"
  using assms by (simp add: at_word_def laid_out_def)

lemma at_word_nth:
  assumes "at_word prog O1 N O2 (a # R) s"
  shows "optind s < length (nargv s)" and "nargv s ! optind s = a"
    and "R = b # R' \<Longrightarrow> Suc (optind s) < length (nargv s) \<and> nargv s ! Suc (optind s) = b"
  using assms by (auto simp: at_word_def nth_append)

lemma laid_out_nth:
  assumes "laid_out prog O1 N O2 (a # R) s"
  shows "optind s < length (nargv s)" and "nargv s ! optind s = a"
  using assms by (auto simp: laid_out_def nth_append)

lemma laid_out_permute:
  assumes "laid_out prog O1 N O2 R s" and "N \<noteq> []" and "O2 \<noteq> []"
  shows "permute_skipped s = Inr (s\<lparr>nargv := prog # O1 @ O2 @ N @ R\<rparr>)" and "skipped s = length N"
  using assms permute_args_blocks [of O2 "prog # O1" N R]
  by (simp_all add: permute_skipped_def skipped_def laid_out_def add.assoc)

text \<open>Skipping an argument moves the options parsed since to the front.\<close>

lemma skip_laid_out:
  assumes "laid_out prog O1 N O2 (a # R) s"
  obtains s' where "skip_argument s = Inr s'" and "laid_out prog (O1 @ O2) (N @ [a]) [] R s'"
    and "optarg s' = optarg s" and "posixly_correct s' = posixly_correct s" and "place s' = place s"
proof -
  consider "N = []" | "N \<noteq> []" "O2 = []" | "N \<noteq> []" "O2 \<noteq> []" by blast
  then show ?thesis
  proof cases
    case 1
    with assms show ?thesis
      by (intro that [of "s\<lparr>nonopt_start := Some (optind s), optind := Suc (optind s)\<rparr>"])
        (auto simp: skip_argument_def laid_out_def)
  next
    case 2
    with assms show ?thesis
      by (intro that [of "s\<lparr>optind := Suc (optind s)\<rparr>"]) (auto simp: skip_argument_def laid_out_def)
  next
    case 3
    note p = laid_out_permute [OF assms 3]
    from assms 3 p show ?thesis
      by (intro that [of "s\<lparr>nargv := prog # O1 @ O2 @ N @ a # R, nonopt_start := Some (optind s - length N),
            nonopt_end := None, optind := Suc (optind s)\<rparr>"])
        (auto simp: skip_argument_def laid_out_def)
  qed
qed

text \<open>At the end the skipped arguments stand behind all options.\<close>

lemma end_laid_out:
  assumes "laid_out prog O1 N O2 [] s"
  obtains s' where "end_of_arguments s = Inr s'" and "nargv s' = prog # O1 @ O2 @ N"
    and "optind s' = Suc (length O1 + length O2)"
proof -
  consider "N = []" | "N \<noteq> []" "O2 = []" | "N \<noteq> []" "O2 \<noteq> []" by blast
  then show ?thesis
  proof cases
    case 1
    with assms show ?thesis
      by (intro that [of "s\<lparr>nonopt_start := None, nonopt_end := None\<rparr>"])
        (auto simp: end_of_arguments_def laid_out_def)
  next
    case 2
    with assms show ?thesis
      by (intro that [of "s\<lparr>optind := Suc (length O1), nonopt_start := None, nonopt_end := None\<rparr>"])
        (auto simp: end_of_arguments_def laid_out_def)
  next
    case 3
    note p = laid_out_permute [OF assms 3]
    from assms 3 p show ?thesis
      by (intro that [of "s\<lparr>nargv := prog # O1 @ O2 @ N, optind := optind s - length N,
            nonopt_start := None, nonopt_end := None\<rparr>"])
        (auto simp: end_of_arguments_def end_of_options_def laid_out_def)
  qed
qed

section \<open>One word\<close>

lemma scan_word:
  assumes "laid_out prog O1 N O2 ((CHR ''-'' # c # cs) # R) s" and "CHR ''-'' # c # cs \<noteq> ''--''"
  obtains s' where "scan_arguments fl opts s = Inr (None, s')"
    and "at_word prog O1 N O2 ((CHR ''-'' # c # cs) # R) s'" and "place s' = Ptr (CHR ''-'' # c # cs) 1"
    and "optarg s' = optarg s" and "posixly_correct s' = posixly_correct s"
proof -
  let ?a = "CHR ''-'' # c # cs"
  let ?s' = "(if nonopt_start s \<noteq> None \<and> nonopt_end s = None then s\<lparr>nonopt_end := Some (optind s)\<rparr> else s)
    \<lparr>place := Ptr ?a 1\<rparr>"
  note n = laid_out_nth [OF assms(1)]
  have "\<not> is_nonoption opts ?a" by (simp add: is_nonoption_def deref_def)
  then have "scan_arguments fl opts s = Inr (None, ?s')"
    using n assms(2) by (auto simp: scan_arguments.simps [of fl opts s] scan_option_def Let_def)
  moreover have "at_word prog O1 N O2 (?a # R) ?s'"
    using assms(1) by (auto simp: laid_out_def at_word_def)
  ultimately show ?thesis by (rule that) simp_all
qed

text \<open>What a word leaves behind: its value and argument, with the word consumed.\<close>

definition word_done ::
  "string \<Rightarrow> string list \<Rightarrow> string list \<Rightarrow> string list \<Rightarrow> string list \<Rightarrow> int \<times> string option
     \<Rightarrow> int \<times> getopt_state \<Rightarrow> bool" where
  "word_done prog O1 N O2 R v res \<longleftrightarrow> fst res = fst v \<and> optarg (snd res) = snd v
     \<and> laid_out prog O1 N O2 R (snd res) \<and> pointee (place (snd res)) = []"

lemma parse_letter:
  assumes "place s = Ptr (CHR ''-'' # c # cs) 1" and "c \<noteq> CHR ''-''" and "FLAG_LONGONLY \<notin> fl"
  shows "parse_option fl opts (Some tbl) idx s = short_option opts (Some tbl) idx s"
  using assms by (simp add: parse_option_def deref_def)

lemma letter_okD:
  assumes "letter_ok opts c P"
  obtains oli where "c \<noteq> nul" and "c \<noteq> CHR ''-''" and "c \<noteq> CHR '':''" and "option_rest opts c = Some oli"
    and "\<not> (c = CHR ''W'' \<and> deref oli = CHR '';'')" and "P oli"
  using assms by (auto simp: letter_ok_def split: option.splits)

lemma flag_word:
  assumes "at_word prog O1 N O2 (written (Flag c) @ R) s" and "place s = Ptr [CHR ''-'', c] 1"
    and "fits opts tbl (Flag c)" and "optarg s = None" and "FLAG_LONGONLY \<notin> fl"
  shows "\<exists>res. parse_option fl opts (Some tbl) idx s = Inr res
    \<and> word_done prog O1 N (O2 @ written (Flag c)) R (char_int c, None) res"
proof -
  from assms(3) obtain oli where c: "c \<noteq> nul" "c \<noteq> CHR ''-''" "c \<noteq> CHR '':''" "option_rest opts c = Some oli"
    "\<not> (c = CHR ''W'' \<and> deref oli = CHR '';'')" "deref oli \<noteq> CHR '':'' \<or> deref (tl oli) = CHR '':''"
    by (auto elim: letter_okD)
  let ?t = "if deref oli = CHR '':'' then s\<lparr>place := EMSG, optind := Suc (optind s), optarg := None\<rparr>
    else s\<lparr>place := Ptr [CHR ''-'', c] 2, optind := Suc (optind s)\<rparr>"
  have p: "parse_option fl opts (Some tbl) idx s = Inr (char_int c, ?t)"
    using c assms(2) parse_letter [OF assms(2) c(2) assms(5)]
    by (auto simp: short_option_def option_with_argument_def Let_def deref_def)
  have "laid_out prog O1 N (O2 @ written (Flag c)) R ?t"
    using at_word_done [OF assms(1), of ?t] by simp
  with p show ?thesis using assms(4) by (auto simp: word_done_def)
qed

lemma attached_word:
  assumes "at_word prog O1 N O2 (written (Attached c a) @ R) s" and "place s = Ptr (CHR ''-'' # c # a) 1"
    and "fits opts tbl (Attached c a)" and "FLAG_LONGONLY \<notin> fl"
  shows "\<exists>res. parse_option fl opts (Some tbl) idx s = Inr res
    \<and> word_done prog O1 N (O2 @ written (Attached c a)) R (char_int c, Some a) res"
proof -
  from assms(3) obtain oli where c: "c \<noteq> nul" "c \<noteq> CHR ''-''" "c \<noteq> CHR '':''" "option_rest opts c = Some oli"
    "\<not> (c = CHR ''W'' \<and> deref oli = CHR '';'')" "deref oli = CHR '':''" and a: "a \<noteq> []"
    by (auto elim: letter_okD)
  let ?t = "s\<lparr>optarg := Some a, place := EMSG, optind := Suc (optind s)\<rparr>"
  have p: "parse_option fl opts (Some tbl) idx s = Inr (char_int c, ?t)"
    using c a assms(2) parse_letter [OF assms(2) c(2) assms(4)]
    by (auto simp: short_option_def option_with_argument_def Let_def deref_def)
  have "laid_out prog O1 N (O2 @ written (Attached c a)) R ?t"
    using at_word_done [OF assms(1), of ?t] by simp
  with p show ?thesis by (auto simp: word_done_def)
qed

lemma separate_word:
  assumes "at_word prog O1 N O2 (written (Separate c a) @ R) s" and "place s = Ptr [CHR ''-'', c] 1"
    and "fits opts tbl (Separate c a)" and "FLAG_LONGONLY \<notin> fl"
  shows "\<exists>res. parse_option fl opts (Some tbl) idx s = Inr res
    \<and> word_done prog O1 N (O2 @ written (Separate c a)) R (char_int c, Some a) res"
proof -
  from assms(3) obtain oli where c: "c \<noteq> nul" "c \<noteq> CHR ''-''" "c \<noteq> CHR '':''" "option_rest opts c = Some oli"
    "\<not> (c = CHR ''W'' \<and> deref oli = CHR '';'')" "deref oli = CHR '':''" "deref (tl oli) \<noteq> CHR '':''"
    by (auto elim: letter_okD)
  have n: "Suc (optind s) < length (nargv s) \<and> nargv s ! Suc (optind s) = a"
    using assms(1) by (intro at_word_nth(3) [of prog O1 N O2 "[CHR ''-'', c]" "a # R"]) simp_all
  let ?t = "s\<lparr>optarg := Some a, place := EMSG, optind := Suc (Suc (optind s))\<rparr>"
  have p: "parse_option fl opts (Some tbl) idx s = Inr (char_int c, ?t)"
    using c n assms(2) parse_letter [OF assms(2) c(2) assms(4)]
    by (auto simp: short_option_def option_with_argument_def Let_def deref_def)
  have "laid_out prog O1 N (O2 @ written (Separate c a)) R ?t"
    using at_word_done [OF assms(1), of ?t] by simp
  with p show ?thesis by (auto simp: word_done_def)
qed

lemma search_long_step:
  assumes "option_name e = Some nm" and "nm \<noteq> key"
  obtains f b where "search_long key short_too (e # es) i found amb = search_long key short_too es (Suc i) f b"
proof -
  have "take (length key) nm = key \<Longrightarrow> length nm \<noteq> length key" using assms(2) by auto
  then have "\<exists>f b. search_long key short_too (e # es) i found amb = search_long key short_too es (Suc i) f b"
    by (cases found; cases "take (length key) nm = key") (auto simp: assms(1))
  then show ?thesis using that by blast
qed

lemma search_long_exact:
  assumes "exact_entry es key = Some e"
  shows "\<exists>j. search_long key short_too es i found amb = Inr (Some (j, e), False)"
  using assms
proof (induction es arbitrary: i found amb)
  case Nil
  then show ?case by simp
next
  case (Cons e' es)
  then obtain nm where nm: "option_name e' = Some nm" by (cases "option_name e'") auto
  show ?case
  proof (cases "nm = key")
    case True
    with nm Cons.prems show ?thesis by simp
  next
    case False
    with nm Cons.prems have "exact_entry es key = Some e" by simp
    from Cons.IH [OF this] have IH: "\<exists>j. search_long key short_too es i f b = Inr (Some (j, e), False)" for i f b .
    from search_long_step [OF nm False] obtain f b where
      "search_long key short_too (e' # es) i found amb = search_long key short_too es (Suc i) f b" .
    then show ?thesis using IH by simp
  qed
qed

lemma long_key:
  assumes "CHR ''='' \<notin> set nm"
  shows "find_char (CHR ''='') nm = None" and "find_char (CHR ''='') (nm @ CHR ''='' # a) = Some (length nm)"
  using assms by (simp_all add: find_char_split)

text \<open>
  A declared long name is found whatever follows it in the table. With the argument in
  \<open>s2\<close> the option is complete.
\<close>

lemma parse_long_name:
  assumes "name_ok tbl nm P"
    and "pointee (place s) = nm \<and> h = None \<or> (\<exists>a. pointee (place s) = nm @ CHR ''='' # a \<and> h = Some a)"
    and "\<And>e. P (has_arg e) \<Longrightarrow> fetch_argument h e (s\<lparr>optind := Suc (optind s)\<rparr>) = Inr s2"
    and "P no_argument \<Longrightarrow> h = None" and "P required_argument \<Longrightarrow> optarg s2 \<noteq> None"
  shows "\<exists>i. parse_long_options opts tbl True short_too s = Inr (long_value tbl nm, s2\<lparr>long_index := i\<rparr>)"
proof -
  from assms(1) obtain e where e: "exact_entry tbl nm = Some e" "option_flag e = None" "option_val e \<noteq> -1"
    "P (has_arg e)" "CHR ''='' \<notin> set nm" by (auto simp: name_ok_def split: option.splits)
  from search_long_exact [OF e(1)] obtain i where
    i: "search_long nm short_too tbl 0 None False = Inr (Some (i, e), False)" by blast
  have n: "\<not> (has_arg e = no_argument \<and> h \<noteq> None)" "\<not> (has_arg e = required_argument \<and> optarg s2 = None)"
    using assms(4,5) e(4) by metis+
  have st: "store_option True i e s2 = (long_value tbl nm, s2\<lparr>long_index := int i\<rparr>)"
    using e(1,2) by (simp add: store_option_def Let_def long_value_def)
  from assms(2) have "parse_long_options opts tbl True short_too s = Inr (store_option True i e s2)"
  proof
    assume "pointee (place s) = nm \<and> h = None"
    with i n assms(3) [OF e(4)] show ?thesis
      by (auto simp: parse_long_options_def Let_def long_key [OF e(5)])
  next
    assume "\<exists>a. pointee (place s) = nm @ CHR ''='' # a \<and> h = Some a"
    then obtain a where a: "pointee (place s) = nm @ CHR ''='' # a" "h = Some a" by blast
    with i n assms(3) [OF e(4)] show ?thesis
      by (auto simp: parse_long_options_def Let_def long_key [OF e(5)])
  qed
  with st show ?thesis by auto
qed

lemma parse_dashes:
  assumes "place s = Ptr (CHR ''-'' # CHR ''-'' # cs) 1" and "pointee (Ptr (CHR ''-'' # CHR ''-'' # cs) 2) = x"
    and "parse_long_options opts tbl idx False (s\<lparr>place := Ptr (CHR ''-'' # CHR ''-'' # cs) 2\<rparr>) = Inr (r, t)"
    and "r \<noteq> -1"
  shows "parse_option fl opts (Some tbl) idx s = Inr (r, t\<lparr>place := EMSG\<rparr>)"
  using assms by (simp add: parse_option_def deref_def Let_def numeral_2_eq_2)

lemma long_word_done:
  assumes "at_word prog O1 N O2 (u @ R) s" and "u \<noteq> []"
    and "nargv t = nargv s" and "optind t = optind s + length u" and "optreset t = optreset s"
    and "posixly_correct t = posixly_correct s"
    and "nonopt_start t = nonopt_start s" and "nonopt_end t = nonopt_end s" and "optarg t = v"
  shows "word_done prog O1 N (O2 @ u) R (r, v) (r, t\<lparr>place := EMSG\<rparr>)"
  using at_word_done [OF assms(1,2), of "t\<lparr>place := EMSG\<rparr>"] assms(3-9) by (simp add: word_done_def)

lemma name_ok_value: "name_ok tbl nm P \<Longrightarrow> long_value tbl nm \<noteq> -1"
  by (auto simp: name_ok_def long_value_def split: option.splits)

text \<open>The three long forms: \<open>s2\<close> is the state with the argument.\<close>

lemma long_word:
  assumes "at_word prog O1 N O2 (written w @ R) s" and "place s = Ptr (''--'' @ nm @ rest) 1"
    and "name_ok tbl nm P" and "rest = [] \<and> h = None \<or> (\<exists>a. rest = CHR ''='' # a \<and> h = Some a)"
    and "written w \<noteq> []"
    and s2: "s2 = s\<lparr>place := Ptr (''--'' @ nm @ rest) 2, optind := optind s + length (written w), optarg := v\<rparr>"
    and "\<And>e. P (has_arg e) \<Longrightarrow>
      fetch_argument h e (s\<lparr>place := Ptr (''--'' @ nm @ rest) 2, optind := Suc (optind s)\<rparr>) = Inr s2"
    and "P no_argument \<Longrightarrow> h = None" and "P required_argument \<Longrightarrow> v \<noteq> None"
  shows "\<exists>res. parse_option fl opts (Some tbl) True s = Inr res
    \<and> word_done prog O1 N (O2 @ written w) R (long_value tbl nm, v) res"
proof -
  let ?s = "s\<lparr>place := Ptr (''--'' @ nm @ rest) 2\<rparr>"
  have "pointee (place ?s) = nm @ rest" by (simp add: numeral_2_eq_2)
  then have "pointee (place ?s) = nm \<and> h = None \<or> (\<exists>a. pointee (place ?s) = nm @ CHR ''='' # a \<and> h = Some a)"
    using assms(4) by auto
  from parse_long_name [OF assms(3) this, of s2 opts False] assms(7-9) obtain i where
    "parse_long_options opts tbl True False ?s = Inr (long_value tbl nm, s2\<lparr>long_index := i\<rparr>)"
    by (auto simp: s2)
  with parse_dashes [of s "nm @ rest"] assms(2) name_ok_value [OF assms(3)] have
    "parse_option fl opts (Some tbl) True s = Inr (long_value tbl nm, s2\<lparr>long_index := i, place := EMSG\<rparr>)" by simp
  moreover have "word_done prog O1 N (O2 @ written w) R (long_value tbl nm, v)
      (long_value tbl nm, s2\<lparr>long_index := i, place := EMSG\<rparr>)"
    by (rule long_word_done [OF assms(1,5)]) (simp_all add: s2)
  ultimately show ?thesis by blast
qed

text \<open>Every word that is not plain, after the scanner has stopped in front of it.\<close>

lemma parse_word:
  assumes "at_word prog O1 N O2 (written w @ R) s" and "place s = Ptr (hd (written w)) 1"
    and "fits opts tbl w" and "\<not> is_plain w" and "optarg s = None" and "FLAG_LONGONLY \<notin> fl"
    and "meaning tbl w = [v]"
  shows "\<exists>res. parse_option fl opts (Some tbl) True s = Inr res
    \<and> word_done prog O1 N (O2 @ written w) R v res"
proof -
  have args: "required_argument \<noteq> no_argument" "optional_argument \<noteq> no_argument" "optional_argument \<noteq> required_argument"
    by (simp_all add: no_argument_def required_argument_def optional_argument_def)
  have same: "s\<lparr>place := p, optind := i, optarg := None\<rparr> = s\<lparr>place := p, optind := i\<rparr>" for p i
    using assms(5) by (cases s) simp
  show ?thesis
  proof (cases w)
    case (Flag c)
    with assms flag_word [of prog O1 N O2 c R s opts tbl fl True] show ?thesis by auto
  next
    case (Attached c a)
    with assms attached_word [of prog O1 N O2 c a R s opts tbl fl True] show ?thesis by auto
  next
    case (Separate c a)
    with assms separate_word [of prog O1 N O2 c a R s opts tbl fl True] show ?thesis by auto
  next
    case (LongFlag nm)
    show ?thesis
    proof (rule ex_forward [OF long_word [OF assms(1), of nm "[]" tbl "\<lambda>k. k = no_argument \<or> k = optional_argument"
          None "s\<lparr>place := Ptr (''--'' @ nm @ []) 2, optind := optind s + length (written w), optarg := None\<rparr>" None fl opts]])
    qed (use assms LongFlag args same in \<open>auto simp: fetch_argument_def\<close>)
  next
    case (LongEq nm a)
    show ?thesis
    proof (rule ex_forward [OF long_word [OF assms(1), of nm "''='' @ a" tbl "\<lambda>k. k = required_argument \<or> k = optional_argument"
          "Some a" "s\<lparr>place := Ptr (''--'' @ nm @ ''='' @ a) 2, optind := optind s + length (written w), optarg := Some a\<rparr>" "Some a" fl opts]])
    qed (use assms LongEq args in \<open>auto simp: fetch_argument_def\<close>)
  next
    case (LongSep nm a)
    have n: "Suc (optind s) < length (nargv s) \<and> nargv s ! Suc (optind s) = a"
      using assms(1) LongSep by (intro at_word_nth(3) [of prog O1 N O2 "''--'' @ nm" "a # R"]) simp_all
    show ?thesis
    proof (rule ex_forward [OF long_word [OF assms(1), of nm "[]" tbl "\<lambda>k. k = required_argument"
          None "s\<lparr>place := Ptr (''--'' @ nm @ []) 2, optind := optind s + length (written w), optarg := Some a\<rparr>" "Some a" fl opts]])
    qed (use assms LongSep args n in \<open>auto simp: fetch_argument_def\<close>)
  next
    case (Plain a)
    with assms(4) show ?thesis by simp
  qed
qed

section \<open>The whole command line\<close>

definition plain_start :: "string \<Rightarrow> bool" where
  "plain_start options \<longleftrightarrow> deref options \<noteq> CHR ''-'' \<and> deref options \<noteq> CHR ''+''"

lemma not_plain_written:
  assumes "fits opts tbl w" and "\<not> is_plain w"
  obtains c cs us v where "written w = (CHR ''-'' # c # cs) # us" and "CHR ''-'' # c # cs \<noteq> ''--''"
    and "meaning tbl w = [v]" and "fst v \<noteq> -1"
proof (cases w)
  case (LongFlag nm)
  with assms that [of "CHR ''-''" nm "[]" "(long_value tbl nm, None)"] name_ok_value show ?thesis
    by (auto simp: name_ok_def)
next
  case (LongEq nm a)
  with assms that [of "CHR ''-''" "nm @ ''='' @ a" "[]" "(long_value tbl nm, Some a)"] name_ok_value show ?thesis
    by (auto simp: name_ok_def)
next
  case (LongSep nm a)
  with assms that [of "CHR ''-''" nm "[a]" "(long_value tbl nm, Some a)"] name_ok_value show ?thesis
    by (auto simp: name_ok_def)
qed (use assms that in \<open>auto simp: letter_ok_def\<close>)

text \<open>
  The entry of the parser changes nothing in the layout, and the scanner starts, with
  \<open>FLAG_PERMUTE\<close>.
\<close>

definition entered :: "getopt_state \<Rightarrow> getopt_state" where
  "entered s = s\<lparr>posixly_correct := Some False, optarg := None\<rparr>"

lemma entered_id: "optarg s = None \<Longrightarrow> posixly_correct s = Some False \<Longrightarrow> entered s = s"
  by (cases s) (simp add: entered_def)

lemma getopt_long_scan:
  assumes "laid_out prog O1 N O2 R s" and "pointee (place s) = []" and "plain_start options"
  shows "getopt_long False options (Some tbl) True s =
    (case scan_arguments {FLAG_PERMUTE} options (entered s) of
       Inl u \<Rightarrow> Inl u
     | Inr (Some r, s2) \<Rightarrow> Inr (r, s2)
     | Inr (None, s2) \<Rightarrow> parse_option {FLAG_PERMUTE} options (Some tbl) True s2)"
    and "laid_out prog O1 N O2 R (entered s)"
proof -
  have b: "0 < optind s" "\<not> optreset s" "posixly_correct s \<noteq> Some True"
    using assms(1) by (simp_all add: laid_out_def)
  then have p: "prepare False s = entered s"
    by (cases s) (auto simp: prepare_def entered_def Let_def)
  have n: "(entered s)\<lparr>optreset := False\<rparr> = entered s" using b(2) by (cases s) (simp add: entered_def)
  have f: "adjust_flags options (entered s) {FLAG_PERMUTE} = {FLAG_PERMUTE}" "option_letters options = options"
    using assms(3) by (simp_all add: adjust_flags_def option_letters_def plain_start_def entered_def)
  have "pointee (place (entered s)) = []" using assms(2) by (simp add: entered_def)
  then show "getopt_long False options (Some tbl) True s =
      (case scan_arguments {FLAG_PERMUTE} options (entered s) of
         Inl u \<Rightarrow> Inl u
       | Inr (Some r, s2) \<Rightarrow> Inr (r, s2)
       | Inr (None, s2) \<Rightarrow> parse_option {FLAG_PERMUTE} options (Some tbl) True s2)"
    unfolding getopt_long_def getopt_internal_def Let_def option.case p f n by simp
  show "laid_out prog O1 N O2 R (entered s)" using assms(1) by (simp add: laid_out_def entered_def)
qed

lemma getopt_long_word:
  assumes "laid_out prog O1 N O2 (written w @ R) s" and "pointee (place s) = []" and "plain_start options"
    and "fits options tbl w" and "\<not> is_plain w" and "meaning tbl w = [v]"
  shows "\<exists>res. getopt_long False options (Some tbl) True s = Inr res
    \<and> word_done prog O1 N (O2 @ written w) R v res"
proof -
  from not_plain_written [OF assms(4,5)] obtain c cs us where
    w: "written w = (CHR ''-'' # c # cs) # us" "CHR ''-'' # c # cs \<noteq> ''--''" by metis
  note t = getopt_long_scan [OF assms(1-3)]
  have o: "optarg (entered s) = None" by (simp add: entered_def)
  from t(2) w(1) have "laid_out prog O1 N O2 ((CHR ''-'' # c # cs) # us @ R) (entered s)" by simp
  from scan_word [OF this w(2)] obtain s2 where
    s2: "scan_arguments {FLAG_PERMUTE} options (entered s) = Inr (None, s2)"
      "at_word prog O1 N O2 (written w @ R) s2" "place s2 = Ptr (hd (written w)) 1" "optarg s2 = None"
    using o w(1) by (metis append_Cons list.sel(1))
  from parse_word [OF s2(2,3) assms(4,5) s2(4) _ assms(6), of "{FLAG_PERMUTE}"] show ?thesis
    using t(1) s2(1) by simp
qed

text \<open>A plain word in front is skipped: the call works as if it were in the middle.\<close>

lemma getopt_long_plain:
  assumes "laid_out prog O1 N O2 (a # R) s" and "pointee (place s) = []" and "plain_start options"
    and "is_nonoption options a"
  obtains s' where "laid_out prog (O1 @ O2) (N @ [a]) [] R s'" and "pointee (place s') = []"
    and "getopt_long False options (Some tbl) True s = getopt_long False options (Some tbl) True s'"
proof -
  let ?t = "(entered s)\<lparr>place := EMSG\<rparr>"
  note t = getopt_long_scan(1) [OF assms(1-3), of tbl] getopt_long_scan(2) [OF assms(1-3)]
  have "laid_out prog O1 N O2 (a # R) ?t" using t(2) by (simp add: laid_out_def)
  from skip_laid_out [OF this] obtain s' where
    s': "skip_argument ?t = Inr s'" "laid_out prog (O1 @ O2) (N @ [a]) [] R s'" "place s' = EMSG"
      "optarg s' = None" "posixly_correct s' = Some False" by (auto simp: entered_def)
  have "scan_arguments {FLAG_PERMUTE} options (entered s) = scan_arguments {FLAG_PERMUTE} options s'"
    using laid_out_nth [OF t(2)] assms(4) s'(1) by (simp add: scan_arguments.simps [of _ _ "entered s"])
  moreover have p: "pointee (place s') = []" using s'(3) by simp
  ultimately show ?thesis
    using that [OF s'(2) p] t(1) getopt_long_scan(1) [OF s'(2) p assms(3), of tbl] entered_id [OF s'(4,5)]
    by simp
qed

lemma getopt_results_same_call:
  assumes "getopt_long posix options (Some tbl) True s = getopt_long posix options (Some tbl) True s'"
  shows "getopt_results posix options tbl n s = getopt_results posix options tbl n s'"
  using assms by (cases n) simp_all

abbreviation options_of :: "word list \<Rightarrow> string list" where
  "options_of ws \<equiv> concat (map written (filter (\<lambda>w. \<not> is_plain w) ws))"

abbreviation others_of :: "word list \<Rightarrow> string list" where
  "others_of ws \<equiv> concat (map written (filter is_plain ws))"

lemma getopt_results_words:
  assumes "laid_out prog O1 N O2 (concat (map written ws)) s" and "pointee (place s) = []"
    and "plain_start options" and "\<forall>w \<in> set ws. fits options tbl w" and "length ws < n"
  shows "\<exists>s'. getopt_results False options tbl n s = Inr (Some (concat (map (meaning tbl) ws), s'))
    \<and> nargv s' = prog # O1 @ O2 @ options_of ws @ N @ others_of ws
    \<and> optind s' = Suc (length (O1 @ O2 @ options_of ws))"
  using assms
proof (induction ws arbitrary: O1 N O2 s n)
  case Nil
  note t = getopt_long_scan(1) [OF Nil.prems(1-3), of tbl] getopt_long_scan(2) [OF Nil.prems(1-3)]
  have "laid_out prog O1 N O2 [] ((entered s)\<lparr>place := EMSG\<rparr>)" using t(2) by (simp add: laid_out_def)
  from end_laid_out [OF this] obtain s' where
    s': "end_of_arguments ((entered s)\<lparr>place := EMSG\<rparr>) = Inr s'" "nargv s' = prog # O1 @ O2 @ N"
      "optind s' = Suc (length O1 + length O2)" .
  have "length (nargv (entered s)) \<le> optind (entered s)" using t(2) by (simp add: laid_out_def)
  then have "scan_arguments {FLAG_PERMUTE} options (entered s) = Inr (Some (-1), s')"
    using s'(1) by (simp add: scan_arguments.simps [of _ _ "entered s"])
  with t(1) s' Nil.prems(5) show ?case by (cases n) simp_all
next
  case (Cons w ws)
  show ?case
  proof (cases "is_plain w")
    case True
    then obtain a where a: "w = Plain a" by (cases w) auto
    with Cons.prems(1,4) have "laid_out prog O1 N O2 (a # concat (map written ws)) s" "is_nonoption options a"
      by simp_all
    from getopt_long_plain [OF this(1) Cons.prems(2,3) this(2)] obtain s' where
      s': "laid_out prog (O1 @ O2) (N @ [a]) [] (concat (map written ws)) s'" "pointee (place s') = []"
        "getopt_long False options (Some tbl) True s = getopt_long False options (Some tbl) True s'" .
    from Cons.IH [OF s'(1,2) Cons.prems(3), of n] Cons.prems(4,5) getopt_results_same_call [OF s'(3), of n] a
    show ?thesis by simp
  next
    case False
    from not_plain_written [of options tbl w] Cons.prems(4) False obtain v where
      v: "meaning tbl w = [v]" "fst v \<noteq> -1" by (metis list.set_intros(1))
    from Cons.prems(1) have "laid_out prog O1 N O2 (written w @ concat (map written ws)) s" by simp
    from getopt_long_word [OF this Cons.prems(2,3) _ False v(1)] Cons.prems(4) obtain res where
      res: "getopt_long False options (Some tbl) True s = Inr res"
        "word_done prog O1 N (O2 @ written w) (concat (map written ws)) v res" by auto
    obtain m where m: "n = Suc m" "length ws < m" using Cons.prems(5) by (cases n) auto
    have l: "laid_out prog O1 N (O2 @ written w) (concat (map written ws)) (snd res)"
      "pointee (place (snd res)) = []" "fst res = fst v" "optarg (snd res) = snd v"
      using res(2) by (simp_all add: word_done_def)
    from Cons.IH [OF l(1,2) Cons.prems(3) _ m(2)] Cons.prems(4) obtain s' where
      s': "getopt_results False options tbl m (snd res) = Inr (Some (concat (map (meaning tbl) ws), s'))"
        "nargv s' = prog # O1 @ (O2 @ written w) @ options_of ws @ N @ others_of ws"
        "optind s' = Suc (length (O1 @ (O2 @ written w) @ options_of ws))" by auto
    have "getopt_results False options tbl n s = Inr (Some (concat (map (meaning tbl) (w # ws)), s'))"
      using res(1) s'(1) l(3,4) v m(1) by (cases res; cases v) simp
    with s'(2,3) False show ?thesis by simp
  qed
qed

section \<open>Properties\<close>

text \<open>
  C19: with a terminated option table the loop over \<open>getopt_long\<close> ends for every argument
  vector, and no call reads out of bounds or divides by zero. At most as many options are
  returned as there are characters and arguments behind the program name; the vector is then a
  permutation of the given one and \<open>optind\<close> an index into it or its length. The bound is the
  fuel of the loop, so it is enough.
\<close>

theorem getopt_loop_ends:
  assumes "argv \<noteq> []" and "\<forall>a \<in> set argv. nul \<notin> set a" and "proper_table tbl"
  shows "\<exists>cs s'. getopt_results posix options tbl (Suc (arguments_left (tl argv))) (getopt_start argv)
      = Inr (Some (cs, s'))
    \<and> mset (nargv s') = mset argv \<and> optind s' \<le> length argv \<and> length cs \<le> arguments_left (tl argv)"
proof -
  have b: "between_calls (getopt_start argv)" using assms(1,2) by (intro between_calls_start) auto
  have l: "left_over (getopt_start argv) = arguments_left (tl argv)"
    by (simp add: left_over_def getopt_start_def drop_Suc)
  from getopt_results_end [OF b assms(3), of "Suc (arguments_left (tl argv))" posix options] l obtain cs s' where
    s': "getopt_results posix options tbl (Suc (arguments_left (tl argv))) (getopt_start argv) = Inr (Some (cs, s'))"
      "between_calls s'" "mset (nargv s') = mset (nargv (getopt_start argv))" "length cs \<le> arguments_left (tl argv)"
    by auto
  have "optind s' \<le> length (nargv s')" using s'(2) by (simp add: between_calls_def scan_ok_def)
  with s' show ?thesis by (metis getopt_start_def getopt_state.select_convs(1) mset_eq_length)
qed

definition test_table :: "option_entry list" where
  "test_table =
     [\<lparr>option_name = Some ''port'', has_arg = required_argument, option_flag = None, option_val = 112\<rparr>,
      \<lparr>option_name = None, has_arg = 0, option_flag = None, option_val = 0\<rparr>]"

theorem getopt_loop_ends_witness:
  "\<exists>cs s'. getopt_results False ''p:'' test_table 15 (getopt_start [''tool'', ''a'', ''--port=7'', ''-x''])
      = Inr (Some (cs, s')) \<and> length cs \<le> 14"
proof -
  have n: "\<forall>a \<in> set [''tool'', ''a'', ''--port=7'', ''-x'']. nul \<notin> set a" by (simp add: nul_def)
  have t: "proper_table test_table" by (simp add: proper_table_def test_table_def)
  have l: "arguments_left (tl [''tool'', ''a'', ''--port=7'', ''-x'']) = 14" by (simp add: arguments_left_def)
  from getopt_loop_ends [OF _ n t, of False "''p:''", unfolded l]
  obtain cs s' where "getopt_results False ''p:'' test_table (Suc 14)
      (getopt_start [''tool'', ''a'', ''--port=7'', ''-x'']) = Inr (Some (cs, s'))" "length cs \<le> 14" by blast
  then show ?thesis by (intro exI [of _ cs] exI [of _ s'] conjI) (simp_all only: eval_nat_numeral)
qed

text \<open>
  C18: parsing inverts writing. A command line made of declared options, in any of their forms
  (\<open>-c\<close>, \<open>-cARG\<close>, \<open>-c ARG\<close>, \<open>--name\<close>, \<open>--name=ARG\<close>, \<open>--name ARG\<close>), with other arguments
  anywhere between them, gives exactly these options with their arguments, in order; then the
  vector holds the program name, the options as written and behind them the other arguments,
  both in their old order, and \<open>optind\<close> is the index of the first of these.
\<close>

theorem getopt_parses_command_lines:
  assumes "plain_start options" and "\<forall>w \<in> set ws. fits options tbl w"
  shows "\<exists>s'. getopt_results False options tbl (Suc (length ws)) (getopt_start (command_line_of prog ws))
      = Inr (Some (concat (map (meaning tbl) ws), s'))
    \<and> nargv s' = prog # options_of ws @ others_of ws \<and> optind s' = Suc (length (options_of ws))"
proof -
  have "laid_out prog [] [] [] (concat (map written ws)) (getopt_start (command_line_of prog ws))"
    by (simp add: laid_out_def getopt_start_def command_line_of_def)
  from getopt_results_words [OF this _ assms, of "Suc (length ws)"] show ?thesis
    by (simp add: getopt_start_def)
qed

definition test_words :: "word list" where
  "test_words = [Plain ''a'', Attached (CHR ''p'') ''80'', Plain ''-'', LongSep ''port'' ''81'', Flag (CHR ''x'')]"

theorem getopt_parses_command_lines_witness:
  "\<exists>s'. getopt_results False ''p:x'' test_table 6
       (getopt_start [''tool'', ''a'', ''-p80'', ''-'', ''--port'', ''81'', ''-x''])
      = Inr (Some ([(112, Some ''80''), (112, Some ''81''), (120, None)], s'))
    \<and> nargv s' = [''tool'', ''-p80'', ''--port'', ''81'', ''-x'', ''a'', ''-''] \<and> optind s' = 5"
proof -
  have f: "plain_start ''p:x''" "\<forall>w \<in> set test_words. fits ''p:x'' test_table w" by code_simp+
  have e: "command_line_of ''tool'' test_words = [''tool'', ''a'', ''-p80'', ''-'', ''--port'', ''81'', ''-x'']"
    "Suc (length test_words) = 6" by code_simp+
  have m: "concat (map (meaning test_table) test_words) = [(112, Some ''80''), (112, Some ''81''), (120, None)]"
    by code_simp
  have o: "''tool'' # options_of test_words @ others_of test_words =
      [''tool'', ''-p80'', ''--port'', ''81'', ''-x'', ''a'', ''-'']" "Suc (length (options_of test_words)) = 5"
    by code_simp+
  from getopt_parses_command_lines [OF f, of "''tool''"] show ?thesis unfolding e m o .
qed

end
