(* ===== verification/Console_Tool.thy ===== *)
theory Console_Tool
  imports Console_Logger Getopt_Parse
begin

text \<open>
  The command line tool as it is built on Windows: \<open>main\<close> of
  \<open>console_logger/ConsoleLogger.cpp\<close> with the option parser of \<open>console_logger/getopt.h\<close>
  and the option table of the tool. \<open>Console_Logger\<close> describes \<open>main\<close> over the list of
  results of \<open>getopt_long\<close>; here the two run together.
\<close>

section \<open>Definitions\<close>

definition tool_options :: string where
  "tool_options = ''hf::p:t:l:m:a::e:''"

definition long_option :: "string \<Rightarrow> int \<Rightarrow> char \<Rightarrow> option_entry" where
  "long_option nm k c =
     \<lparr>option_name = Some nm, has_arg = k, option_flag = None, option_val = char_int c\<rparr>"

definition tool_table :: "option_entry list" where
  "tool_table =
     [long_option ''help'' no_argument (CHR ''h''), long_option ''file'' optional_argument (CHR ''f''),
      long_option ''address'' optional_argument (CHR ''a''), long_option ''port'' required_argument (CHR ''p''),
      long_option ''time'' required_argument (CHR ''t''), long_option ''level'' required_argument (CHR ''l''),
      long_option ''message'' required_argument (CHR ''m''), long_option ''extra'' optional_argument (CHR ''e'')]"

text \<open>The \<open>int\<close> of the \<open>switch\<close> as a character; the labels are letters.\<close>

definition switch_char :: "int \<Rightarrow> char" where
  "switch_char c = (if 0 \<le> c \<and> c < 128 then char_of (nat c) else nul)"

text \<open>The loop of \<open>main\<close>; the number bounds the calls of \<open>getopt_long\<close>.\<close>

fun tool_loop ::
  "(string \<Rightarrow> exn + 'f) \<Rightarrow> bool \<Rightarrow> nat \<Rightarrow> getopt_state \<Rightarrow> 'f options
     \<Rightarrow> ub + ('f outcome \<times> getopt_state) option" where
  "tool_loop stof posix 0 s o1 = Inr None"
| "tool_loop stof posix (Suc n) s o1 =
     (case getopt_long posix tool_options (Some tool_table) True s of
        Inl u \<Rightarrow> Inl u
      | Inr (c, s') \<Rightarrow>
          if c = -1 then Inr (Some (Continue o1, s'))
          else (case handle_option stof (switch_char c, optarg s') o1 of
            Continue o2 \<Rightarrow> tool_loop stof posix n s' o2
          | r \<Rightarrow> Inr (Some (r, s'))))"

definition windows_main ::
  "(string \<Rightarrow> string option) \<Rightarrow> (string \<Rightarrow> exn + 'f) \<Rightarrow> 'f \<Rightarrow> ('f \<Rightarrow> int) \<Rightarrow> 'a list \<Rightarrow> bool \<Rightarrow> nat \<Rightarrow> string list
     \<Rightarrow> ub + ('a, 'f) main_result option" where
  "windows_main files stof one to_ms second_args posix n argv =
     (case tool_loop stof posix n (getopt_start argv) (options_default one) of
        Inl u \<Rightarrow> Inl u
      | Inr None \<Rightarrow> Inr None
      | Inr (Some (Usage, s)) \<Rightarrow> Inr (Some PrintAlternatives)
      | Inr (Some (Uncaught e, s)) \<Rightarrow> Inr (Some (Terminated e))
      | Inr (Some (Continue o1, s)) \<Rightarrow>
          Inr (Some (if msg o1 = [] then PrintAlternatives
                     else Calls (new_handlers o1) (library_calls files second_args (nargv s) o1)
                            (to_ms (timeout o1)))))"

section \<open>Lemmas\<close>

text \<open>The tool sees the words of its command line as letters with their arguments.\<close>

definition tool_results :: "word list \<Rightarrow> (char \<times> string option) list" where
  "tool_results ws = map (\<lambda>(c, a). (switch_char c, a)) (concat (map (meaning tool_table) ws))"

lemma tool_loop_results:
  assumes "getopt_results posix tool_options tool_table n s = Inr (Some (cs, s'))"
  shows "\<exists>u. tool_loop stof posix n s o1 =
      Inr (Some (option_loop stof (map (\<lambda>(c, a). (switch_char c, a)) cs) o1, u))
    \<and> (\<forall>o2. option_loop stof (map (\<lambda>(c, a). (switch_char c, a)) cs) o1 = Continue o2 \<longrightarrow> u = s')"
  using assms
proof (induction n arbitrary: s o1 cs)
  case 0
  then show ?case by simp
next
  case (Suc n)
  then obtain c t where g: "getopt_long posix tool_options (Some tool_table) True s = Inr (c, t)"
    by (auto split: sum.splits)
  show ?case
  proof (cases "c = -1")
    case True
    with Suc.prems g show ?thesis by simp
  next
    case False
    with Suc.prems g obtain ds where
      d: "getopt_results posix tool_options tool_table n t = Inr (Some (ds, s'))" "cs = (c, optarg t) # ds"
      by (auto split: sum.splits option.splits)
    show ?thesis
    proof (cases "handle_option stof (switch_char c, optarg t) o1")
      case (Continue o2)
      with Suc.IH [OF d(1), of o2] False g d(2) show ?thesis by simp
    qed (use False g d(2) in simp_all)
  qed
qed

lemma search_long_overrun:
  assumes "\<forall>e \<in> set es. \<exists>nm. option_name e = Some nm \<and> nm \<noteq> key"
  shows "search_long key short_too es i found amb = Inl Read_past_array"
  using assms
proof (induction es arbitrary: i found amb)
  case Nil
  then show ?case by simp
next
  case (Cons e es)
  then obtain nm where nm: "option_name e = Some nm" "nm \<noteq> key" by auto
  from search_long_step [OF nm] obtain f b where
    "search_long key short_too (e # es) i found amb = search_long key short_too es (Suc i) f b" .
  with Cons show ?case by simp
qed

section \<open>Properties\<close>

text \<open>
  C21: on a well-formed command line the Windows build of the tool does what \<open>main\<close> does over
  the options as written, and \<open>main\<close> then sees the permuted argument vector: the text it
  attaches as \<open>arguments\<close> has the options first. No such command line reaches the missing end
  of the option table, and as many calls as there are words, and one, are enough.
\<close>

theorem windows_tool_runs_main:
  assumes "\<forall>w \<in> set ws. fits tool_options tool_table w"
  shows "windows_main files stof one to_ms second_args False (Suc (length ws)) (command_line_of prog ws) =
    Inr (Some (main files stof one to_ms second_args (prog # options_of ws @ others_of ws) (tool_results ws)))"
proof -
  have "laid_out prog [] [] [] (concat (map written ws)) (getopt_start (command_line_of prog ws))"
    by (simp add: laid_out_def getopt_start_def command_line_of_def)
  from getopt_results_words [OF this _ _ assms, of "Suc (length ws)"] obtain s' where
    s': "getopt_results False tool_options tool_table (Suc (length ws)) (getopt_start (command_line_of prog ws)) =
        Inr (Some (concat (map (meaning tool_table) ws), s'))"
      "nargv s' = prog # options_of ws @ others_of ws"
    by (auto simp: getopt_start_def plain_start_def tool_options_def deref_def)
  from tool_loop_results [OF s'(1), of stof "options_default one"] obtain u where
    u: "tool_loop stof False (Suc (length ws)) (getopt_start (command_line_of prog ws)) (options_default one) =
        Inr (Some (option_loop stof (tool_results ws) (options_default one), u))"
      "\<And>o2. option_loop stof (tool_results ws) (options_default one) = Continue o2 \<Longrightarrow> u = s'"
    unfolding tool_results_def by blast
  show ?thesis
    by (cases "option_loop stof (tool_results ws) (options_default one)")
      (use u s'(2) in \<open>simp_all add: windows_main_def main_def\<close>)
qed

theorem windows_tool_runs_main_witness:
  "\<exists>hs calls. windows_main (\<lambda>_. Some []) (\<lambda>_. Inl Invalid_argument) (0::nat) int ([] :: nat list) False 5
      [''tool'', ''now'', ''-mtext'', ''--file'', ''-l'', ''3''] = Inr (Some (Calls hs calls 0))
    \<and> CField ''arguments'' (AdditionalField_str '' -mtext --file -l 3 now'') \<in> set calls
    \<and> CLog Error ''text'' [] \<in> set calls"
proof -
  let ?ws = "[Plain ''now'', Attached (CHR ''m'') ''text'', LongFlag ''file'', Separate (CHR ''l'') ''3'']"
  have f: "\<forall>w \<in> set ?ws. fits tool_options tool_table w" by code_simp
  have e: "command_line_of ''tool'' ?ws = [''tool'', ''now'', ''-mtext'', ''--file'', ''-l'', ''3'']"
    "Suc (length ?ws) = 5" by code_simp+
  have o: "''tool'' # options_of ?ws @ others_of ?ws = [''tool'', ''-mtext'', ''--file'', ''-l'', ''3'', ''now'']"
    by code_simp
  have m: "case main (\<lambda>_. Some []) (\<lambda>_. Inl Invalid_argument) (0::nat) int ([] :: nat list)
        [''tool'', ''-mtext'', ''--file'', ''-l'', ''3'', ''now''] (tool_results ?ws) of
      Calls hs calls ms \<Rightarrow> ms = 0 \<and> (case calls of CField k v # _ \<Rightarrow> k = ''arguments''
          \<and> v = AdditionalField_str '' -mtext --file -l 3 now'' | _ \<Rightarrow> False)
        \<and> CLog Error ''text'' [] \<in> set calls
    | _ \<Rightarrow> False" by code_simp
  from windows_tool_runs_main [OF f, of "\<lambda>_. Some []" "\<lambda>_. Inl Invalid_argument" "0::nat" int "[] :: nat list" "''tool''"] m
  show ?thesis unfolding e o
    by (auto split: main_result.splits list.splits call.splits)
qed

text \<open>
  C22: the option table of the tool has no terminating entry, so any long option that is not
  the full name of one of its eight entries, an unknown one or an abbreviation, makes
  \<open>getopt_long\<close> read behind the table.
\<close>

theorem tool_unknown_long_option_overruns:
  assumes "CHR ''='' \<notin> set key" and "rest = [] \<or> (\<exists>a. rest = CHR ''='' # a)" and "key @ rest \<noteq> []"
    and "\<forall>e \<in> set tool_table. option_name e \<noteq> Some key"
  shows "windows_main files stof one to_ms second_args posix (Suc n) (prog # (''--'' @ key @ rest) # tail_args) =
    Inl Read_past_array"
proof -
  let ?arg = "''--'' @ key @ rest" and ?s = "getopt_start (prog # (''--'' @ key @ rest) # tail_args)"
  let ?t = "?s\<lparr>posixly_correct := Some posix\<rparr>"
  have p: "prepare posix ?s = ?t"
    by (simp add: prepare_def getopt_start_def Let_def)
  have scan: "scan_arguments fl opts ?t = Inr (None, ?t\<lparr>place := Ptr ?arg 1\<rparr>)" for fl opts
    unfolding scan_arguments.simps [of fl opts ?t] using assms(3)
    by (auto simp: scan_option_def is_nonoption_def deref_def getopt_start_def Let_def)
  have s: "search_long key False tool_table 0 None False = Inl Read_past_array"
    by (rule search_long_overrun) (use assms(4) in \<open>auto simp: tool_table_def long_option_def\<close>)
  have k: "(case find_char (CHR ''='') (key @ rest) of Some k \<Rightarrow> take k (key @ rest) | None \<Rightarrow> key @ rest) = key"
  proof (cases "rest = []")
    case True
    have "find_char (CHR ''='') key = None" using assms(1) by simp
    then show ?thesis using True by (simp del: find_char_None)
  next
    case False
    with assms(2) obtain a where "rest = CHR ''='' # a" by blast
    with assms(1) show ?thesis by (simp add: find_char_split)
  qed
  let ?u = "?t\<lparr>place := Ptr ?arg 2\<rparr>"
  have u: "pointee (place ?u) = key @ rest" by (simp add: numeral_2_eq_2)
  have "parse_long_options opts tool_table True False ?u = Inl Read_past_array" for opts
    unfolding parse_long_options_def Let_def u k s by simp
  then have "parse_option fl opts (Some tool_table) True (?t\<lparr>place := Ptr ?arg 1\<rparr>) = Inl Read_past_array" for fl opts
    by (simp add: parse_option_def deref_def Let_def numeral_2_eq_2)
  then have "getopt_long posix tool_options (Some tool_table) True ?s = Inl Read_past_array"
    using p scan by (simp add: getopt_long_def getopt_internal_def Let_def) (simp add: getopt_start_def)
  then show ?thesis by (simp add: windows_main_def)
qed

theorem tool_unknown_long_option_overruns_witness:
  "windows_main (\<lambda>_. Some []) (\<lambda>_. Inl Invalid_argument) (0::nat) int ([] :: nat list) False 9
     [''tool'', ''--mess=text''] = Inl Read_past_array"
proof -
  have "\<forall>e \<in> set tool_table. option_name e \<noteq> Some ''mess''" by code_simp
  from tool_unknown_long_option_overruns [OF _ _ _ this, of "''=text''" _ _ _ _ _ _ 8 "''tool''" "[]"]
  show ?thesis by (simp add: eval_nat_numeral)
qed

end
