(* ===== verification/Logging_Base_Test.thy ===== *)
theory Logging_Base_Test
  imports Logging_Sync "HOL-Library.Sublist"
begin

text \<open>
  The tests \<open>unit_tests/LoggingBaseTest.cpp\<close> of \<open>LoggingBase\<close>, with the handler of
  \<open>BaseLogHandlerStandIn.hpp\<close>, as programs that run against the asynchronous logger. A test is
  a list of calls and expectations; between any two steps the worker gets some number of
  iterations done. The tests are shown to pass for every schedule in which the waiting calls
  return, and such a schedule exists for each of them.
\<close>

section \<open>The handler of the tests\<close>

record BaseLogHandlerStandIn = handler_base +
  CurrentMessage :: LogMessage

definition BaseLogHandlerStandIn_new :: BaseLogHandlerStandIn where
  "BaseLogHandlerStandIn_new = \<lparr>MessageParser = None, CurrentMessage = LogMessage_default\<rparr>"

definition stand_in_ops :: "BaseLogHandlerStandIn handler_ops" where
  "stand_in_ops = \<lparr>hop_addMessage = (\<lambda>thr Message h. Inr (h\<lparr>CurrentMessage := Message\<rparr>)),
     hop_flush = (\<lambda>thr h. Inr (True, h)), hop_is_console = (\<lambda>h. False)\<rparr>"

text \<open>The object \<open>standIn\<close> of each test is at address 0.\<close>

definition standIn :: nat where
  "standIn = 0"

definition CurrentMessageOf :: "BaseLogHandlerStandIn logger \<Rightarrow> LogMessage" where
  "CurrentMessageOf s = CurrentMessage (Store s standIn)"

section \<open>Running a test\<close>

datatype ('a, 'h) test_step = Call "'a call" | Expect "'h logger \<Rightarrow> bool"

datatype outcome = Passed | Failed | Timed_out | Threw exn

text \<open>
  Each step comes with the iterations of the worker: during the call, or before the state is
  read. \<open>Timed_out\<close> is a call that has not returned when its iterations are done.
\<close>

fun run_test ::
  "('q, 'a) base_queue \<Rightarrow> 'a platform \<Rightarrow> 'h handler_ops \<Rightarrow> nat \<Rightarrow> nat
     \<Rightarrow> (('a, 'h) test_step \<times> nat) list \<Rightarrow> ('q, 'h) base \<Rightarrow> outcome" where
  "run_test Q E H thr k [] b = Passed"
| "run_test Q E H thr k ((Call c, n) # ts) b =
     (case perform Q E H thr k n c b of
        Inl e \<Rightarrow> Threw e
      | Inr (r, b') \<Rightarrow> if r then run_test Q E H thr (Suc k) ts b' else Timed_out)"
| "run_test Q E H thr k ((Expect P, n) # ts) b =
     (case ThreadFunction Q (run_base E H) n b of
        Inl e \<Rightarrow> Threw e
      | Inr b' \<Rightarrow> if P (target b') then run_test Q E H thr k ts b' else Failed)"

text \<open>The same against the synchronous logger; \<open>None\<close> if something fails.\<close>

fun sync_test ::
  "'a platform \<Rightarrow> 'h handler_ops \<Rightarrow> nat \<Rightarrow> nat \<Rightarrow> ('a, 'h) test_step list \<Rightarrow> 'h logger
     \<Rightarrow> (nat \<times> 'h logger) option" where
  "sync_test E H thr k [] s = Some (k, s)"
| "sync_test E H thr k (Call c # ts) s =
     (case sync_call E H thr k c s of Inl e \<Rightarrow> None | Inr s' \<Rightarrow> sync_test E H thr (Suc k) ts s')"
| "sync_test E H thr k (Expect P # ts) s = (if P s then sync_test E H thr k ts s else None)"

text \<open>Every expectation comes after a \<open>flush\<close> without another call in between.\<close>

fun is_flush :: "'a call \<Rightarrow> bool" where
  "is_flush CFlush = True"
| "is_flush _ = False"

fun settled :: "bool \<Rightarrow> ('a, 'h) test_step list \<Rightarrow> bool" where
  "settled f [] = True"
| "settled f (Call c # ts) = settled (is_flush c) ts"
| "settled f (Expect P # ts) = (f \<and> settled f ts)"

lemma sync_test_append:
  "sync_test E H thr k (xs @ ys) s =
     (case sync_test E H thr k xs s of None \<Rightarrow> None | Some (k', s') \<Rightarrow> sync_test E H thr k' ys s')"
  by (induction E H thr k xs s rule: sync_test.induct) (auto split: sum.splits)

lemma settled_mono: "settled False ts \<Longrightarrow> settled f ts"
  by (cases "(f, ts)" rule: settled.cases) auto

lemma settled_append: "settled f xs \<Longrightarrow> settled False ys \<Longrightarrow> settled f (xs @ ys)"
  by (induction f xs rule: settled.induct) (auto intro: settled_mono)

lemma settled_loop: "(\<And>x. x \<in> set xs \<Longrightarrow> settled False (f x)) \<Longrightarrow> settled False (concat (map f xs))"
  by (induction xs) (auto intro: settled_append)

lemma sync_test_loop:
  assumes "\<And>x k s. x \<in> set xs \<Longrightarrow> I s \<Longrightarrow> \<exists>k' s'. sync_test E H thr k (f x) s = Some (k', s') \<and> I s'"
    and "I s"
  shows "\<exists>k' s'. sync_test E H thr k (concat (map f xs)) s = Some (k', s') \<and> I s'"
  using assms
proof (induction xs arbitrary: k s)
  case (Cons x xs)
  obtain k1 s1 where "sync_test E H thr k (f x) s = Some (k1, s1)" "I s1"
    using Cons.prems(1) [of x s k] Cons.prems(2) by auto
  with Cons.IH [of s1 k1] Cons.prems(1) show ?case by (auto simp: sync_test_append)
qed simp

section \<open>The asynchronous logger agrees with the synchronous one\<close>

text \<open>When \<open>flush\<close> has returned, nothing is queued: its closure was the last one.\<close>

lemma flush_drains:
  assumes "queue_contract Q pend" and "sim pend E H thr k b a"
    and "sync_call E H thr k CFlush a = Inr a'" and "perform Q E H thr k n CFlush b = Inr (True, b')"
  shows "pend (MessageQueue b') = (\<lambda>_. [])"
proof -
  let ?w = "FlushHandlers k" and ?b = "send_all Q thr [FlushHandlers k] b"
  obtain ws where ws: "RunThread b" "pend (MessageQueue b) = (\<lambda>_. [])(thr := map Work ws)"
    "fold_result (run_base E H) ws (target b) = Inr a"
    "\<forall>j \<ge> k. Futures (target b) j = Unset \<and> Some j \<notin> promise_of ` set ws"
    using assms(2) by (auto simp: sim_def)
  note sent = send_all_pending [OF assms(1) ws(2), of "[?w]"]
  have "fold_result (run_base E H) (ws @ [?w]) (target ?b) = Inr a'"
    using ws(3) assms(3) by (simp add: fold_result_append sent(2) sync_call_def)
  moreover have "RunThread ?b" using ws(1) sent(3) by simp
  ultimately obtain us vs b1 where b1: "ThreadFunction Q (run_base E H) n ?b = Inr b1" "ws @ [?w] = us @ vs"
    "pend (MessageQueue b1) = (\<lambda>_. [])(thr := map Work vs)"
    "fold_result (run_base E H) us (target b) = Inr (target b1)"
    using sim_run [OF assms(1) _ sent(1), of E H a' n] unfolding sent(2) by metis
  have b': "b1 = b'" "returned k CFlush (target b')"
    using assms(4) b1(1) by (auto simp: perform_eq)
  have "vs = []"
  proof (rule ccontr)
    assume "vs \<noteq> []"
    with b1(2) have "set us \<subseteq> set ws" by (cases vs rule: rev_cases) auto
    with ws(4) have "Some k \<notin> promise_of ` set us" by blast
    with fold_futures [OF b1(4), of k] ws(4) b' show False by (simp add: flush_done_def)
  qed
  with b1(3) b' show ?thesis by (simp add: fun_upd_idem)
qed

lemma run_test_sync:
  assumes "queue_contract Q pend" and "sim pend E H thr k b a"
    and "f \<longrightarrow> pend (MessageQueue b) = (\<lambda>_. [])" and "settled f (map fst ts)"
    and "sync_test E H thr k (map fst ts) a \<noteq> None"
  shows "run_test Q E H thr k ts b \<in> {Passed, Timed_out}"
  using assms(2-5)
proof (induction ts arbitrary: k b a f)
  case (Cons t ts)
  obtain st n where t: "t = (st, n)" by (cases t)
  show ?case
  proof (cases st)
    case (Call c)
    obtain a1 where a1: "sync_call E H thr k c a = Inr a1" "sync_test E H thr (Suc k) (map fst ts) a1 \<noteq> None"
      using Cons.prems(4) t Call by (auto split: sum.splits)
    obtain r b1 where b1: "perform Q E H thr k n c b = Inr (r, b1)" "r \<longrightarrow> sim pend E H thr (Suc k) b1 a1"
      using perform_sim [OF assms(1) Cons.prems(1) a1(1)] by blast
    have "pend (MessageQueue b1) = (\<lambda>_. [])" if r and "is_flush c"
    proof -
      from that(2) have "c = CFlush" by (cases c) auto
      with flush_drains [OF assms(1) Cons.prems(1)] a1(1) b1(1) that(1) show ?thesis by simp
    qed
    with Cons.IH [of "Suc k" b1 a1 "is_flush c"] Cons.prems(3) a1(2) b1 t Call show ?thesis by (cases r) auto
  next
    case (Expect P)
    obtain b1 where b1: "ThreadFunction Q (run_base E H) n b = Inr b1" "sim pend E H thr k b1 a"
      "pend (MessageQueue b) = (\<lambda>_. []) \<longrightarrow> target b1 = a \<and> pend (MessageQueue b1) = (\<lambda>_. [])"
      using sim_worker [OF assms(1) Cons.prems(1)] by blast
    with Cons.prems t Expect Cons.IH [of k b1 a f] show ?thesis by (auto split: if_splits)
  qed
qed simp

lemma run_test_passes:
  assumes "queue_contract Q pend" and "queue_live Q pend" and "sim pend E H thr k b a"
    and "\<forall>j \<ge> k. Checks a j = Semaphore" and "sync_test E H thr k ts a \<noteq> None"
  shows "\<exists>us. map fst us = ts \<and> run_test Q E H thr k us b = Passed"
  using assms(3-5)
proof (induction ts arbitrary: k b a)
  case (Cons t ts)
  obtain ws where ws: "RunThread b" "pend (MessageQueue b) = (\<lambda>_. [])(thr := map Work ws)"
    "fold_result (run_base E H) ws (target b) = Inr a"
    using Cons.prems(1) by (auto simp: sim_def)
  show ?case
  proof (cases t)
    case (Call c)
    let ?cl = "closures thr k (MinSeverity (target b)) c"
    obtain a1 where a1: "sync_call E H thr k c a = Inr a1" "sync_test E H thr (Suc k) ts a1 \<noteq> None"
      using Cons.prems(3) Call by (auto split: sum.splits)
    note sent = send_all_pending [OF assms(1) ws(2), of ?cl]
    have "fold_result (run_base E H) (ws @ ?cl) (target (send_all Q thr ?cl b)) = Inr a1"
      using ws(3) a1(1) sim_min [OF Cons.prems(1)] unfolding sent(2)
      by (simp add: fold_result_append sync_call_def)
    moreover have "RunThread (send_all Q thr ?cl b)" using ws(1) sent(3) by simp
    ultimately obtain n b1 where b1: "ThreadFunction Q (run_base E H) n (send_all Q thr ?cl b) = Inr b1" "target b1 = a1"
      using single_producer_drains [OF assms(1,2) _ sent(1)] by metis
    have p: "perform Q E H thr k n c b = Inr (True, b1)"
      using returned_sync [OF a1(1)] Cons.prems(2) b1 by (simp add: perform_eq)
    have "sim pend E H thr (Suc k) b1 a1" using perform_sim [OF assms(1) Cons.prems(1) a1(1), of n] p by auto
    moreover have "\<forall>j \<ge> Suc k. Checks a1 j = Semaphore"
      using sync_session_checks [of E H thr k "[c]" a a1] a1(1) Cons.prems(2) by simp
    ultimately obtain us where "map fst us = ts" "run_test Q E H thr (Suc k) us b1 = Passed"
      using Cons.IH a1(2) by blast
    with p Call show ?thesis by (intro exI [of _ "(t, n) # us"]) simp
  next
    case (Expect P)
    obtain n b1 where b1: "ThreadFunction Q (run_base E H) n b = Inr b1" "target b1 = a"
      using single_producer_drains [OF assms(1,2) ws] by metis
    have "sim pend E H thr k b1 a" using sim_worker [OF assms(1) Cons.prems(1), of n] b1(1) by auto
    with Cons.IH [of k b1 a] Cons.prems Expect obtain us where
      "map fst us = ts" "run_test Q E H thr k us b1 = Passed" "P a" by (auto split: if_splits)
    with b1 Expect show ?thesis by (intro exI [of _ "(t, n) # us"]) simp
  qed
qed simp

section \<open>The tests\<close>

definition InitTest :: "('a, BaseLogHandlerStandIn) test_step list" where
  "InitTest = [Expect (\<lambda>log. length (Handlers log) = 0)]"

definition AddHandlerTest :: "('a, BaseLogHandlerStandIn) test_step list" where
  "AddHandlerTest = [Call (CAdd standIn), Call CFlush, Expect (\<lambda>log. length (Handlers log) = 1),
     Expect (\<lambda>log. Handlers log ! 0 = standIn)]"

definition ClearHandlersTest :: "('a, BaseLogHandlerStandIn) test_step list" where
  "ClearHandlersTest = [Call (CAdd standIn), Call CFlush, Expect (\<lambda>log. length (Handlers log) = 1),
     Call CClear, Call CFlush, Expect (\<lambda>log. length (Handlers log) = 0)]"

definition testSeverities :: "Severity list" where
  "testSeverities = [Alert, Critical, Debug, Emergency, Error, Informational, Notice, Warning, Trace]"

definition LogSeveritiesTest :: "('a, BaseLogHandlerStandIn) test_step list" where
  "LogSeveritiesTest = [Call (CMin Trace), Call (CAdd standIn), Call CFlush] @
     concat (map (\<lambda>sev. [Call (CLog sev '''' []), Call CFlush,
       Expect (\<lambda>log. SeverityLevel (CurrentMessageOf log) = sev)]) testSeverities)"

definition LogIntSeveritiesTest :: "('a, BaseLogHandlerStandIn) test_step list" where
  "LogIntSeveritiesTest = [Call (CMin Trace), Call (CAdd standIn)] @
     concat (map (\<lambda>sev. [Call (CLog (Severity (word_of_int (int_of_severity sev))) '''' []), Call CFlush,
       Expect (\<lambda>log. SeverityLevel (CurrentMessageOf log) = sev)]) testSeverities) @
     [Call (CLog (Severity (-7)) '''' []), Call CFlush,
      Expect (\<lambda>log. SeverityLevel (CurrentMessageOf log) = Severity (-7))]"

definition baseStr :: string where
  "baseStr = ''abcdefghijklmnopqrstuvwxyz'' @ newline"

definition message_round :: "nat \<Rightarrow> ('a, BaseLogHandlerStandIn) test_step list" where
  "message_round i = (let tmpStr = concat (replicate (Suc i) baseStr) in
     [Call (CLog Critical tmpStr []), Call CFlush,
      Expect (\<lambda>log. tmpStr = MessageString (CurrentMessageOf log))])"

definition LogMessageTest :: "('a, BaseLogHandlerStandIn) test_step list" where
  "LogMessageTest = [Call (CAdd standIn)] @ concat (map message_round [0..<100])"

text \<open>The \<open>double\<close> literal of the test is a parameter.\<close>

definition SetExtraField :: "double \<Rightarrow> ('a, BaseLogHandlerStandIn) test_step list" where
  "SetExtraField someValue = [Call (CField ''yet_another_key'' (AdditionalField_dbl someValue)), Call CFlush,
     Expect (\<lambda>log. length (AdditionalFields (BaseMsg log)) = 1),
     Expect (\<lambda>log. fst (AdditionalFields (BaseMsg log) ! 0) = ''yet_another_key''),
     Expect (\<lambda>log. FieldType (snd (AdditionalFields (BaseMsg log) ! 0)) = typeDbl),
     Expect (\<lambda>log. dblVal (snd (AdditionalFields (BaseMsg log) ! 0)) = someValue)]"

text \<open>The expectations on the fields of the last message, as the tests write them out.\<close>

definition expect_fields :: "nat \<Rightarrow> ('a, BaseLogHandlerStandIn) test_step" where
  "expect_fields n = Expect (\<lambda>log. length (AdditionalFields (CurrentMessageOf log)) = n)"

definition expect_int :: "nat \<Rightarrow> string \<Rightarrow> int64 \<Rightarrow> ('a, BaseLogHandlerStandIn) test_step list" where
  "expect_int i key v =
     [Expect (\<lambda>log. fst (AdditionalFields (CurrentMessageOf log) ! i) = key),
      Expect (\<lambda>log. FieldType (snd (AdditionalFields (CurrentMessageOf log) ! i)) = typeInt),
      Expect (\<lambda>log. intVal (snd (AdditionalFields (CurrentMessageOf log) ! i)) = v)]"

definition expect_str :: "nat \<Rightarrow> string \<Rightarrow> string \<Rightarrow> ('a, BaseLogHandlerStandIn) test_step list" where
  "expect_str i key v =
     [Expect (\<lambda>log. fst (AdditionalFields (CurrentMessageOf log) ! i) = key),
      Expect (\<lambda>log. FieldType (snd (AdditionalFields (CurrentMessageOf log) ! i)) = typeStr),
      Expect (\<lambda>log. strVal (snd (AdditionalFields (CurrentMessageOf log) ! i)) = v)]"

definition LogMsgWithoutStaticExtraField :: "('a, BaseLogHandlerStandIn) test_step list" where
  "LogMsgWithoutStaticExtraField = [Call (CAdd standIn), Call (CLog Alert ''Some message'' []), Call CFlush,
     expect_fields 0]"

definition LogMsgWithStaticExtraField :: "('a, BaseLogHandlerStandIn) test_step list" where
  "LogMsgWithStaticExtraField = [Call (CAdd standIn), Call (CField ''some_key'' (AdditionalField_int (-42344093))),
     Call (CLog Alert ''Some message'' []), Call CFlush, expect_fields 1]
     @ expect_int 0 ''some_key'' (-42344093)"

definition LogMsgWithDynamicExtraField :: "('a, BaseLogHandlerStandIn) test_step list" where
  "LogMsgWithDynamicExtraField = [Call (CAdd standIn),
     Call (CLog Alert ''Some message'' [(''some_key'', AdditionalField_int (-42344093))]), Call CFlush,
     expect_fields 1] @ expect_int 0 ''some_key'' (-42344093)"

definition LogMsgWithTwoDynamicExtraFields :: "('a, BaseLogHandlerStandIn) test_step list" where
  "LogMsgWithTwoDynamicExtraFields = [Call (CAdd standIn),
     Call (CLog Alert ''Some message''
       [(''key1'', AdditionalField_int (-4234324123)), (''key2'', AdditionalField_str ''value2'')]),
     Call CFlush, expect_fields 2] @ expect_int 0 ''key1'' (-4234324123) @ expect_str 1 ''key2'' ''value2''"

definition LogMsgWithTwoDynamicOverlappingExtraFields :: "('a, BaseLogHandlerStandIn) test_step list" where
  "LogMsgWithTwoDynamicOverlappingExtraFields = [Call (CAdd standIn),
     Call (CLog Alert ''Some message''
       [(''key1'', AdditionalField_int (-4234324123)), (''key1'', AdditionalField_str ''value2'')]),
     Call CFlush, expect_fields 1] @ expect_str 0 ''key1'' ''value2''"

definition LogMsgWithOverlappingStatDynExtraFields :: "('a, BaseLogHandlerStandIn) test_step list" where
  "LogMsgWithOverlappingStatDynExtraFields = [Call (CAdd standIn),
     Call (CField ''key1'' (AdditionalField_str ''value2'')),
     Call (CLog Alert ''Some message'' [(''key1'', AdditionalField_int (-4234324123))]),
     Call CFlush, expect_fields 1] @ expect_int 0 ''key1'' (-4234324123)"

text \<open>\<open>host_name\<close> is the result of \<open>asio::ip::host_name\<close>, \<open>thr\<close> the thread of the test.\<close>

definition MachineInfoTest ::
  "'a platform \<Rightarrow> string \<Rightarrow> nat \<Rightarrow> ('a, BaseLogHandlerStandIn) test_step list" where
  "MachineInfoTest E host_name thr = [Call (CAdd standIn), Call (CLog Critical ''No message'' []), Call CFlush,
     Expect (\<lambda>log. Host (CurrentMessageOf log) = host_name),
     Expect (\<lambda>log. ThreadId (CurrentMessageOf log) = show_thread E thr),
     Expect (\<lambda>log. ProcessId (CurrentMessageOf log) = getpid E)]"

text \<open>The test's own reading of the clock, in nanoseconds, is the one after those of the logger.\<close>

definition TimestampTest :: "'a platform \<Rightarrow> ('a, BaseLogHandlerStandIn) test_step list" where
  "TimestampTest E = [Call (CAdd standIn), Call (CLog Critical ''No message'' []), Call CFlush,
     Expect (\<lambda>log. \<bar>clock E (Ticks log) - Timestamp (CurrentMessageOf log)\<bar> \<le> 100000000)]"

definition FmtLogMessage :: "'a \<Rightarrow> 'a \<Rightarrow> ('a, BaseLogHandlerStandIn) test_step list" where
  "FmtLogMessage forty_two hello = [Call (CAdd standIn),
     Call (CFmt Critical ''A test message {} - {}'' [forty_two, hello]), Call CFlush,
     Expect (\<lambda>log. MessageString (CurrentMessageOf log) = ''A test message 42 - hello'')]"

definition FmtLogMessageException :: "'a \<Rightarrow> 'a \<Rightarrow> ('a, BaseLogHandlerStandIn) test_step list" where
  "FmtLogMessageException forty_two hello = [Call (CAdd standIn),
     Call (CFmt Critical ''A test message {:s} - {}'' [forty_two, hello]), Call CFlush,
     Expect (\<lambda>log. sublist ''A test message {:s} - {}'' (MessageString (CurrentMessageOf log)))]"

text \<open>All tests but \<open>InitTest\<close>, which reads the handlers without a \<open>flush\<close>.\<close>

definition LoggingBaseTests ::
  "'a platform \<Rightarrow> string \<Rightarrow> nat \<Rightarrow> double \<Rightarrow> 'a \<Rightarrow> 'a \<Rightarrow> ('a, BaseLogHandlerStandIn) test_step list list" where
  "LoggingBaseTests E host_name thr dbl forty_two hello =
     [AddHandlerTest, ClearHandlersTest, LogSeveritiesTest, LogIntSeveritiesTest, LogMessageTest,
      SetExtraField dbl, LogMsgWithoutStaticExtraField, LogMsgWithStaticExtraField, LogMsgWithDynamicExtraField,
      LogMsgWithTwoDynamicExtraFields, LogMsgWithTwoDynamicOverlappingExtraFields,
      LogMsgWithOverlappingStatDynExtraFields, MachineInfoTest E host_name thr, TimestampTest E,
      FmtLogMessage forty_two hello, FmtLogMessageException forty_two hello]"

lemmas test_defs = AddHandlerTest_def ClearHandlersTest_def SetExtraField_def
  LogMsgWithoutStaticExtraField_def LogMsgWithStaticExtraField_def LogMsgWithDynamicExtraField_def
  LogMsgWithTwoDynamicExtraFields_def LogMsgWithTwoDynamicOverlappingExtraFields_def
  LogMsgWithOverlappingStatDynExtraFields_def MachineInfoTest_def TimestampTest_def FmtLogMessage_def
  FmtLogMessageException_def expect_fields_def expect_int_def expect_str_def

lemma tests_settled:
  "t \<in> set (LoggingBaseTests E host_name thr dbl forty_two hello) \<Longrightarrow> settled False t"
proof -
  have "settled False LogMessageTest"
    unfolding LogMessageTest_def
    by (rule settled_append, simp, rule settled_loop) (simp add: message_round_def Let_def)
  moreover have "settled False LogSeveritiesTest" "settled False LogIntSeveritiesTest"
    unfolding LogSeveritiesTest_def LogIntSeveritiesTest_def testSeverities_def by simp_all
  ultimately show "t \<in> set (LoggingBaseTests E host_name thr dbl forty_two hello) \<Longrightarrow> settled False t"
    by (auto simp: LoggingBaseTests_def test_defs)
qed

section \<open>The tests against the synchronous logger\<close>

lemma flush_stand_in:
  "flush_handlers stand_in_ops tid ps st = Inr (replicate (length ps) True, st)"
  by (induction ps arbitrary: tid) (simp_all add: stand_in_ops_def)

lemma sync_flush_stand_in:
  "sync_call E stand_in_ops thr k CFlush s =
     Inr (s\<lparr>Threads := Threads s + length (Handlers s),
       FlushValues := (FlushValues s)(k := Some (flush_value (replicate (length (Handlers s)) True))),
       Futures := (Futures s)(k := set_value (Futures s k))\<rparr>)"
  by (simp add: sync_call_def flush_stand_in)

lemma sync_log_stand_in:
  assumes "Handlers s = [standIn]" and "Level \<le> MinSeverity s"
  shows "sync_call E stand_in_ops thr k (CLog Level Message X) s =
    Inr (s\<lparr>Store := (Store s)(standIn := (Store s standIn)\<lparr>CurrentMessage := log_message E Level Message X thr s\<rparr>),
       Ticks := Suc (Ticks s)\<rparr>)"
  using assms by (simp add: sync_call_def add_to_handlers_def stand_in_ops_def)

lemma sync_fmt_stand_in:
  assumes "Handlers s = [standIn]" and "Level \<le> MinSeverity s"
  shows "sync_call E stand_in_ops thr k (CFmt Level Format args) s =
    Inr (s\<lparr>Store := (Store s)(standIn := (Store s standIn)\<lparr>CurrentMessage := fmt_message E Level Format args thr s\<rparr>),
       Ticks := Suc (Ticks s)\<rparr>)"
  using assms by (simp add: sync_call_def add_to_handlers_def stand_in_ops_def)

lemma sync_other:
  "sync_call E H thr k (CField Key Value) s = Inr (s\<lparr>BaseMsg := addField Key Value (BaseMsg s)\<rparr>)"
  "sync_call E H thr k (CAdd p) s = Inr (notify_check k (s\<lparr>Handlers := Handlers s @ [p]\<rparr>))"
  "sync_call E H thr k CClear s = Inr (notify_check k (s\<lparr>Handlers := []\<rparr>))"
  "sync_call E H thr k (CMin Level) s =
     Inr (s\<lparr>MinSeverity := Level, Futures := (Futures s)(k := drop_promise (Futures s k))\<rparr>)"
  by (simp_all add: sync_call_def)

lemmas sync_stand_in = sync_flush_stand_in sync_log_stand_in sync_fmt_stand_in sync_other

text \<open>What the loops of the tests keep.\<close>

definition registered :: "Severity \<Rightarrow> BaseLogHandlerStandIn logger \<Rightarrow> bool" where
  "registered m s \<longleftrightarrow> Handlers s = [standIn] \<and> MinSeverity s = m"

lemma log_flush_expect:
  assumes "registered m s" and "Level \<le> m"
    and "\<And>M. SeverityLevel M = Level \<Longrightarrow> MessageString M = Message \<Longrightarrow> P M"
  shows "\<exists>k' s'. sync_test E stand_in_ops thr k
      [Call (CLog Level Message []), Call CFlush, Expect (\<lambda>log. P (CurrentMessageOf log))] s = Some (k', s')
    \<and> registered m s'"
  using assms
  by (simp add: registered_def sync_stand_in CurrentMessageOf_def log_message_parts)

lemma base_fields:
  "AdditionalFields (init_base E LogMessage_default) = []"
  "ProcessId (init_base E LogMessage_default) = getpid E"
  "fst (hostname_call E) = 0 \<Longrightarrow> Host (init_base E LogMessage_default) = c_str (snd (hostname_call E))"
  by (cases "hostname_call E", simp add: init_base_def LogMessage_default_def Let_def)+

lemma severity_order:
  "Alert \<le> Notice" "Critical \<le> Notice"
  "sev \<in> set testSeverities \<Longrightarrow> sev \<le> Trace" "Severity (-7) \<le> Trace"
  by (auto simp: less_eq_Severity_def int_of_severity_def severity_defs testSeverities_def)

lemma message_round_sync:
  assumes "registered Notice s"
  shows "\<exists>k' s'. sync_test E stand_in_ops thr k (message_round i) s = Some (k', s') \<and> registered Notice s'"
  unfolding message_round_def Let_def
  by (rule log_flush_expect [OF assms severity_order(2), where P = "\<lambda>M. _ = MessageString M"]) simp

lemma LogMessageTest_sync:
  "sync_test E stand_in_ops thr k LogMessageTest (logger_init E st) \<noteq> None"
proof -
  obtain s where s: "sync_test E stand_in_ops thr k [Call (CAdd standIn)] (logger_init E st) = Some (Suc k, s)"
    "registered Notice s"
    by (simp add: sync_other registered_def logger_init_def logger_new_def notify_check_def)
  obtain r where "sync_test E stand_in_ops thr (Suc k) (concat (map message_round [0..<100])) s = Some r"
    using sync_test_loop [where I = "registered Notice" and f = message_round, OF message_round_sync s(2)] by blast
  then show ?thesis unfolding LogMessageTest_def sync_test_append s(1) by (simp del: upt_rec_numeral)
qed

lemma severities_loop:
  assumes "registered Trace s" and "\<And>sev. sev \<in> set testSeverities \<Longrightarrow> f sev = sev"
  shows "\<exists>k' s'. sync_test E stand_in_ops thr k
      (concat (map (\<lambda>sev. [Call (CLog (f sev) '''' []), Call CFlush,
        Expect (\<lambda>log. SeverityLevel (CurrentMessageOf log) = sev)]) testSeverities)) s = Some (k', s')
    \<and> registered Trace s'"
  by (rule sync_test_loop [where I = "registered Trace", OF _ assms(1)],
      rule log_flush_expect [where P = "\<lambda>M. SeverityLevel M = _"])
    (simp_all add: assms(2) severity_order)

lemma LogSeveritiesTest_sync:
  "sync_test E stand_in_ops thr k LogSeveritiesTest (logger_init E st) \<noteq> None"
proof -
  obtain k1 s where s: "sync_test E stand_in_ops thr k [Call (CMin Trace), Call (CAdd standIn), Call CFlush]
      (logger_init E st) = Some (k1, s)" "registered Trace s"
    by (simp add: sync_stand_in registered_def logger_init_def logger_new_def notify_check_def)
  from severities_loop [OF s(2), of "\<lambda>sev. sev" E thr k1] s(1) show ?thesis
    unfolding LogSeveritiesTest_def sync_test_append by auto
qed

lemma LogIntSeveritiesTest_sync:
  "sync_test E stand_in_ops thr k LogIntSeveritiesTest (logger_init E st) \<noteq> None"
proof -
  obtain k1 s where s: "sync_test E stand_in_ops thr k [Call (CMin Trace), Call (CAdd standIn)]
      (logger_init E st) = Some (k1, s)" "registered Trace s"
    by (simp add: sync_stand_in registered_def logger_init_def logger_new_def notify_check_def)
  have "Severity (word_of_int (int_of_severity sev)) = sev" for sev
    by (cases sev) (simp add: int_of_severity_def)
  with severities_loop [OF s(2), of "\<lambda>sev. Severity (word_of_int (int_of_severity sev))" E thr k1]
  obtain k2 s2 where s2: "sync_test E stand_in_ops thr k1
      (concat (map (\<lambda>sev. [Call (CLog (Severity (word_of_int (int_of_severity sev))) '''' []), Call CFlush,
        Expect (\<lambda>log. SeverityLevel (CurrentMessageOf log) = sev)]) testSeverities)) s = Some (k2, s2)"
    "registered Trace s2" by blast
  from log_flush_expect [OF s2(2) severity_order(4), of "''''" "\<lambda>M. SeverityLevel M = Severity (-7)" E thr k2]
  show ?thesis
    unfolding LogIntSeveritiesTest_def sync_test_append s(1) s2(1) option.case prod.case by auto
qed

text \<open>The remaining tests are evaluated; only the last three depend on the platform.\<close>

lemma short_tests_sync:
  "sync_test E stand_in_ops thr k AddHandlerTest (logger_init E st) \<noteq> None"
  "sync_test E stand_in_ops thr k ClearHandlersTest (logger_init E st) \<noteq> None"
  "sync_test E stand_in_ops thr k (SetExtraField dbl) (logger_init E st) \<noteq> None"
  by (simp_all add: test_defs sync_stand_in logger_init_def logger_new_def notify_check_def base_fields
      addField_def AdditionalField_dbl_def)

lemmas message_test_simps = test_defs sync_stand_in logger_init_def logger_new_def notify_check_def
  base_fields CurrentMessageOf_def log_message_parts severity_order addField_def
  AdditionalField_int_def AdditionalField_str_def to_size_t_def

lemma field_tests_sync:
  "sync_test E stand_in_ops thr k LogMsgWithoutStaticExtraField (logger_init E st) \<noteq> None"
  "sync_test E stand_in_ops thr k LogMsgWithStaticExtraField (logger_init E st) \<noteq> None"
  "sync_test E stand_in_ops thr k LogMsgWithDynamicExtraField (logger_init E st) \<noteq> None"
  "sync_test E stand_in_ops thr k LogMsgWithTwoDynamicExtraFields (logger_init E st) \<noteq> None"
  "sync_test E stand_in_ops thr k LogMsgWithTwoDynamicOverlappingExtraFields (logger_init E st) \<noteq> None"
  "sync_test E stand_in_ops thr k LogMsgWithOverlappingStatDynExtraFields (logger_init E st) \<noteq> None"
  by (simp_all add: message_test_simps)

lemma MachineInfoTest_sync:
  assumes "fst (hostname_call E) = 0" and "c_str (snd (hostname_call E)) = host_name"
  shows "sync_test E stand_in_ops thr k (MachineInfoTest E host_name thr) (logger_init E st) \<noteq> None"
  using assms by (simp add: message_test_simps)

lemma TimestampTest_sync:
  assumes "\<bar>clock E 1 - clock E 0\<bar> \<le> 100000000"
  shows "sync_test E stand_in_ops thr k (TimestampTest E) (logger_init E st) \<noteq> None"
  using assms by (simp add: message_test_simps)

lemma FmtLogMessage_sync:
  assumes "fmt E ''A test message {} - {}'' [forty_two, hello] = Inr ''A test message 42 - hello''"
  shows "sync_test E stand_in_ops thr k (FmtLogMessage forty_two hello) (logger_init E st) \<noteq> None"
  using assms by (simp add: message_test_simps fmt_message_def)

lemma format_failed_quotes: "sublist Format (format_failed Format what)"
proof -
  have "format_failed Format what =
      (''graylog-logger internal error. Unable to format the string '' @ [CHR 0x22]) @ Format @
      ([CHR 0x22] @ ''. The error was: '' @ [CHR 0x22] @ what @ [CHR 0x22] @ ''.'')"
    by (simp add: format_failed_def)
  then show ?thesis by (simp only: sublist_appendI)
qed

lemma FmtLogMessageException_sync:
  assumes "fmt E ''A test message {:s} - {}'' [forty_two, hello] = Inl what"
  shows "sync_test E stand_in_ops thr k (FmtLogMessageException forty_two hello) (logger_init E st) \<noteq> None"
  using assms
  by (simp add: message_test_simps fmt_message_def Let_def format_failed_quotes)

text \<open>\<open>InitTest\<close>: the closure of the constructor, run or not, registers no handler.\<close>

lemma InitTest_passes:
  assumes "queue_contract Q pend" and "pend q0 = (\<lambda>_. [])"
  shows "run_test Q E H thr 0 [(Expect (\<lambda>log. length (Handlers log) = 0), n)] (LoggingBase Q q0 st thr) = Passed"
proof -
  let ?b = "LoggingBase Q q0 st thr"
  have e: "pend (MessageQueue (ThreadedExecutor q0 (logger_new st))) = (\<lambda>_. [])(thr := map Work [])"
    using assms(2) by (simp add: ThreadedExecutor_def fun_upd_idem)
  note sent = send_pending [OF assms(1) e, of InitBase]
  have b: "target ?b = logger_new st" "RunThread ?b" "pend (MessageQueue ?b) = (\<lambda>_. [])(thr := map Work [InitBase])"
    using sent by (simp_all add: LoggingBase_def ThreadedExecutor_def)
  have "fold_result (run_base E H) [InitBase] (target ?b) = Inr (logger_init E st)"
    by (simp add: b(1) logger_init_def logger_new_def)
  from sim_run [OF assms(1) b(2,3) this] obtain us vs b' where
    b': "ThreadFunction Q (run_base E H) n ?b = Inr b'" "[InitBase] = us @ vs"
      "fold_result (run_base E H) us (target ?b) = Inr (target b')"
    by metis
  then have "Handlers (target b') = []"
    by (auto simp: b(1) logger_new_def Cons_eq_append_conv dest!: arg_cong [of _ _ Handlers])
  with b'(1) show ?thesis by simp
qed

section \<open>Property\<close>

text \<open>What the tests rely on outside the repository.\<close>

definition test_environment :: "'a platform \<Rightarrow> string \<Rightarrow> 'a \<Rightarrow> 'a \<Rightarrow> bool" where
  "test_environment E host_name forty_two hello \<longleftrightarrow>
     fst (hostname_call E) = 0 \<and> c_str (snd (hostname_call E)) = host_name \<and>
     \<bar>clock E 1 - clock E 0\<bar> \<le> 100000000 \<and>
     fmt E ''A test message {} - {}'' [forty_two, hello] = Inr ''A test message 42 - hello'' \<and>
     (case fmt E ''A test message {:s} - {}'' [forty_two, hello] of Inl what \<Rightarrow> True | Inr t \<Rightarrow> False)"

lemma tests_sync:
  assumes "test_environment E host_name forty_two hello"
    and "t \<in> set (LoggingBaseTests E host_name thr dbl forty_two hello)"
  shows "sync_test E stand_in_ops thr k t (logger_init E st) \<noteq> None"
proof -
  obtain what where what: "fmt E ''A test message {:s} - {}'' [forty_two, hello] = Inl what"
    using assms(1) by (auto simp: test_environment_def split: sum.splits)
  have env: "fst (hostname_call E) = 0" "c_str (snd (hostname_call E)) = host_name"
    "\<bar>clock E 1 - clock E 0\<bar> \<le> 100000000"
    "fmt E ''A test message {} - {}'' [forty_two, hello] = Inr ''A test message 42 - hello''"
    using assms(1) by (simp_all add: test_environment_def)
  from assms(2) show ?thesis
    unfolding LoggingBaseTests_def list.set insert_iff empty_iff
    by (elim disjE) (simp_all only: short_tests_sync field_tests_sync LogMessageTest_sync
      LogSeveritiesTest_sync LogIntSeveritiesTest_sync MachineInfoTest_sync [OF env(1,2)]
      TimestampTest_sync [OF env(3)] FmtLogMessage_sync [OF env(4)] FmtLogMessageException_sync [OF what]
      not_False_eq_True)
qed

text \<open>
  C10: the repository's tests of \<open>LoggingBase\<close> pass, whatever the threads do. With the documented
  behaviour of the queue, of the host name calls, of \<open>fmt\<close> and of the clock, no schedule of the
  worker makes an expectation fail or a test throw: each test passes or is still waiting in
  one of its calls; and for each of them there is a schedule in which every call returns.
\<close>

theorem logging_base_tests_pass:
  assumes "queue_contract Q pend" and "queue_live Q pend" and "pend q0 = (\<lambda>_. [])"
    and "test_environment E host_name forty_two hello"
    and "t \<in> set (InitTest # LoggingBaseTests E host_name thr dbl forty_two hello)"
  shows "(\<forall>ts. map fst ts = t \<longrightarrow>
        run_test Q E stand_in_ops thr 0 ts (LoggingBase Q q0 (\<lambda>_. BaseLogHandlerStandIn_new) thr) \<in> {Passed, Timed_out})
    \<and> (\<exists>ts. map fst ts = t \<and>
        run_test Q E stand_in_ops thr 0 ts (LoggingBase Q q0 (\<lambda>_. BaseLogHandlerStandIn_new) thr) = Passed)"
proof (cases "t = InitTest")
  case True
  note init = InitTest_passes [OF assms(1,3)]
  have "map fst ts = InitTest \<Longrightarrow> \<exists>n. ts = [(Expect (\<lambda>log. length (Handlers log) = 0), n)]"
    for ts :: "(('b, BaseLogHandlerStandIn) test_step \<times> nat) list"
    by (auto simp: InitTest_def)
  moreover have "map fst [(Expect (\<lambda>log. length (Handlers log) = 0), 0 :: nat)] = t" using True by (simp add: InitTest_def)
  ultimately show ?thesis using True init by blast
next
  case False
  let ?st = "\<lambda>_. BaseLogHandlerStandIn_new"
  have t: "t \<in> set (LoggingBaseTests E host_name thr dbl forty_two hello)" using assms(5) False by simp
  note sim = LoggingBase_sim [OF assms(1,3), of E stand_in_ops thr ?st]
  note sync = tests_sync [OF assms(4) t, of 0 ?st]
  have "\<forall>j \<ge> 0. Checks (logger_init E ?st) j = Semaphore" by (simp add: logger_init_def logger_new_def)
  from run_test_passes [OF assms(1,2) sim this sync] run_test_sync [OF assms(1) sim, of False] tests_settled [OF t] sync
  show ?thesis by auto
qed

text \<open>A platform on which the tests run; the argument 42 is the number, 0 the string.\<close>

definition unit_test_platform :: "nat platform" where
  "unit_test_platform = test_platform\<lparr>clock := (\<lambda>n. 1000 * int n),
     fmt := (\<lambda>f a. if f = ''A test message {} - {}'' then Inr ''A test message 42 - hello'' else Inl ''bad'')\<rparr>"

theorem logging_base_tests_pass_witness:
  "\<exists>ts. map fst ts = LogMessageTest \<and>
     run_test list_queue unit_test_platform stand_in_ops 1 0 ts
       (LoggingBase list_queue [] (\<lambda>_. BaseLogHandlerStandIn_new) 1) = Passed"
proof -
  have env: "test_environment unit_test_platform ''host'' 42 0"
    by (simp add: test_environment_def unit_test_platform_def test_platform_def c_str_def nul_def)
  have "list_pend [] = (\<lambda>_. [] :: nat base_work task list)" by (simp add: list_pend_def fun_eq_iff)
  moreover note env
  moreover have "LogMessageTest \<in> set (InitTest # LoggingBaseTests unit_test_platform ''host'' 1 0 42 0)"
    by (simp only: LoggingBaseTests_def list.set insert_iff simp_thms)
  ultimately show ?thesis
    by (rule logging_base_tests_pass [OF list_queue_contract list_queue_live, THEN conjunct2])
qed

end
