(* ===== verification/Handler_Test.thy ===== *)
theory Handler_Test
  imports Logging_Base_Test Console_Interface File_Interface Graylog_Connection
begin

text \<open>
  Tests of the handlers: \<open>LogMessageTest.cpp\<close>, the parts of \<open>BaseLogHandlerTest.cpp\<close>,
  \<open>ConsoleInterfaceTest.cpp\<close>, \<open>FileInterfaceTest.cpp\<close> and \<open>QueueLengthTest.cpp\<close> that check what
  is written, and the JSON tests of \<open>GraylogInterfaceTest.cpp\<close>. A test with a handler in a
  block of its own constructs it, calls it from one thread and destroys it, while the worker
  makes any progress; the expectations are checked after the destructor.
\<close>

section \<open>A handler in a block\<close>

fun send_works ::
  "('q, 'w task) queue_ops \<Rightarrow> ('w \<Rightarrow> 's \<Rightarrow> exn + 's) \<Rightarrow> nat \<Rightarrow> ('w \<times> nat) list \<Rightarrow> ('q, 's) executor
     \<Rightarrow> exn + ('q, 's) executor" where
  "send_works Q run thr [] ex = Inr ex"
| "send_works Q run thr ((w, n) # wns) ex =
     (case ThreadFunction Q run n (SendWork Q thr (Work w) ex) of
        Inl e \<Rightarrow> Inl e
      | Inr ex' \<Rightarrow> send_works Q run thr wns ex')"

text \<open>The worker gets \<open>m\<close> iterations done while the destructor waits for it.\<close>

definition block_test ::
  "('q, 'w task) queue_ops \<Rightarrow> ('w \<Rightarrow> 's \<Rightarrow> exn + 's) \<Rightarrow> nat \<Rightarrow> ('s \<Rightarrow> bool) \<Rightarrow> ('w \<times> nat) list \<Rightarrow> nat
     \<Rightarrow> ('q, 's) executor \<Rightarrow> outcome" where
  "block_test Q run thr expected wns m ex =
     (case send_works Q run thr wns ex of
        Inl e \<Rightarrow> Threw e
      | Inr ex' \<Rightarrow>
          (case ThreadFunction Q run m (destroy_send Q thr ex') of
             Inl e \<Rightarrow> Threw e
           | Inr ex'' \<Rightarrow>
               if RunThread ex'' then Timed_out
               else if expected (target ex'') then Passed else Failed))"

lemma send_works_run:
  assumes "queue_contract Q pend" and "RunThread ex"
    and "pend (MessageQueue ex) = (\<lambda>_. [])(p := map Work ws)"
    and "fold_result run (ws @ map fst wns) (target ex) = Inr s"
  shows "\<exists>vs ex'. send_works Q run p wns ex = Inr ex' \<and> RunThread ex'
    \<and> pend (MessageQueue ex') = (\<lambda>_. [])(p := map Work vs) \<and> fold_result run vs (target ex') = Inr s"
  using assms(2-4)
proof (induction wns arbitrary: ex ws)
  case (Cons wn wns)
  obtain w n where wn: "wn = (w, n)" by (cases wn)
  let ?ex = "SendWork Q p (Work w) ex"
  have "pend (MessageQueue ?ex) = (pend (MessageQueue ex))(p := pend (MessageQueue ex) p @ [Work w])"
    by (simp add: SendWork_def contract_enqueue [OF assms(1)])
  then have q: "pend (MessageQueue ?ex) = (\<lambda>_. [])(p := map Work (ws @ [w]))"
    unfolding Cons.prems(2) by simp
  have r: "RunThread ?ex" "target ?ex = target ex" using Cons.prems(1) by (simp_all add: SendWork_def)
  obtain s1 where s1: "fold_result run (ws @ [w]) (target ex) = Inr s1" "fold_result run (map fst wns) s1 = Inr s"
    using Cons.prems(3) wn by (auto simp: fold_result_append split: sum.splits)
  obtain k ex1 where ex1: "ThreadFunction Q run n ?ex = Inr ex1" "RunThread ex1"
    "fold_result run (take k (ws @ [w])) (target ex) = Inr (target ex1)"
    "pend (MessageQueue ex1) = (\<lambda>_. [])(p := map Work (drop k (ws @ [w])))"
    using single_producer_run [OF assms(1) r(1) q, of run s1 n] s1(1) r(2) by auto
  have "fold_result run (take k (ws @ [w]) @ drop k (ws @ [w]) @ map fst wns) (target ex) = Inr s"
    using s1 by (simp only: append_assoc [symmetric] append_take_drop_id fold_result_append sum.case)
  with ex1(3) have "fold_result run (drop k (ws @ [w]) @ map fst wns) (target ex1) = Inr s"
    by (simp only: fold_result_append [of run "take k _"] sum.case)
  from Cons.IH [OF ex1(2,4) this] ex1(1) wn show ?case by simp
qed auto

lemma destroyed_run:
  assumes "queue_contract Q pend" and "RunThread ex"
    and "pend (MessageQueue ex) = (\<lambda>_. [])(p := map Work ws @ [StopTask])"
    and "fold_result run ws (target ex) = Inr s"
  shows "\<exists>ex'. ThreadFunction Q run n ex = Inr ex' \<and> (\<not> RunThread ex' \<longrightarrow> target ex' = s)"
  using assms(2-4)
proof (induction n arbitrary: ex ws)
  case (Suc n)
  obtain r q where rq: "q_try_dequeue Q (MessageQueue ex) = (r, q)" by fastforce
  show ?case
  proof (cases r)
    case None
    with rq contract_none [OF assms(1)] Suc.IH [of "ex\<lparr>MessageQueue := q\<rparr>" ws] Suc.prems show ?thesis by simp
  next
    case (Some t)
    obtain p' ts where pt: "pend (MessageQueue ex) p' = t # ts" "pend q = (pend (MessageQueue ex))(p' := ts)"
      using contract_dequeue [OF assms(1)] rq Some by blast
    then have p: "p' = p" using Suc.prems(2) by (auto split: if_splits)
    show ?thesis
    proof (cases ws)
      case Nil
      with pt p Suc.prems rq Some show ?thesis by (simp add: ThreadFunction_stopped)
    next
      case (Cons w vs)
      then obtain s1 where s1: "run w (target ex) = Inr s1" "fold_result run vs s1 = Inr s"
        using Suc.prems(3) by (auto split: sum.splits)
      have "t = Work w" "pend q = (\<lambda>_. [])(p := map Work vs @ [StopTask])"
        using pt p Suc.prems(2) Cons by auto
      with Suc.IH [of "ex\<lparr>MessageQueue := q, target := s1\<rparr>" vs] Suc.prems(1) s1 rq Some
      show ?thesis by simp
    qed
  qed
qed auto

lemma block_test_passes:
  assumes "queue_contract Q pend" and "RunThread ex" and "pend (MessageQueue ex) = (\<lambda>_. [])"
    and "fold_result run ws (target ex) = Inr s" and "expected s"
  shows "map fst wns = ws \<Longrightarrow> block_test Q run p expected wns m ex \<in> {Passed, Timed_out}"
    and "queue_live Q pend \<Longrightarrow> map fst wns = ws \<Longrightarrow> \<exists>m. block_test Q run p expected wns m ex = Passed"
proof -
  have e: "pend (MessageQueue ex) = (\<lambda>_. [])(p := map Work [])" using assms(3) by (simp add: fun_upd_idem)
  have run: "\<exists>vs ex'. send_works Q run p wns ex = Inr ex' \<and> RunThread ex'
    \<and> pend (MessageQueue ex') = (\<lambda>_. [])(p := map Work vs) \<and> fold_result run vs (target ex') = Inr s"
    if "map fst wns = ws" for wns
    using send_works_run [OF assms(1,2) e, of run wns s] that assms(4) by simp
  show "block_test Q run p expected wns m ex \<in> {Passed, Timed_out}" if m: "map fst wns = ws"
  proof -
    obtain vs ex1 where ex1: "send_works Q run p wns ex = Inr ex1" "RunThread ex1"
      "pend (MessageQueue ex1) = (\<lambda>_. [])(p := map Work vs)" "fold_result run vs (target ex1) = Inr s"
      using run [OF m] by blast
    let ?d = "destroy_send Q p ex1"
    have "pend (MessageQueue ?d) = (pend (MessageQueue ex1))(p := pend (MessageQueue ex1) p @ [StopTask])"
      by (simp add: destroy_send_def SendWork_def contract_enqueue [OF assms(1)])
    then have "pend (MessageQueue ?d) = (\<lambda>_. [])(p := map Work vs @ [StopTask])" unfolding ex1(3) by simp
    moreover have "RunThread ?d" "target ?d = target ex1" using ex1(2) by (simp_all add: destroy_send_def SendWork_def)
    ultimately obtain ex2 where "ThreadFunction Q run m ?d = Inr ex2" "\<not> RunThread ex2 \<longrightarrow> target ex2 = s"
      using destroyed_run [OF assms(1), of ?d p vs run s m] ex1(4) by auto
    with ex1(1) assms(5) show ?thesis by (auto simp: block_test_def)
  qed
  show "\<exists>m. block_test Q run p expected wns m ex = Passed" if live: "queue_live Q pend" and m: "map fst wns = ws"
  proof -
    obtain vs ex1 where ex1: "send_works Q run p wns ex = Inr ex1" "RunThread ex1"
      "pend (MessageQueue ex1) = (\<lambda>_. [])(p := map Work vs)" "fold_result run vs (target ex1) = Inr s"
      using run [OF m] by blast
    obtain m ex2 where "ThreadFunction Q run m (destroy_send Q p ex1) = Inr ex2" "\<not> RunThread ex2" "target ex2 = s"
      using single_thread_destroyed [OF assms(1) live ex1(2,3), of run] ex1(4) by auto
    with ex1(1) assms(5) show ?thesis by (intro exI [of _ m]) (simp add: block_test_def)
  qed
qed

section \<open>Tests of log messages\<close>

text \<open>An access with \<open>at(0)\<close> that throws fails the test.\<close>

definition field_at :: "LogMessage \<Rightarrow> nat \<Rightarrow> (string \<times> AdditionalField \<Rightarrow> bool) \<Rightarrow> bool" where
  "field_at m n P = (case at_checked (AdditionalFields m) n of Inl e \<Rightarrow> False | Inr f \<Rightarrow> P f)"

definition AddDoubleExtraField :: "double \<Rightarrow> bool" where
  "AddDoubleExtraField someValue =
     (let testMsg = addField ''my_key'' (AdditionalField_dbl someValue) LogMessage_default in
      field_at testMsg 0 (\<lambda>f. fst f = ''my_key'') \<and> field_at testMsg 0 (\<lambda>f. dblVal (snd f) = someValue) \<and>
      field_at testMsg 0 (\<lambda>f. FieldType (snd f) = typeDbl) \<and> length (AdditionalFields testMsg) = 1)"

definition AddStringExtraField :: bool where
  "AddStringExtraField =
     (let testMsg = addField ''my_key'' (AdditionalField_str ''some_random_value_string'') LogMessage_default in
      field_at testMsg 0 (\<lambda>f. fst f = ''my_key'') \<and>
      field_at testMsg 0 (\<lambda>f. strVal (snd f) = ''some_random_value_string'') \<and>
      field_at testMsg 0 (\<lambda>f. FieldType (snd f) = typeStr) \<and> length (AdditionalFields testMsg) = 1)"

definition AddIntExtraField :: bool where
  "AddIntExtraField =
     (let testMsg = addField ''my_key'' (AdditionalField_int 9124432895) LogMessage_default in
      field_at testMsg 0 (\<lambda>f. fst f = ''my_key'') \<and> field_at testMsg 0 (\<lambda>f. intVal (snd f) = 9124432895) \<and>
      field_at testMsg 0 (\<lambda>f. FieldType (snd f) = typeInt) \<and> length (AdditionalFields testMsg) = 1)"

definition AddTwoKeys1 :: bool where
  "AddTwoKeys1 =
     (let testMsg = addField ''my_key'' (AdditionalField_int 9124432895)
        (addField ''my_key'' (AdditionalField_int 9124432895) LogMessage_default)
      in length (AdditionalFields testMsg) = 1)"

definition AddTwoKeys2 :: bool where
  "AddTwoKeys2 =
     (let testMsg = addField ''my_key'' (AdditionalField_int 9124432895) LogMessage_default;
          testMsg' = addField ''my_key'' (AdditionalField_str ''912'') testMsg
      in field_at testMsg 0 (\<lambda>f. FieldType (snd f) = typeInt) \<and>
         field_at testMsg 0 (\<lambda>f. intVal (snd f) = 9124432895) \<and>
         length (AdditionalFields testMsg') = 1 \<and>
         field_at testMsg' 0 (\<lambda>f. FieldType (snd f) = typeStr) \<and> field_at testMsg' 0 (\<lambda>f. strVal (snd f) = ''912''))"

lemma log_message_tests_pass:
  "AddDoubleExtraField someValue" "AddStringExtraField" "AddIntExtraField" "AddTwoKeys1" "AddTwoKeys2"
  by (simp_all add: AddDoubleExtraField_def AddStringExtraField_def AddIntExtraField_def AddTwoKeys1_def
      AddTwoKeys2_def field_at_def at_checked_def addField_def LogMessage_default_def AdditionalField_dbl_def
      AdditionalField_str_def AdditionalField_int_def to_size_t_def)

section \<open>Tests of the message text\<close>

definition testString :: string where
  "testString = ''Some test string''"

definition MyStringCreator :: parser where
  "MyStringCreator msg = Inr testString"

text \<open>\<open>now\<close> is the time of the test; the regular expression is the stamp and the literal text.\<close>

definition DefaultStringCreatorTest :: "(int \<Rightarrow> tm) \<Rightarrow> int \<Rightarrow> bool" where
  "DefaultStringCreatorTest localtime now =
     (let msg = LogMessage_default\<lparr>Timestamp := now, MessageString := testString, Host := ''Nohost'',
        SeverityLevel := Alert\<rparr> in
      case messageToString localtime (MessageParser BaseLogHandlerStandIn_new) msg of
        Inl e \<Rightarrow> False
      | Inr logString \<Rightarrow>
          matches (stamp_pattern @ map (\<lambda>x c. c = x) '' (Nohost) ALERT: Some test string'') logString)"

definition SetStringCreatorTest :: bool where
  "SetStringCreatorTest =
     (MessageParser BaseLogHandlerStandIn_new = None \<and>
      (case MessageParser (setMessageStringCreatorFunction (Some MyStringCreator) BaseLogHandlerStandIn_new) of
         None \<Rightarrow> False | Some f \<Rightarrow> True))"

definition NewStringCreatorTest :: "(int \<Rightarrow> tm) \<Rightarrow> bool" where
  "NewStringCreatorTest localtime =
     (case messageToString localtime
         (MessageParser (setMessageStringCreatorFunction (Some MyStringCreator) BaseLogHandlerStandIn_new))
         LogMessage_default of
        Inl e \<Rightarrow> False | Inr text \<Rightarrow> text = testString)"

lemma matches_literal: "matches (map (\<lambda>x c. c = x) s) s"
  by (simp add: matches_def list_all2_conv_all_nth)

lemma DefaultStringCreatorTest_passes:
  assumes "valid_tm (localtime (to_time_t now))" and "1000 \<le> tm_year (localtime (to_time_t now)) + 1900"
    and "tm_year (localtime (to_time_t now)) + 1900 \<le> 9999"
  shows "DefaultStringCreatorTest localtime now"
proof -
  let ?t = "localtime (to_time_t now)"
  have "severity_name Alert = Inr ''ALERT''"
    by (simp add: severity_name_def int_of_severity_def Alert_def at_checked_def sevToStr_def)
  moreover have "strftime_FT TimeBufferSize ?t = time_text ?t"
    using length_time_text [OF assms(1)] by (simp add: strftime_FT_def TimeBufferSize_def)
  moreover have "matches stamp_pattern (time_text ?t)"
    unfolding stamp_pattern_def time_text_def using assms
    by (intro matches_append matches_lit matches_pad2 matches_year) (auto simp: valid_tm_def)
  moreover have "'' ('' @ ''Nohost'' @ '') '' @ ''ALERT'' @ '': '' @ testString = '' (Nohost) ALERT: Some test string''"
    by (simp add: testString_def)
  ultimately show ?thesis
    using matches_append [OF _ matches_literal [of "'' (Nohost) ALERT: Some test string''"]]
    by (simp add: DefaultStringCreatorTest_def BaseLogHandlerStandIn_new_def messageToString_def
        default_format_def Let_def del: list.map)
qed

lemma string_creator_tests_pass: "SetStringCreatorTest" "NewStringCreatorTest localtime"
  by (simp_all add: SetStringCreatorTest_def NewStringCreatorTest_def setMessageStringCreatorFunction_def
      BaseLogHandlerStandIn_new_def messageToString_def MyStringCreator_def)

section \<open>Tests of the output\<close>

text \<open>
  Each test is the sequence of closures that its calls create and the expectation on the state
  that the destructor leaves. The counter that the parser of \<open>QueueLengthTest.cpp\<close> captures
  counts its calls; the parser returns the empty text, so the calls are the line ends.
\<close>

definition consoleTestString :: string where
  "consoleTestString = ''Some test string''"

definition ConsoleTestStringCreator :: parser where
  "ConsoleTestStringCreator msg = Inr consoleTestString"

definition ConsoleStringTest :: "console_work list \<times> (console_state \<Rightarrow> bool)" where
  "ConsoleStringTest = ([SetParser (Some ConsoleTestStringCreator), PrintMessage LogMessage_default],
     \<lambda>s. Stdout s = consoleTestString @ newline)"

definition ConsoleStringFunctionTest :: "console_work list \<times> (console_state \<Rightarrow> bool)" where
  "ConsoleStringFunctionTest =
     ([PrintMessage (LogMessage_default\<lparr>SeverityLevel := Alert, MessageString := consoleTestString\<rparr>)],
      \<lambda>s. ''ALERT: Some test string'' @ newline = Stdout s)"

definition GetLogMsg :: "int \<Rightarrow> LogMessage" where
  "GetLogMsg now = LogMessage_default\<lparr>Host := ''Some host'',
     MessageString := ''This is some multi line'' @ newline @ '' error message with '' @ [CHR 0x22] @ ''quotes'' @ [CHR 0x22] @ ''.'',
     ProcessId := 667, ProcessName := ''some_process_name'', SeverityLevel := Alert,
     ThreadId := ''0xff0011aacc'', Timestamp := now\<rparr>"

definition TestLimit :: nat where
  "TestLimit = 50"

definition counting_parser :: parser where
  "counting_parser Msg = Inr ''''"

definition QueueLength_ConsoleInterfaceTest :: "int \<Rightarrow> console_work list \<times> (console_state \<Rightarrow> bool)" where
  "QueueLength_ConsoleInterfaceTest now =
     (SetParser (Some counting_parser) # replicate TestLimit (PrintMessage (GetLogMsg now)),
      \<lambda>s. length (Stdout s) = TestLimit)"

definition usedFileName :: string where
  "usedFileName = ''testFileName.log''"

definition fileTestString :: string where
  "fileTestString = ''Some test string''"

definition FileTestStringCreator :: parser where
  "FileTestStringCreator msg = Inr fileTestString"

text \<open>
  \<open>SetUp\<close> deletes the file, so it is empty; \<open>getline\<close> reads up to the first line end, after the
  handler was destroyed and with it the stream.
\<close>

definition FileWriteMsgTest :: "disk \<Rightarrow> file_work list \<times> (file_state \<Rightarrow> bool)" where
  "FileWriteMsgTest disk = ([SetFileParser (Some FileTestStringCreator), WriteMessage LogMessage_default],
     \<lambda>s. takeWhile (\<lambda>c. c \<noteq> CHR 0x0A) (Content (close_stream disk s)) = fileTestString)"

text \<open>The file \<open>messages.log\<close> is not deleted before the test; \<open>old\<close> is what it holds.\<close>

definition QueueLength_FileInterfaceTest :: "disk \<Rightarrow> string \<Rightarrow> int \<Rightarrow> file_work list \<times> (file_state \<Rightarrow> bool)" where
  "QueueLength_FileInterfaceTest disk old now =
     (SetFileParser (Some counting_parser) # replicate TestLimit (WriteMessage (GetLogMsg now)),
      \<lambda>s. length (Content (close_stream disk s)) - length old = TestLimit)"

lemma console_replicate:
  assumes "MessageParser s = Some counting_parser"
  shows "fold_result run_console (replicate n (PrintMessage m)) s =
    Inr (s\<lparr>Stdout := Stdout s @ concat (replicate n newline)\<rparr>)"
  using assms
  by (induction n arbitrary: s) (simp_all add: counting_parser_def)

lemma file_replicate:
  assumes "MessageParser s = Some counting_parser" and "StreamGood s" and "StreamOpen s"
    and "reliable_disk disk"
  shows "\<exists>s'. fold_result (run_file localtime disk) (replicate n (WriteMessage m)) s = Inr s'
    \<and> StreamOpen s' \<and> stream_text s' = stream_text s @ concat (replicate n newline)"
  using assms
proof (induction n arbitrary: s)
  case (Suc n)
  let ?s = "stream_put disk newline s"
  have "run_file localtime disk (WriteMessage m) s = Inr ?s"
    using Suc.prems by (simp add: counting_parser_def messageToString_def)
  moreover note reliable_put [OF Suc.prems(4), of newline s]
  ultimately show ?case using Suc.IH [of ?s] Suc.prems by (simp del: run_file.simps)
qed simp

lemma length_newlines: "length (concat (replicate n newline)) = n"
  by (induction n) (simp_all add: newline_def)

definition console_init :: console_state where
  "console_init = target (ConsoleInterface ())"

lemma console_init_fields:
  "MessageParser console_init = Some ConsoleStringCreator" "Stdout console_init = ''''"
  "target (ConsoleInterface q0) = console_init"
  by (simp_all add: console_init_def ConsoleInterface_def ThreadedExecutor_def setMessageStringCreatorFunction_def)

lemma console_tests_run:
  assumes "t \<in> set [ConsoleStringTest, ConsoleStringFunctionTest, QueueLength_ConsoleInterfaceTest now]"
  shows "\<exists>s. fold_result run_console (fst t) console_init = Inr s \<and> snd t s"
proof -
  have "printable (LogMessage_default\<lparr>SeverityLevel := Alert, MessageString := consoleTestString\<rparr>)"
    by (simp add: printable_def known_severity_def int_of_severity_def Alert_def consoleTestString_def nul_def)
  from run_console_print [OF console_init_fields(1) this]
  have "\<exists>s. fold_result run_console (fst ConsoleStringFunctionTest) console_init = Inr s
      \<and> snd ConsoleStringFunctionTest s"
    by (simp add: ConsoleStringFunctionTest_def console_init_fields console_line_def sevToStr_def
        int_of_severity_def Alert_def consoleTestString_def del: run_console.simps)
  moreover have "\<exists>s. fold_result run_console (fst ConsoleStringTest) console_init = Inr s \<and> snd ConsoleStringTest s"
  proof -
    have "nul \<notin> set (consoleTestString @ newline)"
      by (simp add: consoleTestString_def newline_def nul_def)
    then show ?thesis
      by (simp add: ConsoleStringTest_def console_init_fields setMessageStringCreatorFunction_def
          ConsoleTestStringCreator_def)
  qed
  moreover have "\<exists>s. fold_result run_console (fst (QueueLength_ConsoleInterfaceTest now)) console_init = Inr s
      \<and> snd (QueueLength_ConsoleInterfaceTest now) s"
    by (simp add: QueueLength_ConsoleInterfaceTest_def setMessageStringCreatorFunction_def console_replicate
        console_init_fields length_newlines)
  ultimately show ?thesis using assms by auto
qed

definition file_init :: "string \<Rightarrow> file_state" where
  "file_init old = target (fst (FileInterface (Some old) () '''' 0))"

lemma file_init_fields:
  "target (fst (FileInterface (Some old) q0 Name n)) = file_init old"
  "stream_text (file_init old) = old" "StreamGood (file_init old)" "StreamOpen (file_init old)"
  by (simp_all add: file_init_def FileInterface_def ThreadedExecutor_def stream_text_def)

lemma file_tests_run:
  assumes "reliable_disk disk"
  shows "\<exists>s. fold_result (run_file localtime disk) (fst (FileWriteMsgTest disk)) (file_init '''') = Inr s
      \<and> snd (FileWriteMsgTest disk) s"
    and "\<exists>s. fold_result (run_file localtime disk) (fst (QueueLength_FileInterfaceTest disk old now)) (file_init old) = Inr s
      \<and> snd (QueueLength_FileInterfaceTest disk old now) s"
proof -
  have set_parser: "stream_text (s\<lparr>MessageParser := f\<rparr>) = stream_text s" for s f by (simp add: stream_text_def)
  let ?s = "(file_init '''')\<lparr>MessageParser := Some FileTestStringCreator\<rparr>"
  have "Content (close_stream disk (stream_put disk (fileTestString @ newline) ?s)) = fileTestString @ newline"
    using reliable_put [OF assms, of "fileTestString @ newline" ?s]
    by (simp add: reliable_close [OF assms] set_parser file_init_fields)
  then show "\<exists>s. fold_result (run_file localtime disk) (fst (FileWriteMsgTest disk)) (file_init '''') = Inr s
      \<and> snd (FileWriteMsgTest disk) s"
    by (simp add: FileWriteMsgTest_def setMessageStringCreatorFunction_def file_init_fields messageToString_def
        FileTestStringCreator_def fileTestString_def newline_def)
  let ?q = "(file_init old)\<lparr>MessageParser := Some counting_parser\<rparr>"
  obtain s where "fold_result (run_file localtime disk) (replicate TestLimit (WriteMessage (GetLogMsg now))) ?q = Inr s"
    "StreamOpen s" "stream_text s = old @ concat (replicate TestLimit newline)"
    using file_replicate [of ?q disk localtime TestLimit "GetLogMsg now"] assms
    by (auto simp: set_parser file_init_fields)
  then show "\<exists>s. fold_result (run_file localtime disk) (fst (QueueLength_FileInterfaceTest disk old now)) (file_init old) = Inr s
      \<and> snd (QueueLength_FileInterfaceTest disk old now) s"
    by (simp add: QueueLength_FileInterfaceTest_def setMessageStringCreatorFunction_def
        reliable_close [OF assms] length_newlines)
qed

section \<open>Tests of the GELF object\<close>

text \<open>
  \<open>parse\<close> is \<open>nlohmann::json::parse\<close>; \<open>near\<close> is the comparison of \<open>EXPECT_NEAR\<close> with the
  tolerance of the test. An access to a missing entry fails the test.
\<close>

definition TestJsonString ::
  "(string \<Rightarrow> json option) \<Rightarrow> (double \<Rightarrow> double \<Rightarrow> bool) \<Rightarrow> (int \<Rightarrow> double) \<Rightarrow> int \<Rightarrow> string \<Rightarrow> bool" where
  "TestJsonString parse near to_seconds now jsonMsg =
     (case parse jsonMsg of
        None \<Rightarrow> False
      | Some JsonObject \<Rightarrow>
          let compLog = GetLogMsg now in
          JsonObject ''short_message'' = Some (JString (MessageString compLog)) \<and>
          (case JsonObject ''timestamp'' of
             Some (JDouble tempDouble) \<Rightarrow> near tempDouble (to_seconds (milliseconds (Timestamp compLog)))
           | _ \<Rightarrow> False) \<and>
          JsonObject ''host'' = Some (JString (Host compLog)) \<and>
          JsonObject ''_process_id'' = Some (JInt (sint (ProcessId compLog))) \<and>
          JsonObject ''_process'' = Some (JString (ProcessName compLog)) \<and>
          JsonObject ''level'' = Some (JInt (int_of_severity (SeverityLevel compLog))) \<and>
          JsonObject ''_thread_id'' = Some (JString (ThreadId compLog)))"

text \<open>\<open>sendMessage\<close> is a mock that runs \<open>TestJsonString\<close> on what \<open>addMessage\<close> passes it.\<close>

definition MessageJSONContentTest ::
  "(json \<Rightarrow> exn + string) \<Rightarrow> (string \<Rightarrow> json option) \<Rightarrow> (double \<Rightarrow> double \<Rightarrow> bool) \<Rightarrow> (int \<Rightarrow> double)
     \<Rightarrow> int \<Rightarrow> int \<Rightarrow> bool" where
  "MessageJSONContentTest dump parse near to_seconds now later =
     (case logMsgToJSON dump to_seconds (GetLogMsg now) of
        Inl e \<Rightarrow> False
      | Inr jsonMsg \<Rightarrow> TestJsonString parse near to_seconds later jsonMsg)"

text \<open>The matcher \<open>IsJSON\<close> of the mock: the text can be parsed.\<close>

definition IsJSON :: "(string \<Rightarrow> json option) \<Rightarrow> string \<Rightarrow> bool" where
  "IsJSON parse arg = (case parse arg of None \<Rightarrow> False | Some Res \<Rightarrow> True)"

definition MessageJSONTest ::
  "(json \<Rightarrow> exn + string) \<Rightarrow> (string \<Rightarrow> json option) \<Rightarrow> (int \<Rightarrow> double) \<Rightarrow> int \<Rightarrow> bool" where
  "MessageJSONTest dump parse to_seconds now =
     (case logMsgToJSON dump to_seconds (GetLogMsg now) of Inl e \<Rightarrow> False | Inr jsonMsg \<Rightarrow> IsJSON parse jsonMsg)"

definition TestAdditionalField ::
  "(json \<Rightarrow> exn + string) \<Rightarrow> (string \<Rightarrow> json option) \<Rightarrow> (int \<Rightarrow> double) \<Rightarrow> int \<Rightarrow> AdditionalField \<Rightarrow> jval \<Rightarrow> bool" where
  "TestAdditionalField dump parse to_seconds now field expected =
     (case logMsgToJSON dump to_seconds (addField ''yet_another_key'' field (GetLogMsg now)) of
        Inl e \<Rightarrow> False
      | Inr jsonStr \<Rightarrow>
          (case parse jsonStr of
             None \<Rightarrow> False
           | Some JsonObject \<Rightarrow> JsonObject (under ''yet_another_key'') = Some expected))"

definition TestAdditionalFieldString ::
  "(json \<Rightarrow> exn + string) \<Rightarrow> (string \<Rightarrow> json option) \<Rightarrow> (int \<Rightarrow> double) \<Rightarrow> int \<Rightarrow> bool" where
  "TestAdditionalFieldString dump parse to_seconds now =
     TestAdditionalField dump parse to_seconds now (AdditionalField_str ''yet another value'')
       (JString ''yet another value'')"

definition TestAdditionalFieldInt ::
  "(json \<Rightarrow> exn + string) \<Rightarrow> (string \<Rightarrow> json option) \<Rightarrow> (int \<Rightarrow> double) \<Rightarrow> int \<Rightarrow> bool" where
  "TestAdditionalFieldInt dump parse to_seconds now =
     TestAdditionalField dump parse to_seconds now (AdditionalField_int (-12431454)) (JInt (-12431454))"

definition TestAdditionalFieldDouble ::
  "(json \<Rightarrow> exn + string) \<Rightarrow> (string \<Rightarrow> json option) \<Rightarrow> (int \<Rightarrow> double) \<Rightarrow> int \<Rightarrow> double \<Rightarrow> bool" where
  "TestAdditionalFieldDouble dump parse to_seconds now dbl =
     TestAdditionalField dump parse to_seconds now (AdditionalField_dbl dbl) (JDouble dbl)"

lemma GetLogMsg_object:
  "logMsgObject to_seconds (GetLogMsg now) = standard_object to_seconds (GetLogMsg now)"
  by (simp add: logMsgObject_def GetLogMsg_def LogMessage_default_def)

lemma json_content_test_passes:
  assumes "dump (logMsgObject to_seconds (GetLogMsg now)) = Inr txt"
    and "parse txt = Some (logMsgObject to_seconds (GetLogMsg now))"
    and "near (to_seconds (milliseconds now)) (to_seconds (milliseconds later))"
  shows "MessageJSONContentTest dump parse near to_seconds now later"
proof -
  have "MessageString (GetLogMsg now) = MessageString (GetLogMsg later)" "Host (GetLogMsg now) = Host (GetLogMsg later)"
    "ProcessId (GetLogMsg now) = ProcessId (GetLogMsg later)" "ProcessName (GetLogMsg now) = ProcessName (GetLogMsg later)"
    "SeverityLevel (GetLogMsg now) = SeverityLevel (GetLogMsg later)" "ThreadId (GetLogMsg now) = ThreadId (GetLogMsg later)"
    "Timestamp (GetLogMsg now) = now" "Timestamp (GetLogMsg later) = later"
    by (simp_all add: GetLogMsg_def)
  with assms show ?thesis
    by (simp add: MessageJSONContentTest_def TestJsonString_def logMsgToJSON_def GetLogMsg_object
        standard_object_def)
qed

lemma additional_field_test_passes:
  assumes "dump (logMsgObject to_seconds (addField ''yet_another_key'' field (GetLogMsg now))) = Inr txt"
    and "parse txt = Some (logMsgObject to_seconds (addField ''yet_another_key'' field (GetLogMsg now)))"
  shows "TestAdditionalField dump parse to_seconds now field (field_value field)"
proof -
  have "AdditionalFields (addField ''yet_another_key'' field (GetLogMsg now)) = [(''yet_another_key'', field)]"
    by (simp add: addField_def GetLogMsg_def LogMessage_default_def)
  with assms show ?thesis
    by (simp add: TestAdditionalField_def logMsgToJSON_def logMsgObject_def set_field_def)
qed

text \<open>
  The messages of these tests, and a serialisation that can be read back makes the tests pass.
\<close>

definition json_test_messages :: "int \<Rightarrow> double \<Rightarrow> LogMessage list" where
  "json_test_messages now dbl = GetLogMsg now #
     map (\<lambda>field. addField ''yet_another_key'' field (GetLogMsg now))
       [AdditionalField_str ''yet another value'', AdditionalField_int (-12431454), AdditionalField_dbl dbl]"

lemma gelf_tests_pass:
  assumes "\<And>m. m \<in> set (json_test_messages now dbl) \<Longrightarrow>
      \<exists>txt. dump (logMsgObject to_seconds m) = Inr txt \<and> parse txt = Some (logMsgObject to_seconds m)"
    and "near (to_seconds (milliseconds now)) (to_seconds (milliseconds later))"
  shows "MessageJSONContentTest dump parse near to_seconds now later"
    and "MessageJSONTest dump parse to_seconds now"
    and "TestAdditionalFieldString dump parse to_seconds now"
    and "TestAdditionalFieldInt dump parse to_seconds now"
    and "TestAdditionalFieldDouble dump parse to_seconds now dbl"
proof -
  show "MessageJSONContentTest dump parse near to_seconds now later"
    using assms(1) [of "GetLogMsg now"] assms(2)
    by (auto simp: json_test_messages_def intro: json_content_test_passes)
  show "MessageJSONTest dump parse to_seconds now"
    using assms(1) [of "GetLogMsg now"]
    by (auto simp: json_test_messages_def MessageJSONTest_def IsJSON_def logMsgToJSON_def)
  have "TestAdditionalField dump parse to_seconds now field (field_value field)"
    if "addField ''yet_another_key'' field (GetLogMsg now) \<in> set (json_test_messages now dbl)" for field
    using assms(1) [OF that] by (auto intro: additional_field_test_passes)
  from this [of "AdditionalField_str ''yet another value''"] this [of "AdditionalField_int (-12431454)"]
    this [of "AdditionalField_dbl dbl"]
  show "TestAdditionalFieldString dump parse to_seconds now" "TestAdditionalFieldInt dump parse to_seconds now"
    "TestAdditionalFieldDouble dump parse to_seconds now dbl"
    by (simp_all add: TestAdditionalFieldString_def TestAdditionalFieldInt_def TestAdditionalFieldDouble_def
        field_value_def AdditionalField_str_def AdditionalField_int_def AdditionalField_dbl_def
        json_test_messages_def)
qed

section \<open>Tests of flush\<close>

text \<open>\<open>budget\<close>: the iterations of the worker within the 50 ms that the tests wait.\<close>

definition Console_FlushSuccess :: "'q console_queue \<Rightarrow> 'q \<Rightarrow> nat \<Rightarrow> nat \<Rightarrow> bool" where
  "Console_FlushSuccess Q q0 thr budget =
     (case console_flush Q thr 0 budget (ConsoleInterface q0) of Inl e \<Rightarrow> False | Inr (r, h) \<Rightarrow> r)"

definition File_FlushSuccess ::
  "(int \<Rightarrow> tm) \<Rightarrow> disk \<Rightarrow> 'q file_queue \<Rightarrow> 'q \<Rightarrow> nat \<Rightarrow> nat \<Rightarrow> bool" where
  "File_FlushSuccess localtime disk Q q0 thr budget =
     (case file_flush localtime disk Q thr 0 budget (fst (FileInterface (Some '''') q0 usedFileName 100)) of
        Inl e \<Rightarrow> False | Inr (r, h) \<Rightarrow> r)"

text \<open>Some number of iterations is enough, so the tests fail only when the worker is too slow.\<close>

lemma flush_tests_pass:
  assumes "queue_contract Q pend" and "queue_live Q pend" and "pend q0 = (\<lambda>_. [])"
    and "queue_contract QF pendF" and "queue_live QF pendF" and "pendF f0 = (\<lambda>_. [])"
  shows "\<exists>n. Console_FlushSuccess Q q0 thr n" and "\<exists>n. File_FlushSuccess localtime disk QF f0 thr n"
proof -
  let ?c = "SendWork Q thr (Work (FlushCout 0)) (ConsoleInterface q0)"
  have "RunThread ?c" "pend (MessageQueue ?c) = (\<lambda>_. [])(thr := map Work [FlushCout 0])"
    using assms(3) by (simp_all add: SendWork_def ConsoleInterface_def ThreadedExecutor_def contract_enqueue [OF assms(1)])
  moreover have "\<exists>s. fold_result run_console [FlushCout 0] (target ?c) = Inr s \<and> 0 \<in> set (Fulfilled s)" by simp
  ultimately obtain n ex where "ThreadFunction Q run_console n ?c = Inr ex" "0 \<in> set (Fulfilled (target ex))"
    using single_producer_drains [OF assms(1,2)] by metis
  then show "\<exists>n. Console_FlushSuccess Q q0 thr n"
    by (intro exI [of _ n]) (simp add: Console_FlushSuccess_def console_flush_def)
  let ?h = "fst (FileInterface (Some '''') f0 usedFileName 100)"
  let ?f = "SendWork QF thr (Work (FlushFile 0)) ?h"
  have "RunThread ?f" "pendF (MessageQueue ?f) = (\<lambda>_. [])(thr := map Work [FlushFile 0])"
    using assms(6) by (simp_all add: SendWork_def FileInterface_def ThreadedExecutor_def contract_enqueue [OF assms(4)])
  moreover have "\<exists>s. fold_result (run_file localtime disk) [FlushFile 0] (target ?f) = Inr s \<and> 0 \<in> set (FileFulfilled s)"
    by (simp add: Let_def)
  ultimately obtain m ex' where "ThreadFunction QF (run_file localtime disk) m ?f = Inr ex'" "0 \<in> set (FileFulfilled (target ex'))"
    using single_producer_drains [OF assms(4,5)] by metis
  then show "\<exists>n. File_FlushSuccess localtime disk QF f0 thr n"
    by (intro exI [of _ m]) (simp add: File_FlushSuccess_def file_flush_def)
qed

section \<open>The tests pass\<close>

text \<open>
  A test passes if, whatever the worker does between and after the calls, it does not fail
  and its destructor returns when the worker gets enough done.
\<close>

definition passes ::
  "('q, 'w task) queue_ops \<Rightarrow> ('w \<Rightarrow> 's \<Rightarrow> exn + 's) \<Rightarrow> nat \<Rightarrow> 'w list \<times> ('s \<Rightarrow> bool) \<Rightarrow> ('q, 's) executor \<Rightarrow> bool" where
  "passes Q run thr test ex \<longleftrightarrow>
     (\<forall>wns. map fst wns = fst test \<longrightarrow>
        (\<forall>m. block_test Q run thr (snd test) wns m ex \<in> {Passed, Timed_out}) \<and>
        (\<exists>m. block_test Q run thr (snd test) wns m ex = Passed))"

lemma passes_if_runs:
  assumes "queue_contract Q pend" and "queue_live Q pend" and "RunThread ex" and "pend (MessageQueue ex) = (\<lambda>_. [])"
    and "\<exists>s. fold_result run (fst t) (target ex) = Inr s \<and> snd t s"
  shows "passes Q run thr t ex"
proof -
  obtain s where "fold_result run (fst t) (target ex) = Inr s" "snd t s" using assms(5) by blast
  note block = block_test_passes [where expected = "snd t" and p = thr, OF assms(1,3,4) this]
  from block(1) block(2) [OF assms(2)] show ?thesis unfolding passes_def by blast
qed

text \<open>
  The repository's tests of what the console and the file handler write pass under every
  schedule. For the file, every write succeeds; \<open>old\<close> is what \<open>messages.log\<close> held before.
\<close>

theorem output_tests_pass:
  assumes "queue_contract Q pend" and "queue_live Q pend" and "pend q0 = (\<lambda>_. [])"
    and "queue_contract QF pendF" and "queue_live QF pendF" and "pendF f0 = (\<lambda>_. [])"
    and "reliable_disk disk"
  shows "(\<forall>t \<in> set [ConsoleStringTest, ConsoleStringFunctionTest, QueueLength_ConsoleInterfaceTest now].
        passes Q run_console thr t (ConsoleInterface q0))
    \<and> passes QF (run_file localtime disk) thr (FileWriteMsgTest disk) (fst (FileInterface (Some '''') f0 usedFileName 100))
    \<and> passes QF (run_file localtime disk) thr (QueueLength_FileInterfaceTest disk old now)
        (fst (FileInterface (Some old) f0 ''messages.log'' 50))"
proof -
  have "RunThread (ConsoleInterface q0)" "pend (MessageQueue (ConsoleInterface q0)) = (\<lambda>_. [])"
    using assms(3) by (simp_all add: ConsoleInterface_def ThreadedExecutor_def)
  note console = passes_if_runs [OF assms(1,2) this, unfolded console_init_fields]
  have "RunThread (fst (FileInterface (Some c) f0 Name n))"
    "pendF (MessageQueue (fst (FileInterface (Some c) f0 Name n))) = (\<lambda>_. [])" for c Name n
    using assms(6) by (simp_all add: FileInterface_def ThreadedExecutor_def)
  note file_passes = passes_if_runs [OF assms(4,5) this, unfolded file_init_fields]
  show ?thesis
    using console [OF console_tests_run] file_passes [OF file_tests_run(1)] file_passes [OF file_tests_run(2)] assms(7)
    by blast
qed

section \<open>Property\<close>

text \<open>
  Everything logged to a console handler appears on standard output. A handler is
  constructed, one thread adds messages (severities 0 to 8, no NUL character) and destroys it;
  the worker may get any number of iterations done after each call. Nothing is thrown; the
  destructor returns when the worker gets enough done, and then standard output holds
  exactly one line per message, in order.
\<close>

theorem console_prints_under_every_schedule:
  assumes "queue_contract Q pend" and "queue_live Q pend" and "pend q0 = (\<lambda>_. [])"
    and "\<forall>m \<in> set ms. printable m"
  shows "passes Q run_console thr (map PrintMessage ms, \<lambda>s. Stdout s = concat (map console_line ms))
    (ConsoleInterface q0)"
proof (rule passes_if_runs [OF assms(1,2)])
  show "RunThread (ConsoleInterface q0)" "pend (MessageQueue (ConsoleInterface q0)) = (\<lambda>_. [])"
    using assms(3) by (simp_all add: ConsoleInterface_def ThreadedExecutor_def)
  from run_console_prints [OF console_init_fields(1) assms(4)]
  show "\<exists>s. fold_result run_console (fst (map PrintMessage ms, \<lambda>s. Stdout s = concat (map console_line ms)))
      (target (ConsoleInterface q0)) = Inr s
    \<and> snd (map PrintMessage ms, \<lambda>s. Stdout s = concat (map console_line ms)) s"
    by (simp add: console_init_fields)
qed

theorem console_prints_under_every_schedule_witness:
  "\<exists>m. block_test list_queue run_console 1 (\<lambda>s. Stdout s = console_line LogMessage_default)
     [(PrintMessage LogMessage_default, 1)] m (ConsoleInterface []) = Passed"
proof -
  have "list_pend [] = (\<lambda>_. [] :: console_work task list)" by (simp add: list_pend_def fun_eq_iff)
  moreover have "\<forall>m \<in> set [LogMessage_default]. printable m"
    by (simp add: printable_def known_severity_def int_of_severity_def LogMessage_default_def Debug_def)
  ultimately have "passes list_queue run_console 1
      (map PrintMessage [LogMessage_default], \<lambda>s. Stdout s = concat (map console_line [LogMessage_default]))
      (ConsoleInterface [])"
    by (rule console_prints_under_every_schedule [OF list_queue_contract list_queue_live])
  then show ?thesis by (simp add: passes_def del: ConsoleInterface_def)
qed

end
