(* ===== verification/Blocking_Test.thy ===== *)
theory Blocking_Test
  imports Handler_Test
begin

text \<open>
  The tests of \<open>ConsoleInterfaceTest.cpp\<close> and \<open>FileInterfaceTest.cpp\<close> that stop the worker
  inside a closure, read the length of the queue, or wait on semaphores. Here a closure of the
  test is a program of its own whose steps interleave with those of the test thread; the
  closures of the handlers run in one step. A bounded search over an abstraction in which the
  queue is the list of its items decides such a test for every interleaving.
\<close>

section \<open>Programs of the test thread and of its closures\<close>

datatype closure_op = NotifyOp nat | WaitOp nat

datatype 'w item = Handler 'w | Closure "closure_op list"

datatype ('w, 's) test_op =
    TSend "'w item"
  | TSendIf "'s \<Rightarrow> bool" "'w item"
  | TNotify nat
  | TWait nat
  | TAwait "'s \<Rightarrow> bool"
  | TWaitFor "'s \<Rightarrow> bool" bool
  | TExpect "'s \<Rightarrow> bool"
  | TExpectSize "nat \<Rightarrow> bool"
  | TDestroy
  | TJoin

text \<open>
  \<open>Script\<close> is what the test thread has yet to do, \<open>Cur\<close> the rest of the closure the worker is
  in, \<open>Sems\<close> the semaphores of the test, \<open>Ok\<close> whether all expectations held and nothing was
  thrown.
\<close>

record ('q, 'w, 's) blocking =
  Script :: "('w, 's) test_op list"
  Cur :: "closure_op list"
  Sems :: "semaphore list"
  Exec :: "('q, 's) executor"
  Ok :: bool

definition post :: "nat \<Rightarrow> semaphore list \<Rightarrow> semaphore list" where
  "post i ss = ss[i := notify_token (ss ! i)]"

definition claim :: "nat \<Rightarrow> semaphore list \<Rightarrow> semaphore list option" where
  "claim i ss = (case wait_token (ss ! i) of None \<Rightarrow> None | Some c \<Rightarrow> Some (ss[i := c]))"

text \<open>
  Steps of the test thread (number \<open>thr\<close>). \<open>wait_for\<close> may time out at any moment and reports
  success only if the promise is set. \<open>size_approx\<close> is exact while the worker is inside a
  closure; while it polls, the estimate may miss items that are being taken.
\<close>

inductive test_thread ::
  "('q, 'w item task) queue_ops \<Rightarrow> nat \<Rightarrow> ('q, 'w, 's) blocking \<Rightarrow> ('q, 'w, 's) blocking \<Rightarrow> bool"
  for Q thr where
  send: "Script c = TSend i # ts \<Longrightarrow>
    test_thread Q thr c (c\<lparr>Script := ts, Exec := SendWork Q thr (Work i) (Exec c)\<rparr>)"
| send_if: "Script c = TSendIf P i # ts \<Longrightarrow>
    test_thread Q thr c (c\<lparr>Script := ts,
      Exec := if P (target (Exec c)) then SendWork Q thr (Work i) (Exec c) else Exec c\<rparr>)"
| t_notify: "Script c = TNotify i # ts \<Longrightarrow> test_thread Q thr c (c\<lparr>Script := ts, Sems := post i (Sems c)\<rparr>)"
| t_wait: "Script c = TWait i # ts \<Longrightarrow> claim i (Sems c) = Some ss \<Longrightarrow>
    test_thread Q thr c (c\<lparr>Script := ts, Sems := ss\<rparr>)"
| t_await: "Script c = TAwait P # ts \<Longrightarrow> P (target (Exec c)) \<Longrightarrow> test_thread Q thr c (c\<lparr>Script := ts\<rparr>)"
| wait_ready: "Script c = TWaitFor P r # ts \<Longrightarrow> P (target (Exec c)) \<Longrightarrow>
    test_thread Q thr c (c\<lparr>Script := ts, Ok := (Ok c \<and> r)\<rparr>)"
| wait_timeout: "Script c = TWaitFor P r # ts \<Longrightarrow>
    test_thread Q thr c (c\<lparr>Script := ts, Ok := (Ok c \<and> \<not> r)\<rparr>)"
| expect: "Script c = TExpect P # ts \<Longrightarrow>
    test_thread Q thr c (c\<lparr>Script := ts, Ok := (Ok c \<and> P (target (Exec c)))\<rparr>)"
| expect_size: "Script c = TExpectSize P # ts \<Longrightarrow> n \<le> size_approx Q (Exec c) \<Longrightarrow>
    Cur c \<noteq> [] \<longrightarrow> n = size_approx Q (Exec c) \<Longrightarrow>
    test_thread Q thr c (c\<lparr>Script := ts, Ok := (Ok c \<and> P n)\<rparr>)"
| destroy: "Script c = TDestroy # ts \<Longrightarrow>
    test_thread Q thr c (c\<lparr>Script := ts, Exec := destroy_send Q thr (Exec c)\<rparr>)"
| join: "Script c = TJoin # ts \<Longrightarrow> \<not> RunThread (Exec c) \<Longrightarrow> test_thread Q thr c (c\<lparr>Script := ts\<rparr>)"

text \<open>Steps of the worker: the loop of \<open>ThreadFunction\<close> and the steps inside a closure.\<close>

inductive test_worker ::
  "('q, 'w item task) queue_ops \<Rightarrow> ('w \<Rightarrow> 's \<Rightarrow> exn + 's) \<Rightarrow> ('q, 'w, 's) blocking
     \<Rightarrow> ('q, 'w, 's) blocking \<Rightarrow> bool" for Q run where
  poll: "Cur c = [] \<Longrightarrow> RunThread (Exec c) \<Longrightarrow> q_try_dequeue Q (MessageQueue (Exec c)) = (None, q) \<Longrightarrow>
    test_worker Q run c (c\<lparr>Exec := (Exec c)\<lparr>MessageQueue := q\<rparr>\<rparr>)"
| stop: "Cur c = [] \<Longrightarrow> RunThread (Exec c) \<Longrightarrow>
    q_try_dequeue Q (MessageQueue (Exec c)) = (Some StopTask, q) \<Longrightarrow>
    test_worker Q run c (c\<lparr>Exec := (Exec c)\<lparr>MessageQueue := q, RunThread := False\<rparr>\<rparr>)"
| begin_closure: "Cur c = [] \<Longrightarrow> RunThread (Exec c) \<Longrightarrow>
    q_try_dequeue Q (MessageQueue (Exec c)) = (Some (Work (Closure ops)), q) \<Longrightarrow>
    test_worker Q run c (c\<lparr>Cur := ops, Exec := (Exec c)\<lparr>MessageQueue := q\<rparr>\<rparr>)"
| run_handler: "Cur c = [] \<Longrightarrow> RunThread (Exec c) \<Longrightarrow>
    q_try_dequeue Q (MessageQueue (Exec c)) = (Some (Work (Handler w)), q) \<Longrightarrow>
    run w (target (Exec c)) = Inr s \<Longrightarrow>
    test_worker Q run c (c\<lparr>Exec := (Exec c)\<lparr>MessageQueue := q, target := s\<rparr>\<rparr>)"
| handler_throws: "Cur c = [] \<Longrightarrow> RunThread (Exec c) \<Longrightarrow>
    q_try_dequeue Q (MessageQueue (Exec c)) = (Some (Work (Handler w)), q) \<Longrightarrow>
    run w (target (Exec c)) = Inl e \<Longrightarrow>
    test_worker Q run c (c\<lparr>Exec := (Exec c)\<lparr>MessageQueue := q, RunThread := False\<rparr>, Ok := False\<rparr>)"
| w_notify: "Cur c = NotifyOp i # ops \<Longrightarrow> test_worker Q run c (c\<lparr>Cur := ops, Sems := post i (Sems c)\<rparr>)"
| w_wait: "Cur c = WaitOp i # ops \<Longrightarrow> claim i (Sems c) = Some ss \<Longrightarrow>
    test_worker Q run c (c\<lparr>Cur := ops, Sems := ss\<rparr>)"

definition blocking_step ::
  "('q, 'w item task) queue_ops \<Rightarrow> ('w \<Rightarrow> 's \<Rightarrow> exn + 's) \<Rightarrow> nat \<Rightarrow> ('q, 'w, 's) blocking
     \<Rightarrow> ('q, 'w, 's) blocking \<Rightarrow> bool" where
  "blocking_step Q run thr c c' \<longleftrightarrow> test_thread Q thr c c' \<or> test_worker Q run c c'"

definition blocking_start ::
  "('w, 's) test_op list \<Rightarrow> nat \<Rightarrow> ('q, 's) executor \<Rightarrow> ('q, 'w, 's) blocking" where
  "blocking_start ts n ex =
     \<lparr>Script = ts, Cur = [], Sems = replicate n Semaphore, Exec = ex, Ok = True\<rparr>"

definition finished :: "('q, 'w, 's) blocking \<Rightarrow> bool" where
  "finished c \<longleftrightarrow> Script c = [] \<and> \<not> RunThread (Exec c)"

text \<open>A test passes if no interleaving fails and the end can be reached from everywhere.\<close>

definition always_passes ::
  "('q, 'w item task) queue_ops \<Rightarrow> ('w \<Rightarrow> 's \<Rightarrow> exn + 's) \<Rightarrow> nat \<Rightarrow> ('w, 's) test_op list \<Rightarrow> nat
     \<Rightarrow> ('q, 's) executor \<Rightarrow> bool" where
  "always_passes Q run thr ts n ex \<longleftrightarrow>
     (\<forall>c. (blocking_step Q run thr)\<^sup>*\<^sup>* (blocking_start ts n ex) c \<longrightarrow>
        Ok c \<and> (\<exists>c'. (blocking_step Q run thr)\<^sup>*\<^sup>* c c' \<and> finished c'))"

section \<open>The tests\<close>

text \<open>
  The two files contain the same three tests, of the console and of the file handler. The
  semaphores \<open>Signal1\<close> to \<open>Signal3\<close> are 0 to 2; \<open>w\<close> is the closure of \<open>flush\<close> and \<open>ready\<close> the
  state of its promise.
\<close>

definition OnInitialisationQueueEmpty :: "('w, 's) test_op list" where
  "OnInitialisationQueueEmpty = [TExpectSize (\<lambda>n. n = 0), TExpectSize (\<lambda>n. n = 0), TDestroy, TJoin]"

definition QueueSizeOneIsNotEmpty :: "('w, 's) test_op list" where
  "QueueSizeOneIsNotEmpty =
     [TSend (Closure [NotifyOp 0, WaitOp 1, NotifyOp 2]), TSend (Closure []), TWait 0,
      TExpectSize (\<lambda>n. n = 1), TExpectSize (\<lambda>n. \<not> n = 0), TNotify 1, TWait 2, TDestroy, TJoin]"

definition FlushFail :: "'w \<Rightarrow> ('s \<Rightarrow> bool) \<Rightarrow> ('w, 's) test_op list" where
  "FlushFail w ready =
     [TSend (Closure [WaitOp 0, NotifyOp 1]), TSend (Handler w), TWaitFor ready False, TNotify 0, TWait 1,
      TDestroy, TJoin]"

definition Console_OnInitialisationQueueEmpty :: "(console_work, console_state) test_op list" where
  "Console_OnInitialisationQueueEmpty = OnInitialisationQueueEmpty"

definition Console_QueueSizeOneIsNotEmpty :: "(console_work, console_state) test_op list" where
  "Console_QueueSizeOneIsNotEmpty = QueueSizeOneIsNotEmpty"

definition Console_FlushFail :: "(console_work, console_state) test_op list" where
  "Console_FlushFail = FlushFail (FlushCout 0) (\<lambda>s. 0 \<in> set (Fulfilled s))"

definition File_OnInitialisationQueueEmpty :: "(file_work, file_state) test_op list" where
  "File_OnInitialisationQueueEmpty = OnInitialisationQueueEmpty"

definition File_QueueSizeOneIsNotEmpty :: "(file_work, file_state) test_op list" where
  "File_QueueSizeOneIsNotEmpty = QueueSizeOneIsNotEmpty"

definition File_FlushFail :: "(file_work, file_state) test_op list" where
  "File_FlushFail = FlushFail (FlushFile 0) (\<lambda>s. 0 \<in> set (FileFulfilled s))"

lemmas queue_tests_def = Console_OnInitialisationQueueEmpty_def Console_QueueSizeOneIsNotEmpty_def
  Console_FlushFail_def File_OnInitialisationQueueEmpty_def File_QueueSizeOneIsNotEmpty_def File_FlushFail_def

section \<open>Bounded search\<close>

text \<open>
  Only one thread sends, so the queue can be taken to be the list of its items. The successors
  of a state can then be computed.
\<close>

type_synonym ('w, 's) search_state = "('w item task list, 'w, 's) blocking"

definition queued :: "'w item task \<Rightarrow> ('w item task list, 's) executor \<Rightarrow> ('w item task list, 's) executor" where
  "queued t ex = ex\<lparr>MessageQueue := MessageQueue ex @ [t]\<rparr>"

fun op_succs :: "('w, 's) test_op \<Rightarrow> ('w, 's) search_state \<Rightarrow> ('w, 's) search_state list" where
  "op_succs (TSend i) c = [c\<lparr>Exec := queued (Work i) (Exec c)\<rparr>]"
| "op_succs (TSendIf P i) c =
     [c\<lparr>Exec := if P (target (Exec c)) then queued (Work i) (Exec c) else Exec c\<rparr>]"
| "op_succs (TNotify i) c = [c\<lparr>Sems := post i (Sems c)\<rparr>]"
| "op_succs (TWait i) c = (case claim i (Sems c) of None \<Rightarrow> [] | Some ss \<Rightarrow> [c\<lparr>Sems := ss\<rparr>])"
| "op_succs (TAwait P) c = (if P (target (Exec c)) then [c] else [])"
| "op_succs (TWaitFor P r) c =
     (if P (target (Exec c)) then [c\<lparr>Ok := (Ok c \<and> r)\<rparr>] else []) @ [c\<lparr>Ok := (Ok c \<and> \<not> r)\<rparr>]"
| "op_succs (TExpect P) c = [c\<lparr>Ok := (Ok c \<and> P (target (Exec c)))\<rparr>]"
| "op_succs (TExpectSize P) c =
     (let k = length (MessageQueue (Exec c)) in
      map (\<lambda>n. c\<lparr>Ok := (Ok c \<and> P n)\<rparr>) (if Cur c = [] then [0..<Suc k] else [k]))"
| "op_succs TDestroy c = [c\<lparr>Exec := queued StopTask (Exec c)\<rparr>]"
| "op_succs TJoin c = (if RunThread (Exec c) then [] else [c])"

definition thread_succs :: "('w, 's) search_state \<Rightarrow> ('w, 's) search_state list" where
  "thread_succs c = (case Script c of [] \<Rightarrow> [] | x # ts \<Rightarrow> op_succs x (c\<lparr>Script := ts\<rparr>))"

fun task_succs ::
  "('w \<Rightarrow> 's \<Rightarrow> exn + 's) \<Rightarrow> 'w item task \<Rightarrow> ('w, 's) search_state \<Rightarrow> ('w, 's) search_state" where
  "task_succs run StopTask c = c\<lparr>Exec := (Exec c)\<lparr>RunThread := False\<rparr>\<rparr>"
| "task_succs run (Work (Closure ops)) c = c\<lparr>Cur := ops\<rparr>"
| "task_succs run (Work (Handler w)) c =
     (case run w (target (Exec c)) of
        Inl e \<Rightarrow> c\<lparr>Exec := (Exec c)\<lparr>RunThread := False\<rparr>, Ok := False\<rparr>
      | Inr s \<Rightarrow> c\<lparr>Exec := (Exec c)\<lparr>target := s\<rparr>\<rparr>)"

definition worker_succs ::
  "('w \<Rightarrow> 's \<Rightarrow> exn + 's) \<Rightarrow> ('w, 's) search_state \<Rightarrow> ('w, 's) search_state list" where
  "worker_succs run c =
     (case Cur c of
        NotifyOp i # ops \<Rightarrow> [c\<lparr>Cur := ops, Sems := post i (Sems c)\<rparr>]
      | WaitOp i # ops \<Rightarrow> (case claim i (Sems c) of None \<Rightarrow> [] | Some ss \<Rightarrow> [c\<lparr>Cur := ops, Sems := ss\<rparr>])
      | [] \<Rightarrow>
          if RunThread (Exec c) then
            (case MessageQueue (Exec c) of
               [] \<Rightarrow> []
             | t # ts \<Rightarrow> [task_succs run t (c\<lparr>Exec := (Exec c)\<lparr>MessageQueue := ts\<rparr>\<rparr>)])
          else [])"

definition succs ::
  "('w \<Rightarrow> 's \<Rightarrow> exn + 's) \<Rightarrow> ('w, 's) search_state \<Rightarrow> ('w, 's) search_state list" where
  "succs run c = thread_succs c @ worker_succs run c"

text \<open>The search; the number bounds its depth.\<close>

fun all_ok :: "('w \<Rightarrow> 's \<Rightarrow> exn + 's) \<Rightarrow> nat \<Rightarrow> ('w, 's) search_state \<Rightarrow> bool" where
  "all_ok run 0 c = False"
| "all_ok run (Suc n) c =
     (Ok c \<and> (case succs run c of [] \<Rightarrow> finished c | cs \<Rightarrow> list_all (all_ok run n) cs))"

section \<open>The search is sound\<close>

definition listed ::
  "('q \<Rightarrow> nat \<Rightarrow> 'w item task list) \<Rightarrow> nat \<Rightarrow> ('q, 'w, 's) blocking \<Rightarrow> ('w, 's) search_state \<Rightarrow> bool" where
  "listed pend thr c a \<longleftrightarrow>
     pend (MessageQueue (Exec c)) = (\<lambda>_. [])(thr := MessageQueue (Exec a))
     \<and> Script c = Script a \<and> Cur c = Cur a \<and> Sems c = Sems a \<and> Ok c = Ok a
     \<and> RunThread (Exec c) = RunThread (Exec a) \<and> target (Exec c) = target (Exec a)"

text \<open>The documented law of \<open>size_approx\<close> for a queue that rests.\<close>

definition size_exact :: "('q, 'w) queue_ops \<Rightarrow> ('q \<Rightarrow> nat \<Rightarrow> 'w list) \<Rightarrow> bool" where
  "size_exact Q pend \<longleftrightarrow>
     (\<forall>q p ws. pend q = (\<lambda>_. [])(p := ws) \<longrightarrow> q_size_approx Q q = length ws)"

lemma listed_size:
  "size_exact Q pend \<Longrightarrow> listed pend thr c a \<Longrightarrow> size_approx Q (Exec c) = length (MessageQueue (Exec a))"
  by (auto simp: size_exact_def listed_def size_approx_def)

lemma listed_send:
  assumes "queue_contract Q pend" and "listed pend thr c a"
  shows "pend (MessageQueue (SendWork Q thr t (Exec c))) = (\<lambda>_. [])(thr := MessageQueue (queued t (Exec a)))"
  using assms by (simp add: listed_def SendWork_def queued_def contract_enqueue fun_eq_iff)

lemma SendWork_fields [simp]:
  "RunThread (SendWork Q thr t ex) = RunThread ex" "target (SendWork Q thr t ex) = target ex"
  "RunThread (queued t ex') = RunThread ex'" "target (queued t ex') = target ex'"
  by (simp_all add: SendWork_def queued_def)

lemma listed_thread:
  assumes "queue_contract Q pend" and "size_exact Q pend" and "listed pend thr c a" and "test_thread Q thr c c'"
  shows "\<exists>a' \<in> set (thread_succs a). listed pend thr c' a'"
proof -
  have eqs: "Script a = Script c" "Cur a = Cur c" "Sems a = Sems c" "Ok a = Ok c"
    "RunThread (Exec a) = RunThread (Exec c)" "target (Exec a) = target (Exec c)"
    and p: "pend (MessageQueue (Exec c)) = (\<lambda>_. [])(thr := MessageQueue (Exec a))"
    using assms(3) by (simp_all add: listed_def)
  note send = listed_send [OF assms(1,3)]
  show ?thesis
    using assms(4)
  proof cases
    case (expect_size P ts n)
    then have "n \<le> length (MessageQueue (Exec a))" "Cur a \<noteq> [] \<longrightarrow> n = length (MessageQueue (Exec a))"
      using listed_size [OF assms(2,3)] eqs by auto
    then have "a\<lparr>Script := ts, Ok := (Ok a \<and> P n)\<rparr> \<in> set (thread_succs a)"
      using expect_size(2) eqs(1)
      by (cases "Cur a") (auto simp: thread_succs_def Let_def simp del: upt_Suc intro: image_eqI [where x = n])
    moreover have "listed pend thr c' (a\<lparr>Script := ts, Ok := (Ok a \<and> P n)\<rparr>)"
      using expect_size(1) eqs p by (simp add: listed_def)
    ultimately show ?thesis by blast
  next
    case (send_if P i ts)
    then show ?thesis
      by (cases "P (target (Exec c))") (simp_all add: thread_succs_def listed_def eqs p send)
  qed (simp_all add: thread_succs_def listed_def eqs p send destroy_send_def)
qed

lemma listed_dequeue:
  assumes "queue_contract Q pend" and "listed pend thr c a"
    and "q_try_dequeue Q (MessageQueue (Exec c)) = (Some t, q)"
  obtains ts where "MessageQueue (Exec a) = t # ts" "pend q = (\<lambda>_. [])(thr := ts)"
proof -
  obtain p ws where "pend (MessageQueue (Exec c)) p = t # ws" "pend q = (pend (MessageQueue (Exec c)))(p := ws)"
    using contract_dequeue [OF assms(1,3)] by blast
  moreover from this(1) assms(2) have "p = thr" by (auto simp: listed_def split: if_splits)
  ultimately show ?thesis using assms(2) by (auto simp: listed_def intro: that)
qed

lemma listed_worker:
  assumes "queue_contract Q pend" and "listed pend thr c a" and "test_worker Q run c c'"
  shows "listed pend thr c' a \<or> (\<exists>a' \<in> set (worker_succs run a). listed pend thr c' a')"
  using assms(3)
proof cases
  case (poll q)
  then show ?thesis using contract_none [OF assms(1) poll(4)] assms(2) by (simp add: listed_def)
next
  case (stop q)
  show ?thesis by (rule listed_dequeue [OF assms(1,2) stop(4)]) (use stop assms(2) in \<open>auto simp: worker_succs_def listed_def\<close>)
next
  case (begin_closure ops q)
  show ?thesis
    by (rule listed_dequeue [OF assms(1,2) begin_closure(4)])
      (use begin_closure assms(2) in \<open>auto simp: worker_succs_def listed_def\<close>)
next
  case (run_handler w q s)
  show ?thesis
    by (rule listed_dequeue [OF assms(1,2) run_handler(4)])
      (use run_handler assms(2) in \<open>auto simp: worker_succs_def listed_def\<close>)
next
  case (handler_throws w q e)
  show ?thesis
    by (rule listed_dequeue [OF assms(1,2) handler_throws(4)])
      (use handler_throws assms(2) in \<open>auto simp: worker_succs_def listed_def\<close>)
next
  case (w_notify i ops)
  then have "Cur a = NotifyOp i # ops" using assms(2) by (simp add: listed_def)
  then show ?thesis using w_notify assms(2) by (simp add: worker_succs_def listed_def)
next
  case (w_wait i ops ss)
  then have "Cur a = WaitOp i # ops" "claim i (Sems a) = Some ss" using assms(2) by (simp_all add: listed_def)
  then show ?thesis using w_wait assms(2) by (simp add: worker_succs_def listed_def)
qed

text \<open>Conversely every successor can be reached: a failed poll only delays the worker.\<close>

lemma thread_succ_step:
  assumes "queue_contract Q pend" and "size_exact Q pend" and "listed pend thr c a"
    and "a' \<in> set (thread_succs a)"
  shows "\<exists>c'. test_thread Q thr c c' \<and> listed pend thr c' a'"
proof (cases "Script a")
  case (Cons x ts)
  then have s: "Script c = x # ts" using assms(3) by (simp add: listed_def)
  note send [simp] = listed_send [OF assms(1,3)]
  show ?thesis
  proof (cases x)
    case (TExpectSize P)
    then obtain n where n: "a' = a\<lparr>Script := ts, Ok := (Ok a \<and> P n)\<rparr>" "n \<le> length (MessageQueue (Exec a))"
      "Cur a \<noteq> [] \<longrightarrow> n = length (MessageQueue (Exec a))"
      using assms(4) Cons by (auto simp: thread_succs_def Let_def split: if_splits)
    have "test_thread Q thr c (c\<lparr>Script := ts, Ok := (Ok c \<and> P n)\<rparr>)"
      using s n(2,3) TExpectSize listed_size [OF assms(2,3)] assms(3)
      by (intro test_thread.expect_size) (auto simp: listed_def)
    moreover have "listed pend thr (c\<lparr>Script := ts, Ok := (Ok c \<and> P n)\<rparr>) a'"
      using assms(3) n(1) by (simp add: listed_def)
    ultimately show ?thesis by blast
  next
    case (TSend i)
    with assms(3,4) Cons show ?thesis
      by (intro exI [of _ "c\<lparr>Script := ts, Exec := SendWork Q thr (Work i) (Exec c)\<rparr>"] conjI test_thread.send) (auto simp: s listed_def thread_succs_def destroy_send_def)
  next
    case (TSendIf P i)
    with assms(3,4) Cons show ?thesis
      by (intro exI [of _ "c\<lparr>Script := ts, Exec := if P (target (Exec c)) then SendWork Q thr (Work i) (Exec c) else Exec c\<rparr>"] conjI test_thread.send_if) (auto simp: s listed_def thread_succs_def destroy_send_def)
  next
    case (TNotify i)
    with assms(3,4) Cons show ?thesis
      by (intro exI [of _ "c\<lparr>Script := ts, Sems := post i (Sems c)\<rparr>"] conjI test_thread.t_notify) (auto simp: s listed_def thread_succs_def destroy_send_def)
  next
    case (TWait i)
    show ?thesis
    proof (cases "claim i (Sems a)")
      case (Some ss)
      with TWait assms(3,4) Cons show ?thesis
        by (intro exI [of _ "c\<lparr>Script := ts, Sems := ss\<rparr>"] conjI test_thread.t_wait)
          (auto simp: s listed_def thread_succs_def)
    qed (use TWait assms(4) Cons in \<open>simp add: thread_succs_def\<close>)
  next
    case (TAwait P)
    with assms(3,4) Cons show ?thesis
      by (intro exI [of _ "c\<lparr>Script := ts\<rparr>"] conjI test_thread.t_await [where P = P]) (auto simp: s listed_def thread_succs_def split: if_splits)
  next
    case (TWaitFor P r)
    with assms(4) Cons consider "P (target (Exec a))" "a' = a\<lparr>Script := ts, Ok := (Ok a \<and> r)\<rparr>"
      | "a' = a\<lparr>Script := ts, Ok := (Ok a \<and> \<not> r)\<rparr>"
      by (auto simp: thread_succs_def split: if_splits)
    then show ?thesis
    proof cases
      case 1
      with TWaitFor assms(3) show ?thesis
        by (intro exI [of _ "c\<lparr>Script := ts, Ok := (Ok c \<and> r)\<rparr>"] conjI test_thread.wait_ready [where P = P]) (auto simp: s listed_def thread_succs_def destroy_send_def)
    next
      case 2
      with TWaitFor assms(3) show ?thesis
        by (intro exI [of _ "c\<lparr>Script := ts, Ok := (Ok c \<and> \<not> r)\<rparr>"] conjI test_thread.wait_timeout [where P = P]) (auto simp: s listed_def thread_succs_def destroy_send_def)
    qed
  next
    case (TExpect P)
    with assms(3,4) Cons show ?thesis
      by (intro exI [of _ "c\<lparr>Script := ts, Ok := (Ok c \<and> P (target (Exec c)))\<rparr>"] conjI test_thread.expect) (auto simp: s listed_def thread_succs_def destroy_send_def)
  next
    case TDestroy
    with assms(3,4) Cons show ?thesis
      by (intro exI [of _ "c\<lparr>Script := ts, Exec := destroy_send Q thr (Exec c)\<rparr>"] conjI test_thread.destroy) (auto simp: s listed_def thread_succs_def destroy_send_def)
  next
    case TJoin
    with assms(3,4) Cons show ?thesis
      by (intro exI [of _ "c\<lparr>Script := ts\<rparr>"] conjI test_thread.join) (auto simp: s listed_def thread_succs_def split: if_splits)
  qed
qed (use assms(4) in \<open>simp add: thread_succs_def\<close>)

lemma worker_polls:
  assumes "Cur c = []" and "RunThread (Exec c)"
    and "\<forall>k < n. fst (q_try_dequeue Q (failed_polls Q k (MessageQueue (Exec c)))) = None"
  shows "(test_worker Q run)\<^sup>*\<^sup>* c (c\<lparr>Exec := (Exec c)\<lparr>MessageQueue := failed_polls Q n (MessageQueue (Exec c))\<rparr>\<rparr>)"
  using assms(3)
proof (induction n)
  case (Suc n)
  let ?d = "c\<lparr>Exec := (Exec c)\<lparr>MessageQueue := failed_polls Q n (MessageQueue (Exec c))\<rparr>\<rparr>"
  obtain q where "q_try_dequeue Q (failed_polls Q n (MessageQueue (Exec c))) = (None, q)"
    using Suc.prems by (metis lessI prod.collapse)
  then have "test_worker Q run ?d (?d\<lparr>Exec := (Exec ?d)\<lparr>MessageQueue := q\<rparr>\<rparr>)"
    and q: "q = failed_polls Q (Suc n) (MessageQueue (Exec c))"
    using assms(1,2) test_worker.poll [of ?d Q q run] by simp_all
  moreover have "(test_worker Q run)\<^sup>*\<^sup>* c ?d" using Suc by auto
  ultimately show ?case unfolding q [symmetric] by (simp add: rtranclp.rtrancl_into_rtrancl)
qed simp

lemma worker_takes:
  assumes "Cur c = []" and "RunThread (Exec c)" and "q_try_dequeue Q (MessageQueue (Exec c)) = (Some t, q)"
    and "listed pend thr (c\<lparr>Exec := (Exec c)\<lparr>MessageQueue := q\<rparr>\<rparr>) a"
  shows "\<exists>c'. test_worker Q run c c' \<and> listed pend thr c' (task_succs run t a)"
proof (cases "(run, t, a)" rule: task_succs.cases)
  case (1 run' a')
  then have "t = StopTask" by simp
  from test_worker.stop [OF assms(1-3) [unfolded this], of run] assms(4) this show ?thesis
    by (intro exI [of _ "c\<lparr>Exec := (Exec c)\<lparr>MessageQueue := q, RunThread := False\<rparr>\<rparr>"]) (simp add: listed_def)
next
  case (2 run' ops a')
  then have t: "t = Work (Closure ops)" by simp
  with assms(4) test_worker.begin_closure [OF assms(1-3) [unfolded t], of run] show ?thesis
    by (intro exI [of _ "c\<lparr>Cur := ops, Exec := (Exec c)\<lparr>MessageQueue := q\<rparr>\<rparr>"]) (simp add: listed_def)
next
  case (3 run' w a')
  then have t: "t = Work (Handler w)" by simp
  have r: "target (Exec c) = target (Exec a)" using assms(4) by (simp add: listed_def)
  show ?thesis
  proof (cases "run w (target (Exec c))")
    case (Inl e)
    with assms(4) t r test_worker.handler_throws [of c Q w q run e, OF assms(1-3) [unfolded t] Inl] show ?thesis
      by (intro exI [of _ "c\<lparr>Exec := (Exec c)\<lparr>MessageQueue := q, RunThread := False\<rparr>, Ok := False\<rparr>"])
        (simp add: listed_def)
  next
    case (Inr s)
    with assms(4) t r test_worker.run_handler [of c Q w q run s, OF assms(1-3) [unfolded t] Inr] show ?thesis
      by (intro exI [of _ "c\<lparr>Exec := (Exec c)\<lparr>MessageQueue := q, target := s\<rparr>\<rparr>"]) (simp add: listed_def)
  qed
qed

lemma worker_succ_step:
  assumes "queue_contract Q pend" and "queue_live Q pend" and "listed pend thr c a"
    and "a' \<in> set (worker_succs run a)"
  shows "\<exists>c'. (test_worker Q run)\<^sup>*\<^sup>* c c' \<and> listed pend thr c' a'"
proof (cases "Cur a")
  case Nil
  have "RunThread (Exec a)" "MessageQueue (Exec a) \<noteq> []"
    using Nil assms(4) by (cases "RunThread (Exec a)"; cases "MessageQueue (Exec a)"; simp add: worker_succs_def)+
  then obtain t ts where a: "RunThread (Exec a)" "MessageQueue (Exec a) = t # ts" by (auto simp: neq_Nil_conv)
  have a': "a' = task_succs run t (a\<lparr>Exec := (Exec a)\<lparr>MessageQueue := ts\<rparr>\<rparr>)"
    using Nil assms(4) a by (simp add: worker_succs_def)
  have c: "Cur c = []" "RunThread (Exec c)" "pend (MessageQueue (Exec c)) thr \<noteq> []"
    using assms(3) Nil a by (auto simp: listed_def)
  obtain n w q where n: "\<forall>k < n. fst (q_try_dequeue Q (failed_polls Q k (MessageQueue (Exec c)))) = None"
    "q_try_dequeue Q (failed_polls Q n (MessageQueue (Exec c))) = (Some w, q)"
    by (rule first_success [OF assms(1,2) c(3)])
  let ?d = "c\<lparr>Exec := (Exec c)\<lparr>MessageQueue := failed_polls Q n (MessageQueue (Exec c))\<rparr>\<rparr>"
  have d: "(test_worker Q run)\<^sup>*\<^sup>* c ?d" by (rule worker_polls [OF c(1,2) n(1)])
  have l: "listed pend thr ?d a"
    using assms(3) failed_polls_pend [OF assms(1) n(1)] by (simp add: listed_def)
  have dq: "q_try_dequeue Q (MessageQueue (Exec ?d)) = (Some w, q)" using n(2) by simp
  obtain ts' where ts: "MessageQueue (Exec a) = w # ts'" "pend q = (\<lambda>_. [])(thr := ts')"
    by (rule listed_dequeue [OF assms(1) l dq])
  have "listed pend thr (?d\<lparr>Exec := (Exec ?d)\<lparr>MessageQueue := q\<rparr>\<rparr>) (a\<lparr>Exec := (Exec a)\<lparr>MessageQueue := ts\<rparr>\<rparr>)"
    using assms(3) ts a(2) by (simp add: listed_def)
  from worker_takes [OF _ _ dq this, of run] c ts(1) a(2) a'
  obtain c' where "test_worker Q run ?d c'" "listed pend thr c' a'" by auto
  with d show ?thesis by (auto intro: rtranclp.rtrancl_into_rtrancl)
next
  case (Cons x ops)
  then have c: "Cur c = x # ops" using assms(3) by (simp add: listed_def)
  have "\<exists>c'. test_worker Q run c c' \<and> listed pend thr c' a'"
  proof (cases x)
    case (NotifyOp i)
    with assms(3,4) Cons test_worker.w_notify [OF c [unfolded NotifyOp], of Q run] show ?thesis
      by (intro exI [of _ "c\<lparr>Cur := ops, Sems := post i (Sems c)\<rparr>"]) (simp add: worker_succs_def listed_def)
  next
    case (WaitOp i)
    show ?thesis
    proof (cases "claim i (Sems a)")
      case (Some ss)
      then have "claim i (Sems c) = Some ss" using assms(3) by (simp add: listed_def)
      from test_worker.w_wait [OF c [unfolded WaitOp] this, of Q run] Some WaitOp Cons assms(3,4) show ?thesis
        by (intro exI [of _ "c\<lparr>Cur := ops, Sems := ss\<rparr>"]) (simp add: worker_succs_def listed_def)
    qed (use WaitOp assms(4) Cons in \<open>simp add: worker_succs_def\<close>)
  qed
  then show ?thesis by (auto intro: r_into_rtranclp)
qed

lemma succ_step:
  assumes "queue_contract Q pend" and "queue_live Q pend" and "size_exact Q pend" and "listed pend thr c a"
    and "a' \<in> set (succs run a)"
  shows "\<exists>c'. (blocking_step Q run thr)\<^sup>*\<^sup>* c c' \<and> listed pend thr c' a'"
proof -
  have mono: "(test_worker Q run)\<^sup>*\<^sup>* c c' \<Longrightarrow> (blocking_step Q run thr)\<^sup>*\<^sup>* c c'" for c'
    by (erule rtranclp_mono [THEN predicate2D, rotated]) (auto simp: blocking_step_def)
  from assms(5) consider "a' \<in> set (thread_succs a)" | "a' \<in> set (worker_succs run a)"
    by (auto simp: succs_def)
  then show ?thesis
  proof cases
    case 1
    from thread_succ_step [OF assms(1,3,4) this] obtain c' where "test_thread Q thr c c'" "listed pend thr c' a'"
      by blast
    then show ?thesis by (intro exI [of _ c']) (auto simp: blocking_step_def)
  next
    case 2
    from worker_succ_step [OF assms(1,2,4) this] mono show ?thesis by blast
  qed
qed

lemma all_ok_finishes:
  assumes "queue_contract Q pend" and "queue_live Q pend" and "size_exact Q pend"
  shows "all_ok run n a \<Longrightarrow> listed pend thr c a \<Longrightarrow> \<exists>c'. (blocking_step Q run thr)\<^sup>*\<^sup>* c c' \<and> finished c'"
proof (induction n arbitrary: a c)
  case (Suc n)
  show ?case
  proof (cases "succs run a")
    case Nil
    then show ?thesis using Suc.prems by (auto simp: finished_def listed_def)
  next
    case (Cons a' as)
    then obtain c1 where c1: "(blocking_step Q run thr)\<^sup>*\<^sup>* c c1" "listed pend thr c1 a'"
      using succ_step [OF assms Suc.prems(2), of a' run] by auto
    have "all_ok run n a'" using Suc.prems(1) Cons by simp
    from Suc.IH [OF this c1(2)] c1(1) show ?thesis by (meson rtranclp_trans)
  qed
qed simp

lemma all_ok_step:
  assumes "queue_contract Q pend" and "size_exact Q pend"
    and "all_ok run n a" and "listed pend thr c a" and "blocking_step Q run thr c c'"
  shows "\<exists>n a'. all_ok run n a' \<and> listed pend thr c' a'"
proof -
  obtain m where m: "n = Suc m" using assms(3) by (cases n) auto
  have "all_ok run m a'" if "a' \<in> set (succs run a)" for a'
    using that assms(3) m by (auto simp: list_all_iff split: list.splits)
  moreover have "listed pend thr c' a \<or> (\<exists>a' \<in> set (succs run a). listed pend thr c' a')"
    using assms(5) listed_thread [OF assms(1,2,4)] listed_worker [OF assms(1,4)]
    by (auto simp: blocking_step_def succs_def)
  ultimately show ?thesis using assms(3) by blast
qed

lemma search_sound:
  assumes "queue_contract Q pend" and "queue_live Q pend" and "size_exact Q pend"
    and "pend q0 = (\<lambda>_. [])"
    and "all_ok run n (blocking_start ts k \<lparr>RunThread = True, MessageQueue = [], target = s\<rparr>)"
  shows "always_passes Q run thr ts k (ThreadedExecutor q0 s)"
  unfolding always_passes_def
proof (intro allI impI)
  fix c
  assume "(blocking_step Q run thr)\<^sup>*\<^sup>* (blocking_start ts k (ThreadedExecutor q0 s)) c"
  then have "\<exists>n a. all_ok run n a \<and> listed pend thr c a"
  proof (induction rule: rtranclp_induct)
    case base
    have "listed pend thr (blocking_start ts k (ThreadedExecutor q0 s))
        (blocking_start ts k \<lparr>RunThread = True, MessageQueue = [], target = s\<rparr>)"
      using assms(4) by (simp add: listed_def blocking_start_def ThreadedExecutor_def fun_upd_idem)
    with assms(5) show ?case by blast
  next
    case (step c c')
    then show ?case using all_ok_step [OF assms(1,3)] by blast
  qed
  then obtain n a where na: "all_ok run n a" "listed pend thr c a" by blast
  have "Ok c" using na by (cases n) (auto simp: listed_def)
  with all_ok_finishes [OF assms(1-3) na] show "Ok c \<and> (\<exists>c'. (blocking_step Q run thr)\<^sup>*\<^sup>* c c' \<and> finished c')"
    by blast
qed

section \<open>The test of LoggingBase with a console handler\<close>

text \<open>
  \<open>AddConsoleHandlerTest\<close>: \<open>GotMsg\<close> is the flag of the stand-in, which overrides only
  \<open>addMessage\<close>; its \<open>flush\<close> is a parameter. The reference count of the handler is the test's
  own pointer and those in \<open>Handlers\<close>.
\<close>

record ConsoleInterfaceStandIn = handler_base +
  GotMsg :: bool

definition console_stand_in_ops ::
  "(nat \<Rightarrow> ConsoleInterfaceStandIn \<Rightarrow> exn + (bool \<times> ConsoleInterfaceStandIn))
     \<Rightarrow> ConsoleInterfaceStandIn handler_ops" where
  "console_stand_in_ops flush =
     \<lparr>hop_addMessage = (\<lambda>thr Message h. Inr (h\<lparr>GotMsg := True\<rparr>)), hop_flush = flush, hop_is_console = (\<lambda>h. True)\<rparr>"

definition use_count :: "nat \<Rightarrow> 'h logger \<Rightarrow> nat" where
  "use_count p s = Suc (count_list (Handlers s) p)"

definition AddConsoleHandlerTest ::
  "nat \<Rightarrow> ('a base_work, ConsoleInterfaceStandIn logger) test_op list" where
  "AddConsoleHandlerTest thr =
     [TSend (Handler InitBase), TExpect (\<lambda>s. use_count standIn s = 1),
      TSend (Handler (PushHandler standIn 0)), TAwait (\<lambda>s. check_passed 0 s \<noteq> None),
      TExpect (\<lambda>s. use_count standIn s = 2), TExpect (\<lambda>s. \<not> GotMsg (Store s standIn)),
      TSendIf (\<lambda>s. \<not> int_of_severity Emergency > int_of_severity (MinSeverity s))
        (Handler (LogWork Emergency ''Msg'' [] thr)),
      TSend (Closure [NotifyOp 0]), TWait 0, TExpect (\<lambda>s. GotMsg (Store s standIn)),
      TSend (Handler (ClearHandlers 1)), TAwait (\<lambda>s. check_passed 1 s \<noteq> None), TDestroy, TJoin]"

lemmas search_simps = succs_def thread_succs_def worker_succs_def queued_def post_def claim_def
  wait_token_def notify_token_def Semaphore_def finished_def blocking_start_def

lemma search_tests:
  "all_ok run 20 (blocking_start OnInitialisationQueueEmpty 0 \<lparr>RunThread = True, MessageQueue = [], target = s\<rparr>)"
  "all_ok run 20 (blocking_start QueueSizeOneIsNotEmpty 3 \<lparr>RunThread = True, MessageQueue = [], target = s\<rparr>)"
  by (simp_all add: OnInitialisationQueueEmpty_def QueueSizeOneIsNotEmpty_def search_simps eval_nat_numeral)

lemma search_FlushFail:
  assumes "run w s = Inr s'" and "\<not> ready s"
  shows "all_ok run 20 (blocking_start (FlushFail w ready) 2 \<lparr>RunThread = True, MessageQueue = [], target = s\<rparr>)"
  using assms by (simp add: FlushFail_def search_simps eval_nat_numeral)

lemma search_AddConsoleHandlerTest:
  "all_ok (run_base E (console_stand_in_ops flush)) 40 (blocking_start (AddConsoleHandlerTest thr) 1
     \<lparr>RunThread = True, MessageQueue = [],
       target = logger_new (\<lambda>_. \<lparr>MessageParser = None, GotMsg = False\<rparr>)\<rparr>)"
  by (simp add: AddConsoleHandlerTest_def search_simps eval_nat_numeral logger_new_def use_count_def
      notify_check_def check_passed_def add_to_handlers_def console_stand_in_ops_def standIn_def
      int_of_severity_def Emergency_def Notice_def)

lemma list_queue_size_exact: "size_exact list_queue list_pend"
proof -
  have "length q = length ws" if q: "list_pend q = (\<lambda>_. [])(p := ws)" for q :: "(nat \<times> 'a) list" and p ws
  proof -
    have "fst t = p" if "t \<in> set q" for t
      using q that of_producer_set [of "snd t" "fst t" q] by (cases "fst t = p") (auto simp: list_pend_def fun_eq_iff)
    then have "of_producer p q = map snd q" by (simp add: of_producer_def)
    moreover have "of_producer p q = ws" using fun_cong [OF q, of p] by (simp add: list_pend_def)
    ultimately show ?thesis by (metis length_map)
  qed
  then show ?thesis unfolding size_exact_def by (simp add: list_queue_def)
qed

section \<open>The tests pass\<close>

definition stand_in_store :: "nat \<Rightarrow> ConsoleInterfaceStandIn" where
  "stand_in_store = (\<lambda>_. \<lparr>MessageParser = None, GotMsg = False\<rparr>)"

text \<open>
  C12: the tests that stop the worker or read the length of the queue pass, for the console
  and the file handler, under every interleaving of the test thread with the worker, and from
  every reachable state they can be completed: no deadlock. In particular a flush behind a
  blocked closure never reports success.
\<close>

theorem blocking_tests_pass:
  assumes "queue_contract Q pend" and "queue_live Q pend" and "size_exact Q pend" and "pend q0 = (\<lambda>_. [])"
    and "queue_contract QF pendF" and "queue_live QF pendF" and "size_exact QF pendF" and "pendF f0 = (\<lambda>_. [])"
    and "queue_contract QB pendB" and "queue_live QB pendB" and "size_exact QB pendB" and "pendB b0 = (\<lambda>_. [])"
  shows "(\<forall>(t, n) \<in> set [(Console_OnInitialisationQueueEmpty, 0), (Console_QueueSizeOneIsNotEmpty, 3),
          (Console_FlushFail, 2)].
        always_passes Q run_console thr t n (ThreadedExecutor q0 console_init))
    \<and> (\<forall>(t, n) \<in> set [(File_OnInitialisationQueueEmpty, 0), (File_QueueSizeOneIsNotEmpty, 3), (File_FlushFail, 2)].
        always_passes QF (run_file localtime disk) thr t n (ThreadedExecutor f0 (file_init '''')))
    \<and> always_passes QB (run_base E (console_stand_in_ops flush)) thr (AddConsoleHandlerTest thr) 1
        (ThreadedExecutor b0 (logger_new stand_in_store))"
proof -
  note console = search_sound [OF assms(1-4)]
  note files = search_sound [OF assms(5-8)]
  note base = search_sound [OF assms(9-12)]
  have "\<not> 0 \<in> set (Fulfilled console_init)" "\<not> 0 \<in> set (FileFulfilled (file_init ''''))"
    by (simp_all add: console_init_def ConsoleInterface_def ThreadedExecutor_def
        setMessageStringCreatorFunction_def file_init_def FileInterface_def)
  note flush = search_FlushFail [of run_console "FlushCout 0" console_init _ "\<lambda>s. 0 \<in> set (Fulfilled s)",
      OF run_console.simps(3) this(1)]
    search_FlushFail [of "run_file localtime disk" "FlushFile 0" "file_init ''''" _
      "\<lambda>s. 0 \<in> set (FileFulfilled s)", OF run_file.simps(3) [unfolded Let_def] this(2)]
  show ?thesis
    using console [where run = run_console, OF search_tests(1)] console [where run = run_console, OF search_tests(2)] console [OF flush(1)]
      files [where run = "run_file localtime disk", OF search_tests(1)] files [where run = "run_file localtime disk", OF search_tests(2)] files [OF flush(2)]
      base [OF search_AddConsoleHandlerTest [folded stand_in_store_def]]
    by (simp add: queue_tests_def)
qed

theorem blocking_tests_pass_witness:
  "\<exists>c. (blocking_step list_queue run_console 0)\<^sup>*\<^sup>*
      (blocking_start Console_QueueSizeOneIsNotEmpty 3 (ThreadedExecutor [] console_init)) c \<and> finished c \<and> Ok c"
proof -
  have e: "list_pend [] = (\<lambda>_. [] :: 'x list)" by (simp add: list_pend_def fun_eq_iff)
  have "always_passes list_queue run_console 0 Console_QueueSizeOneIsNotEmpty 3 (ThreadedExecutor [] console_init)"
    using blocking_tests_pass [OF list_queue_contract list_queue_live list_queue_size_exact e list_queue_contract list_queue_live list_queue_size_exact e
        list_queue_contract list_queue_live list_queue_size_exact e,
        THEN conjunct1] by simp
  then show ?thesis unfolding always_passes_def by (meson rtranclp.rtrancl_refl rtranclp_trans)
qed

end
