(* ===== verification/Logger_Test.thy ===== *)
theory Logger_Test
  imports Logger Console_Interface "HOL-Library.Sublist"
begin

text \<open>
  Replacing the console handler of a logger (\<open>LoggerTest.cpp\<close>, with \<open>Logger.cpp\<close>,
  \<open>ConsoleInterface.cpp\<close> and \<open>ThreadedExecutor.hpp\<close> underneath): two console handlers with a
  worker each print to the same standard output. When the logger's worker drops the last
  pointer to the old handler, the destructor joins the handler's worker on that thread, so
  everything sent to the old handler is printed before the new one gets its first message.
\<close>

section \<open>The threads\<close>

text \<open>
  What the client thread has yet to do: log, set the parser of a console handler it owns,
  register it, and the three parts of the destructor of the logger (remove the handlers and
  wait, stop the executor, join).
\<close>

datatype client_op =
    RLog Severity string
  | RSetParser nat parser
  | RAdd nat
  | RClear nat
  | RAwait nat
  | RDestroy
  | RJoin

text \<open>
  \<open>Current\<close> is the closure that the logger's worker is in, \<open>Dropped\<close> the handlers whose last
  pointer it has dropped and whose destructors have to return first, \<open>Stopping\<close> whether the
  first of these destructors has sent its stop item. \<open>Out\<close> is standard output.
\<close>

record ('q, 'c, 'a) console_logger =
  Todo :: "client_op list"
  Base :: "('q, 'c console) base"
  Current :: "'a base_work option"
  Dropped :: "nat list"
  Stopping :: bool
  Out :: string
  Terminated :: bool

text \<open>The virtual functions of a console handler; a waiting \<open>flush\<close> gets \<open>budget\<close> iterations.\<close>

definition console_ops :: "'c console_queue \<Rightarrow> nat \<Rightarrow> 'c console handler_ops" where
  "console_ops QC budget = \<lparr>hop_addMessage = console_addMessage QC,
     hop_flush = (\<lambda>thr. console_flush QC thr thr budget), hop_is_console = (\<lambda>_. True)\<rparr>"

definition store_console :: "nat \<Rightarrow> 'c console \<Rightarrow> ('q, 'c console) base \<Rightarrow> ('q, 'c console) base" where
  "store_console p c b = b\<lparr>target := (target b)\<lparr>Store := (Store (target b))(p := c)\<rparr>\<rparr>"

definition console_at :: "nat \<Rightarrow> ('q, 'c, 'a) console_logger \<Rightarrow> 'c console" where
  "console_at p s = Store (target (Base s)) p"

text \<open>The handlers that a closure removes from \<open>Handlers\<close>; nobody else holds them.\<close>

definition dropped_by ::
  "'a platform \<Rightarrow> 'c console handler_ops \<Rightarrow> 'a base_work \<Rightarrow> 'c console logger \<Rightarrow> nat list" where
  "dropped_by E H w s = (case run_base E H w s of
     Inl e \<Rightarrow> [] | Inr s' \<Rightarrow> filter (\<lambda>p. p \<notin> set (Handlers s')) (remdups (Handlers s)))"

fun client_next ::
  "('q, 'a) base_queue \<Rightarrow> 'c console_queue \<Rightarrow> nat \<Rightarrow> client_op \<Rightarrow> ('q, 'c, 'a) console_logger
     \<Rightarrow> ('q, 'c, 'a) console_logger option" where
  "client_next Q QC thr (RLog Level Message) s = Some (s\<lparr>Base := log_plain Q thr Level Message (Base s)\<rparr>)"
| "client_next Q QC thr (RSetParser p f) s =
     Some (s\<lparr>Base := store_console p (console_setParser QC thr (Some f) (console_at p s)) (Base s)\<rparr>)"
| "client_next Q QC thr (RAdd p) s = Some (s\<lparr>Base := Logger_addLogHandler Q thr p (Base s)\<rparr>)"
| "client_next Q QC thr (RClear k) s = Some (s\<lparr>Base := SendWork Q thr (Work (ClearHandlers k)) (Base s)\<rparr>)"
| "client_next Q QC thr (RAwait k) s =
     (case check_passed k (target (Base s)) of None \<Rightarrow> None | Some u \<Rightarrow> Some s)"
| "client_next Q QC thr RDestroy s = Some (s\<lparr>Base := destroy_send Q thr (Base s)\<rparr>)"
| "client_next Q QC thr RJoin s = (if RunThread (Base s) then None else Some s)"

text \<open>
  The logger's worker: take a closure; for each handler it drops, send the stop item and join;
  then the rest of the closure.
\<close>

definition base_next ::
  "('q, 'a) base_queue \<Rightarrow> 'a platform \<Rightarrow> 'c console_queue \<Rightarrow> 'c console handler_ops
     \<Rightarrow> ('q, 'c, 'a) console_logger \<Rightarrow> ('q, 'c, 'a) console_logger option" where
  "base_next Q E QC H s =
     (case Current s of
        None \<Rightarrow>
          if RunThread (Base s) then
            (case q_try_dequeue Q (MessageQueue (Base s)) of
               (None, q) \<Rightarrow> Some (s\<lparr>Base := (Base s)\<lparr>MessageQueue := q\<rparr>\<rparr>)
             | (Some StopTask, q) \<Rightarrow> Some (s\<lparr>Base := (Base s)\<lparr>MessageQueue := q, RunThread := False\<rparr>\<rparr>)
             | (Some (Work w), q) \<Rightarrow>
                 Some (s\<lparr>Base := (Base s)\<lparr>MessageQueue := q\<rparr>, Current := Some w,
                         Dropped := dropped_by E H w (target (Base s))\<rparr>))
          else None
      | Some w \<Rightarrow>
          (case Dropped s of
             p # ps \<Rightarrow>
               if \<not> Stopping s then
                 Some (s\<lparr>Base := store_console p (destroy_send QC (worker E) (console_at p s)) (Base s),
                         Stopping := True\<rparr>)
               else if RunThread (console_at p s) then None
               else Some (s\<lparr>Dropped := ps, Stopping := False\<rparr>)
           | [] \<Rightarrow>
               (case run_base E H w (target (Base s)) of
                  Inl e \<Rightarrow> Some (s\<lparr>Terminated := True\<rparr>)
                | Inr t \<Rightarrow> Some (s\<lparr>Base := (Base s)\<lparr>target := t\<rparr>, Current := None\<rparr>))))"

text \<open>One iteration of the worker of the console handler at \<open>p\<close>; what it prints goes out.\<close>

definition console_next ::
  "'c console_queue \<Rightarrow> nat \<Rightarrow> ('q, 'c, 'a) console_logger \<Rightarrow> ('q, 'c, 'a) console_logger option" where
  "console_next QC p s =
     (if RunThread (console_at p s) then
        (case ThreadFunction QC run_console 1 (console_at p s) of
           Inl e \<Rightarrow> Some (s\<lparr>Terminated := True\<rparr>)
         | Inr c \<Rightarrow> Some (s\<lparr>Base := store_console p c (Base s),
             Out := Out s @ drop (length (Stdout (target (console_at p s)))) (Stdout (target c))\<rparr>))
      else None)"

text \<open>A schedule says which thread is next; a thread that has to wait stays where it is.\<close>

datatype actor = Client | BaseWorker | ConsoleWorker nat

fun actor_next ::
  "('q, 'a) base_queue \<Rightarrow> 'a platform \<Rightarrow> 'c console_queue \<Rightarrow> 'c console handler_ops \<Rightarrow> nat \<Rightarrow> actor
     \<Rightarrow> ('q, 'c, 'a) console_logger \<Rightarrow> ('q, 'c, 'a) console_logger option" where
  "actor_next Q E QC H thr Client s =
     (case Todo s of
        [] \<Rightarrow> None
      | x # xs \<Rightarrow> map_option (\<lambda>s'. s'\<lparr>Todo := xs\<rparr>) (client_next Q QC thr x s))"
| "actor_next Q E QC H thr BaseWorker s = base_next Q E QC H s"
| "actor_next Q E QC H thr (ConsoleWorker p) s = console_next QC p s"

fun run_schedule ::
  "('q, 'a) base_queue \<Rightarrow> 'a platform \<Rightarrow> 'c console_queue \<Rightarrow> 'c console handler_ops \<Rightarrow> nat \<Rightarrow> actor list
     \<Rightarrow> ('q, 'c, 'a) console_logger \<Rightarrow> ('q, 'c, 'a) console_logger" where
  "run_schedule Q E QC H thr [] s = s"
| "run_schedule Q E QC H thr (a # as) s =
     run_schedule Q E QC H thr as (case actor_next Q E QC H thr a s of None \<Rightarrow> s | Some s' \<Rightarrow> s')"

section \<open>The program\<close>

text \<open>
  The client logs, replaces the console handler (object 0, created by the constructor of the
  logger) by object 1 with a parser of its own, logs again and destroys the logger.
\<close>

definition replace_program :: "(Severity \<times> string) list \<Rightarrow> parser \<Rightarrow> (Severity \<times> string) list \<Rightarrow> client_op list" where
  "replace_program ls f ls' =
     map (\<lambda>(Level, Message). RLog Level Message) ls @ [RSetParser 1 f, RAdd 1]
     @ map (\<lambda>(Level, Message). RLog Level Message) ls' @ [RClear 0, RAwait 0, RDestroy, RJoin]"

definition log_program :: "(Severity \<times> string) list \<Rightarrow> client_op list" where
  "log_program ls = map (\<lambda>(Level, Message). RLog Level Message) ls @ [RClear 0, RAwait 0, RDestroy, RJoin]"

text \<open>Both programs: with (\<open>b\<close>) and without the replacement.\<close>

definition console_program :: "bool \<Rightarrow> (Severity \<times> string) list \<Rightarrow> parser \<Rightarrow> (Severity \<times> string) list \<Rightarrow> client_op list" where
  "console_program b ls f ls' =
     map (\<lambda>(Level, Message). RLog Level Message) ls
     @ (if b then [RSetParser 1 f, RAdd 1] @ map (\<lambda>(Level, Message). RLog Level Message) ls' else [])
     @ [RClear 0, RAwait 0, RDestroy, RJoin]"

lemma program_eq:
  "replace_program ls f ls' = console_program True ls f ls'" "log_program ls = console_program False ls f ls'"
  by (simp_all add: replace_program_def log_program_def console_program_def)

definition console_logger_start ::
  "('q, 'a) base_queue \<Rightarrow> 'q \<Rightarrow> 'c \<Rightarrow> nat \<Rightarrow> client_op list \<Rightarrow> ('q, 'c, 'a) console_logger" where
  "console_logger_start Q q0 c0 thr xs =
     \<lparr>Todo = xs, Base = Logger Q q0 (\<lambda>_. ConsoleInterface c0) thr 0, Current = None, Dropped = [],
      Stopping = False, Out = [], Terminated = False\<rparr>"

definition static_parser :: "string \<Rightarrow> parser" where
  "static_parser t = (\<lambda>_. Inr t)"

definition line_of :: "Severity \<times> string \<Rightarrow> string" where
  "line_of l = sevToStr ! nat (int_of_severity (fst l)) @ '': '' @ snd l @ newline"

definition ReplaceConsoleInterface :: "client_op list" where
  "ReplaceConsoleInterface =
     replace_program [(Error, ''Some error string.'')] (static_parser ''Static string'')
       [(Error, ''Some other error string.'')]"

text \<open>\<open>StdString.find(s)\<close> of the test; \<open>npos\<close> is \<open>None\<close>.\<close>

fun find_text :: "string \<Rightarrow> string \<Rightarrow> nat option" where
  "find_text s [] = (if s = [] then Some 0 else None)"
| "find_text s (c # cs) = (if prefix s (c # cs) then Some 0 else map_option Suc (find_text s cs))"

text \<open>The expectations of the test on what was captured; \<open>npos\<close> is the largest \<open>size_t\<close>.\<close>

definition position :: "string \<Rightarrow> string \<Rightarrow> nat" where
  "position s StdString = (case find_text s StdString of None \<Rightarrow> 2 ^ 64 - 1 | Some i \<Rightarrow> i)"

definition ReplaceConsoleInterface_expectations :: "string \<Rightarrow> bool" where
  "ReplaceConsoleInterface_expectations StdString \<longleftrightarrow>
     find_text ''Some error string.'' StdString \<noteq> None
     \<and> find_text ''Some other error string.'' StdString = None
     \<and> find_text ''Static string'' StdString \<noteq> None
     \<and> position ''Static string'' StdString > position ''Some error string.'' StdString"

section \<open>What a console handler has done\<close>

definition message_sig :: "LogMessage \<Rightarrow> Severity \<times> string" where
  "message_sig m = (SeverityLevel m, MessageString m)"

definition plain_lines :: "(Severity \<times> string) list \<Rightarrow> string" where
  "plain_lines ls = concat (map line_of ls)"

text \<open>The first \<open>k\<close> lines in the default format, the others by the new parser.\<close>

definition mixed_lines :: "string \<Rightarrow> nat \<Rightarrow> (Severity \<times> string) list \<Rightarrow> string" where
  "mixed_lines t k ls = plain_lines (take k ls) @ concat (replicate (length ls - k) (t @ newline))"

definition good_line :: "Severity \<times> string \<Rightarrow> bool" where
  "good_line l \<longleftrightarrow> known_severity (fst l) \<and> nul \<notin> set (snd l)"

text \<open>The output of a handler that has run the messages \<open>ls\<close>; \<open>can\<close>: it may have the new parser.\<close>

definition printing :: "string \<Rightarrow> bool \<Rightarrow> (Severity \<times> string) list \<Rightarrow> console_state \<Rightarrow> bool" where
  "printing t can ls s \<longleftrightarrow>
     MessageParser s = Some ConsoleStringCreator \<and> Stdout s = plain_lines ls
     \<or> can \<and> MessageParser s = Some (static_parser t) \<and> (\<exists>k \<le> length ls. Stdout s = mixed_lines t k ls)"

text \<open>
  What other threads have queued for it: nothing but the new parser, only thread \<open>thr\<close> and
  only if \<open>can\<close>.
\<close>

definition foreign_work :: "('c \<Rightarrow> nat \<Rightarrow> console_work task list) \<Rightarrow> nat \<Rightarrow> nat \<Rightarrow> string \<Rightarrow> bool \<Rightarrow> 'c \<Rightarrow> bool" where
  "foreign_work pend wk thr t can q \<longleftrightarrow>
     (thr \<noteq> wk \<longrightarrow> set (pend q thr) \<subseteq> (if can then {Work (SetParser (Some (static_parser t)))} else {}))
     \<and> (\<forall>p. p \<noteq> wk \<and> p \<noteq> thr \<longrightarrow> pend q p = [])"

text \<open>
  The handler \<open>c\<close> was sent the messages \<open>ls\<close> by thread \<open>wk\<close>, and a stop item after them if
  \<open>stop\<close>.
\<close>

definition console_ok ::
  "('c \<Rightarrow> nat \<Rightarrow> console_work task list) \<Rightarrow> nat \<Rightarrow> nat \<Rightarrow> string \<Rightarrow> bool \<Rightarrow> bool
     \<Rightarrow> (Severity \<times> string) list \<Rightarrow> 'c console \<Rightarrow> bool" where
  "console_ok pend wk thr t can stop ls c \<longleftrightarrow>
     (\<exists>printed rest. ls = printed @ map message_sig rest
      \<and> pend (MessageQueue c) wk = map (\<lambda>m. Work (PrintMessage m)) rest @ (if stop \<and> RunThread c then [StopTask] else [])
      \<and> (\<not> RunThread c \<longrightarrow> stop \<and> rest = [])
      \<and> foreign_work pend wk thr t can (MessageQueue c) \<and> printing t can printed (target c))"

lemma console_okI:
  assumes "ls = printed @ map message_sig rest"
    and "pend (MessageQueue c) wk = map (\<lambda>m. Work (PrintMessage m)) rest @ (if stop \<and> RunThread c then [StopTask] else [])"
    and "\<not> RunThread c \<Longrightarrow> stop \<and> rest = []"
    and "foreign_work pend wk thr t can (MessageQueue c)" and "printing t can printed (target c)"
  shows "console_ok pend wk thr t can stop ls c"
  unfolding console_ok_def using assms by blast

lemma console_okE:
  assumes "console_ok pend wk thr t can stop ls c"
  obtains printed rest where "ls = printed @ map message_sig rest"
    and "pend (MessageQueue c) wk = map (\<lambda>m. Work (PrintMessage m)) rest @ (if stop \<and> RunThread c then [StopTask] else [])"
    and "\<not> RunThread c \<longrightarrow> stop \<and> rest = []"
    and "foreign_work pend wk thr t can (MessageQueue c)" and "printing t can printed (target c)"
  using assms unfolding console_ok_def by blast

lemma console_line_sig: "console_line m = line_of (message_sig m)"
  by (simp add: console_line_def line_of_def message_sig_def)

lemma plain_lines_simps [simp]:
  "plain_lines [] = []" "plain_lines (ls @ ls') = plain_lines ls @ plain_lines ls'"
  "plain_lines (l # ls) = line_of l @ plain_lines ls"
  by (simp_all add: plain_lines_def)

lemma mixed_lines_snoc:
  assumes "k \<le> length ls"
  shows "mixed_lines t k (ls @ [l]) = mixed_lines t k ls @ t @ newline"
proof -
  have "replicate (n + 1) x = replicate n x @ [x]" for n and x :: string
    by (simp add: replicate_append_same)
  then show ?thesis using assms by (simp add: mixed_lines_def Suc_diff_le flip: replicate_append_same)
qed

lemma mixed_lines_all: "mixed_lines t (length ls) ls = plain_lines ls"
  by (simp add: mixed_lines_def)

lemma console_ok_add:
  assumes "queue_contract QC pend" and "console_ok pend wk thr t can False ls c"
  shows "\<exists>c'. console_addMessage QC wk m c = Inr c' \<and> console_ok pend wk thr t can False (ls @ [message_sig m]) c'
    \<and> Stdout (target c') = Stdout (target c)"
proof -
  let ?c = "SendWork QC wk (Work (PrintMessage m)) c"
  have q: "pend (MessageQueue ?c) = (pend (MessageQueue c))(wk := pend (MessageQueue c) wk @ [Work (PrintMessage m)])"
    by (simp add: SendWork_def contract_enqueue [OF assms(1)])
  have f: "RunThread ?c = RunThread c" "target ?c = target c" by (simp_all add: SendWork_def)
  obtain printed rest where pr: "ls = printed @ map message_sig rest"
    "pend (MessageQueue c) wk = map (\<lambda>m. Work (PrintMessage m)) rest" "RunThread c"
    "foreign_work pend wk thr t can (MessageQueue c)" "printing t can printed (target c)"
    using assms(2) by (elim console_okE) auto
  have "console_ok pend wk thr t can False (ls @ [message_sig m]) ?c"
    by (rule console_okI [of _ printed "rest @ [m]"]) (use q f pr in \<open>simp_all add: foreign_work_def\<close>)
  with f(2) show ?thesis by (simp add: console_addMessage_def)
qed

lemma console_ok_stop:
  assumes "queue_contract QC pend" and "console_ok pend wk thr t can False ls c"
  shows "console_ok pend wk thr t can True ls (destroy_send QC wk c)"
proof -
  have q: "pend (MessageQueue (destroy_send QC wk c)) = (pend (MessageQueue c))(wk := pend (MessageQueue c) wk @ [StopTask])"
    by (simp add: destroy_send_def SendWork_def contract_enqueue [OF assms(1)])
  have f: "RunThread (destroy_send QC wk c) = RunThread c" "target (destroy_send QC wk c) = target c"
    by (simp_all add: destroy_send_def SendWork_def)
  obtain printed rest where pr: "ls = printed @ map message_sig rest"
    "pend (MessageQueue c) wk = map (\<lambda>m. Work (PrintMessage m)) rest" "RunThread c"
    "foreign_work pend wk thr t can (MessageQueue c)" "printing t can printed (target c)"
    using assms(2) by (elim console_okE) auto
  show ?thesis
    by (rule console_okI [of _ printed rest]) (use q f pr in \<open>simp_all add: foreign_work_def\<close>)
qed

lemma console_ok_parser:
  assumes "queue_contract QC pend" and "console_ok pend wk thr t True stop ls c" and "thr \<noteq> wk"
  shows "console_ok pend wk thr t True stop ls (console_setParser QC thr (Some (static_parser t)) c)"
proof -
  let ?w = "Work (SetParser (Some (static_parser t)))" and ?c = "console_setParser QC thr (Some (static_parser t)) c"
  have q: "pend (MessageQueue ?c) = (pend (MessageQueue c))(thr := pend (MessageQueue c) thr @ [?w])"
    by (simp add: console_setParser_def SendWork_def contract_enqueue [OF assms(1)])
  have f: "RunThread ?c = RunThread c" "target ?c = target c"
    by (simp_all add: console_setParser_def SendWork_def)
  show ?thesis
    using assms(2)
  proof (rule console_okE)
    fix printed rest
    assume "ls = printed @ map message_sig rest"
      "pend (MessageQueue c) wk = map (\<lambda>m. Work (PrintMessage m)) rest @ (if stop \<and> RunThread c then [StopTask] else [])"
      "\<not> RunThread c \<longrightarrow> stop \<and> rest = []"
      "foreign_work pend wk thr t True (MessageQueue c)" "printing t True printed (target c)"
    then show ?thesis
      by (intro console_okI [of _ printed rest]) (use q f assms(3) in \<open>simp_all add: foreign_work_def\<close>)
  qed
qed

text \<open>One iteration of the handler's worker: nothing is thrown, output is only appended.\<close>

lemma printing_message:
  assumes "printing t can ls s" and "good_line (message_sig m)" and "nul \<notin> set t"
  shows "\<exists>s' x. run_console (PrintMessage m) s = Inr s' \<and> printing t can (ls @ [message_sig m]) s'
    \<and> Stdout s' = Stdout s @ x"
  using assms(1) unfolding printing_def [of t can ls s]
proof (elim disjE conjE exE)
  assume s: "MessageParser s = Some ConsoleStringCreator" "Stdout s = plain_lines ls"
  have "printable m" using assms(2) by (simp add: good_line_def message_sig_def printable_def)
  from run_console_print [OF s(1) this] s show ?thesis
    by (simp add: printing_def console_line_sig del: run_console.simps)
next
  fix k
  assume s: can "MessageParser s = Some (static_parser t)" "k \<le> length ls" "Stdout s = mixed_lines t k ls"
  then have "run_console (PrintMessage m) s = Inr (s\<lparr>Stdout := Stdout s @ t @ newline\<rparr>)"
    using assms(3) by (simp add: static_parser_def)
  moreover have "printing t can (ls @ [message_sig m]) (s\<lparr>Stdout := Stdout s @ t @ newline\<rparr>)"
    using s mixed_lines_snoc [OF s(3), of t "message_sig m"] by (auto simp: printing_def intro!: exI [of _ k])
  ultimately show ?thesis by simp
qed

lemma printing_parser:
  assumes "printing t True ls s"
  shows "printing t True ls (s\<lparr>MessageParser := Some (static_parser t)\<rparr>)"
proof -
  have "\<exists>k \<le> length ls. Stdout s = mixed_lines t k ls"
    using assms mixed_lines_all [of t ls] unfolding printing_def by (metis order_refl)
  then show ?thesis by (simp add: printing_def)
qed

lemma console_ok_iteration:
  assumes "queue_contract QC pend" and "console_ok pend wk thr t can stop ls c" and "RunThread c"
    and "\<forall>l \<in> set ls. good_line l" and "nul \<notin> set t"
  shows "\<exists>c' x. ThreadFunction QC run_console 1 c = Inr c' \<and> console_ok pend wk thr t can stop ls c'
    \<and> Stdout (target c') = Stdout (target c) @ x"
  using assms(2)
proof (rule console_okE)
  fix printed rest
  assume inv: "ls = printed @ map message_sig rest"
    "pend (MessageQueue c) wk = map (\<lambda>m. Work (PrintMessage m)) rest @ (if stop \<and> RunThread c then [StopTask] else [])"
    "\<not> RunThread c \<longrightarrow> stop \<and> rest = []"
    "foreign_work pend wk thr t can (MessageQueue c)" "printing t can printed (target c)"
  obtain r q where rq: "q_try_dequeue QC (MessageQueue c) = (r, q)" by fastforce
  show ?thesis
  proof (cases r)
    case None
    then have "pend q = pend (MessageQueue c)" using rq contract_none [OF assms(1)] by blast
    with inv have "console_ok pend wk thr t can stop ls (c\<lparr>MessageQueue := q\<rparr>)"
      by (intro console_okI [of _ printed rest]) (simp_all add: foreign_work_def)
    with None rq assms(3) show ?thesis by simp
  next
    case (Some w)
    obtain p ws where pw: "pend (MessageQueue c) p = w # ws" "pend q = (pend (MessageQueue c))(p := ws)"
      using contract_dequeue [OF assms(1)] rq Some by blast
    show ?thesis
    proof (cases "p = wk")
      case False
      then have "p = thr" using inv(4) pw(1) unfolding foreign_work_def by auto
      with False inv(4) have "set (w # ws) \<subseteq> (if can then {Work (SetParser (Some (static_parser t)))} else {})"
        unfolding foreign_work_def pw(1) [symmetric] by blast
      then have w: can "w = Work (SetParser (Some (static_parser t)))"
        "set ws \<subseteq> {Work (SetParser (Some (static_parser t)))}" by (auto split: if_splits)
      let ?s = "(target c)\<lparr>MessageParser := Some (static_parser t)\<rparr>"
      have p': "printing t can printed ?s" using printing_parser inv(5) w(1) by simp
      have "console_ok pend wk thr t can stop ls (c\<lparr>MessageQueue := q, target := ?s\<rparr>)"
        using inv p' w pw False \<open>p = thr\<close> assms(3)
        by (intro console_okI [of _ printed rest]) (simp_all add: foreign_work_def)
      with Some rq assms(3) w(2) show ?thesis by (simp add: setMessageStringCreatorFunction_def)
    next
      case True
      show ?thesis
      proof (cases rest)
        case Nil
        then have "stop" "w = StopTask" "ws = []" using inv(2) pw(1) True by (auto split: if_splits)
        moreover from this have "console_ok pend wk thr t can stop ls (c\<lparr>MessageQueue := q, RunThread := False\<rparr>)"
          using inv Nil pw True by (intro console_okI [of _ printed "[]"]) (simp_all add: foreign_work_def)
        ultimately show ?thesis using Some rq assms(3) by simp
      next
        case (Cons m ms)
        then have w: "w = Work (PrintMessage m)"
          "ws = map (\<lambda>m. Work (PrintMessage m)) ms @ (if stop \<and> RunThread c then [StopTask] else [])"
          using inv(2) pw(1) True by auto
        have "good_line (message_sig m)" using assms(4) inv(1) Cons by simp
        from printing_message [OF inv(5) this assms(5)] obtain s x where
          s: "run_console (PrintMessage m) (target c) = Inr s" "printing t can (printed @ [message_sig m]) s"
            "Stdout s = Stdout (target c) @ x" by blast
        have "console_ok pend wk thr t can stop ls (c\<lparr>MessageQueue := q, target := s\<rparr>)"
          using inv s(2) w pw True Cons assms(3)
          by (intro console_okI [of _ "printed @ [message_sig m]" ms]) (simp_all add: foreign_work_def)
        with Some rq assms(3) w(1) s show ?thesis by (simp del: run_console.simps)
      qed
    qed
  qed
qed

section \<open>The work of the logger\<close>

fun client_works :: "nat \<Rightarrow> client_op \<Rightarrow> 'a base_work list" where
  "client_works thr (RLog Level Message) = (if Level \<le> Notice then [LogWork Level Message [] thr] else [])"
| "client_works thr (RAdd p) = [ReplaceHandler p]"
| "client_works thr (RClear k) = [ClearHandlers k]"
| "client_works thr _ = []"

definition log_works :: "nat \<Rightarrow> (Severity \<times> string) list \<Rightarrow> 'a base_work list" where
  "log_works thr ls = map (\<lambda>l. LogWork (fst l) (snd l) [] thr) ls"

definition full_work :: "bool \<Rightarrow> nat \<Rightarrow> (Severity \<times> string) list \<Rightarrow> (Severity \<times> string) list \<Rightarrow> 'a base_work list" where
  "full_work b thr ls ls' =
     [InitBase, ReplaceHandler 0] @ log_works thr ls @ (if b then [ReplaceHandler 1] @ log_works thr ls' else [])
     @ [ClearHandlers 0]"

definition passing :: "(Severity \<times> string) list \<Rightarrow> (Severity \<times> string) list" where
  "passing ls = filter (\<lambda>l. fst l \<le> Notice) ls"

lemma logged_works:
  "concat (map (client_works thr) (map (\<lambda>(Level, Message). RLog Level Message) xs)) = log_works thr (passing xs)"
  by (induction xs) (auto simp: log_works_def passing_def)

lemma program_works:
  "[InitBase, ReplaceHandler 0] @ concat (map (client_works thr) (console_program b ls f ls')) =
     full_work b thr (passing ls) (passing ls')"
  by (simp add: console_program_def full_work_def logged_works del: map_map)

text \<open>The registered handlers after some work, and the messages a handler was sent.\<close>

fun handlers_after :: "nat list \<Rightarrow> 'a base_work list \<Rightarrow> nat list" where
  "handlers_after hs [] = hs"
| "handlers_after hs (ReplaceHandler p # ws) = handlers_after [p] ws"
| "handlers_after hs (ClearHandlers k # ws) = handlers_after [] ws"
| "handlers_after hs (_ # ws) = handlers_after hs ws"

fun sent_to :: "nat \<Rightarrow> nat list \<Rightarrow> 'a base_work list \<Rightarrow> (Severity \<times> string) list" where
  "sent_to p hs [] = []"
| "sent_to p hs (ReplaceHandler q # ws) = sent_to p [q] ws"
| "sent_to p hs (ClearHandlers k # ws) = sent_to p [] ws"
| "sent_to p hs (LogWork Level Message fs thr # ws) = (if p \<in> set hs then [(Level, Message)] else []) @ sent_to p hs ws"
| "sent_to p hs (_ # ws) = sent_to p hs ws"

lemma handlers_after_append [simp]:
  "handlers_after hs (xs @ ys) = handlers_after (handlers_after hs xs) ys"
  by (induction hs xs rule: handlers_after.induct) auto

lemma sent_to_append [simp]:
  "sent_to p hs (xs @ ys) = sent_to p hs xs @ sent_to p (handlers_after hs xs) ys"
  by (induction hs xs rule: handlers_after.induct) auto

lemma log_works_effect [simp]:
  "handlers_after hs (log_works thr ls) = hs"
  "sent_to p hs (log_works thr ls) = (if p \<in> set hs then ls else [])"
  by (induction ls) (auto simp: log_works_def)

lemma log_works_simps [simp]:
  "log_works thr [] = []" "log_works thr (l # ls) = LogWork (fst l) (snd l) [] thr # log_works thr ls"
  "log_works thr (ls @ ls') = log_works thr ls @ log_works thr ls'"
  "ReplaceHandler p \<notin> set (log_works thr ls)" "ClearHandlers k \<notin> set (log_works thr ls)"
  by (auto simp: log_works_def)

lemma log_works_split:
  assumes "log_works thr ls = us @ w # vs"
  obtains l1 l l2 where "ls = l1 @ l # l2" "us = log_works thr l1" "w = LogWork (fst l) (snd l) [] thr"
  using assms unfolding log_works_def by (auto simp: map_eq_append_conv map_eq_Cons_conv)

lemma append_split:
  "as @ bs = us @ w # vs \<Longrightarrow> (\<exists>ts. as = us @ w # ts) \<or> (\<exists>ts. us = as @ ts \<and> bs = ts @ w # vs)"
  by (auto simp: append_eq_append_conv2 append_eq_Cons_conv)

text \<open>Where in the work of the program an item stands.\<close>

lemma full_work_split:
  assumes "full_work b thr ls ls' = xs @ w # ys"
  obtains (init) "w = InitBase" "xs = []"
  | (first) "w = ReplaceHandler 0" "xs = [InitBase]"
  | (log) l1 l l2 where "ls = l1 @ l # l2" "w = LogWork (fst l) (snd l) [] thr"
      "xs = [InitBase, ReplaceHandler 0] @ log_works thr l1"
  | (replace) "w = ReplaceHandler 1" "xs = [InitBase, ReplaceHandler 0] @ log_works thr ls" b
  | (log') l1 l l2 where "ls' = l1 @ l # l2" "w = LogWork (fst l) (snd l) [] thr"
      "xs = [InitBase, ReplaceHandler 0] @ log_works thr ls @ [ReplaceHandler 1] @ log_works thr l1" b
  | (clear) "w = ClearHandlers 0"
      "xs = [InitBase, ReplaceHandler 0] @ log_works thr ls @ (if b then [ReplaceHandler 1] @ log_works thr ls' else [])"
proof -
  let ?mid = "(if b then [ReplaceHandler 1] @ log_works thr ls' else []) @ [ClearHandlers 0]"
  consider "xs = []" "w = InitBase" | "xs = [InitBase]" "w = ReplaceHandler 0"
    | zs where "xs = [InitBase, ReplaceHandler 0] @ zs" "log_works thr ls @ ?mid = zs @ w # ys"
    using assms unfolding full_work_def by (auto simp: Cons_eq_append_conv)
  then show ?thesis
  proof cases
    case (3 zs)
    from 3(2) consider us where "log_works thr ls = zs @ w # us"
      | us where "zs = log_works thr ls @ us" "?mid = us @ w # ys"
      using append_split [of "log_works thr ls"] by blast
    then show ?thesis
    proof cases
      case (1 us)
      show ?thesis by (rule log_works_split [OF 1]) (rule log; use 3(1) in simp)
    next
      case (2 us)
      show ?thesis
      proof (cases b)
        case False
        with 2 3(1) clear show ?thesis by (auto simp: Cons_eq_append_conv)
      next
        case True
        from 2(2) True consider "us = []" "w = ReplaceHandler 1"
          | vs where "us = ReplaceHandler 1 # vs" "log_works thr ls' @ [ClearHandlers 0] = vs @ w # ys"
          by (auto simp: Cons_eq_append_conv)
        then show ?thesis
        proof cases
          case 1
          with 2 3(1) replace True show ?thesis by simp
        next
          case b: (2 vs)
          from b(2) consider ts where "log_works thr ls' = vs @ w # ts" | "vs = log_works thr ls'" "w = ClearHandlers 0"
            using append_split [OF b(2)] by (auto simp: Cons_eq_append_conv)
          then show ?thesis
          proof cases
            case (1 ts)
            show ?thesis by (rule log_works_split [OF 1]) (rule log'; use 3(1) \<open>zs = _\<close> b(1) True in simp)
          next
            case 2
            with 3(1) \<open>zs = _\<close> b(1) True clear show ?thesis by simp
          qed
        qed
      qed
    qed
  qed (use init first in auto)
qed

section \<open>Invariant\<close>

text \<open>
  The closure that drops the handler at \<open>p\<close>, and whether its stop item has been sent. (Without a
  replacement no closure drops handler 1, which is then never registered.)
\<close>

definition killer :: "bool \<Rightarrow> nat \<Rightarrow> 'a base_work option" where
  "killer b p = (if p = 0 then Some (if b then ReplaceHandler 1 else ClearHandlers 0)
     else if p = 1 then Some (if b then ClearHandlers 0 else ReplaceHandler 1) else None)"

definition stop_sent :: "bool \<Rightarrow> 'a base_work list \<Rightarrow> nat \<Rightarrow> ('q, 'c, 'a) console_logger \<Rightarrow> bool" where
  "stop_sent b fin p s \<longleftrightarrow> p \<le> 1
     \<and> (killer b p \<in> Some ` set fin \<or> Current s = killer b p \<and> (Dropped s = [] \<or> Stopping s))"

definition joined :: "bool \<Rightarrow> 'a base_work list \<Rightarrow> nat \<Rightarrow> ('q, 'c, 'a) console_logger \<Rightarrow> bool" where
  "joined b fin p s \<longleftrightarrow> p \<le> 1
     \<and> (killer b p \<in> Some ` set fin \<or> Current s = killer b p \<and> Dropped s = [])"

definition current :: "('q, 'c, 'a) console_logger \<Rightarrow> 'a base_work list" where
  "current s = (case Current s of None \<Rightarrow> [] | Some w \<Rightarrow> [w])"

text \<open>
  The client has done \<open>did\<close>; of the work of the logger, \<open>fin\<close> is complete and \<open>pending\<close> is
  queued.
\<close>

definition replace_inv ::
  "bool \<Rightarrow> ('q \<Rightarrow> nat \<Rightarrow> 'a base_work task list) \<Rightarrow> ('c \<Rightarrow> nat \<Rightarrow> console_work task list) \<Rightarrow> nat \<Rightarrow> nat
     \<Rightarrow> client_op list \<Rightarrow> string \<Rightarrow> client_op list \<Rightarrow> 'a base_work list \<Rightarrow> 'a base_work list
     \<Rightarrow> ('q, 'c, 'a) console_logger \<Rightarrow> bool" where
  "replace_inv b pend cpend wk thr prog t did fin pending s \<longleftrightarrow>
     prog = did @ Todo s
     \<and> [InitBase, ReplaceHandler 0] @ concat (map (client_works thr) did) = fin @ current s @ pending
     \<and> pend (MessageQueue (Base s)) = (\<lambda>_. [])(thr := map Work pending @
         (if RDestroy \<in> set did \<and> RunThread (Base s) then [StopTask] else []))
     \<and> (\<not> RunThread (Base s) \<longrightarrow> RDestroy \<in> set did \<and> pending = [] \<and> Current s = None)
     \<and> Handlers (target (Base s)) = handlers_after [] fin
     \<and> MinSeverity (target (Base s)) = Notice
     \<and> (check_passed 0 (target (Base s)) \<noteq> None \<longleftrightarrow> ClearHandlers 0 \<in> set fin)
     \<and> (RAwait 0 \<in> set did \<longrightarrow> ClearHandlers 0 \<in> set fin)
     \<and> (\<forall>p. console_ok cpend wk thr t (p = 1) (stop_sent b fin p s) (sent_to p [] fin) (console_at p s))
     \<and> (\<forall>p. joined b fin p s \<longrightarrow> \<not> RunThread (console_at p s))
     \<and> (Dropped s = [] \<and> \<not> Stopping s \<or> (\<exists>p. p \<le> 1 \<and> Dropped s = [p] \<and> Current s = killer b p))
     \<and> Out s = Stdout (target (console_at 0 s)) @ Stdout (target (console_at 1 s))
     \<and> \<not> Terminated s"

lemma replace_invD:
  assumes "replace_inv b pend cpend wk thr prog t did fin pending s"
  shows "prog = did @ Todo s"
    and "[InitBase, ReplaceHandler 0] @ concat (map (client_works thr) did) = fin @ current s @ pending"
    and "pend (MessageQueue (Base s)) = (\<lambda>_. [])(thr := map Work pending @
         (if RDestroy \<in> set did \<and> RunThread (Base s) then [StopTask] else []))"
    and "\<not> RunThread (Base s) \<longrightarrow> RDestroy \<in> set did \<and> pending = [] \<and> Current s = None"
    and "Handlers (target (Base s)) = handlers_after [] fin"
    and "MinSeverity (target (Base s)) = Notice"
    and "check_passed 0 (target (Base s)) \<noteq> None \<longleftrightarrow> ClearHandlers 0 \<in> set fin"
    and "RAwait 0 \<in> set did \<longrightarrow> ClearHandlers 0 \<in> set fin"
    and "console_ok cpend wk thr t (p = 1) (stop_sent b fin p s) (sent_to p [] fin) (console_at p s)"
    and "joined b fin p s \<longrightarrow> \<not> RunThread (console_at p s)"
    and "Dropped s = [] \<and> \<not> Stopping s \<or> (\<exists>p. p \<le> 1 \<and> Dropped s = [p] \<and> Current s = killer b p)"
    and "Out s = Stdout (target (console_at 0 s)) @ Stdout (target (console_at 1 s))"
    and "\<not> Terminated s"
  using assms unfolding replace_inv_def by simp_all

lemma killer_None [simp]: "killer b p = None \<longleftrightarrow> Suc 0 < p" "None = killer b p \<longleftrightarrow> Suc 0 < p"
  by (auto simp: killer_def)

text \<open>Facts on the program.\<close>

lemma program_ops:
  assumes "x \<in> set (console_program b ls (static_parser t) ls')"
  shows "(\<exists>Level Message. x = RLog Level Message) \<or> x = RSetParser 1 (static_parser t)
    \<or> x = RAdd 1 \<or> x = RClear 0 \<or> x = RAwait 0 \<or> x = RDestroy \<or> x = RJoin"
  using assms by (auto simp: console_program_def split: if_splits)

lemma split_end:
  assumes "did @ x # xs = pre @ [a, b]" and "a \<notin> set pre"
  shows "a \<in> set did \<Longrightarrow> x = b" and "x = a \<Longrightarrow> a \<noteq> b \<Longrightarrow> a \<notin> set did"
proof -
  from append_split [OF assms(1) [symmetric]]
  have "(\<exists>ts. pre = did @ x # ts) \<or> (did = pre \<and> x = a) \<or> (did = pre @ [a] \<and> x = b)"
  proof (elim disjE exE conjE)
    fix ts
    assume "did = pre @ ts" "[a, b] = ts @ x # xs"
    then show ?thesis by (cases ts) (auto simp: Cons_eq_append_conv)
  qed blast
  then show "a \<in> set did \<Longrightarrow> x = b" "x = a \<Longrightarrow> a \<noteq> b \<Longrightarrow> a \<notin> set did"
    using assms(2) by auto
qed

lemma program_end:
  assumes "console_program b ls f ls' = did @ x # xs"
  shows "RDestroy \<in> set did \<Longrightarrow> x = RJoin" and "x = RDestroy \<Longrightarrow> RDestroy \<notin> set did"
proof -
  let ?pre = "map (\<lambda>(Level, Message). RLog Level Message) ls
     @ (if b then [RSetParser 1 f, RAdd 1] @ map (\<lambda>(Level, Message). RLog Level Message) ls' else []) @ [RClear 0, RAwait 0]"
  have "did @ x # xs = ?pre @ [RDestroy, RJoin]" "RDestroy \<notin> set ?pre"
    using assms by (auto simp: console_program_def split: if_splits)
  note split_end [OF this]
  then show "RDestroy \<in> set did \<Longrightarrow> x = RJoin" "x = RDestroy \<Longrightarrow> RDestroy \<notin> set did" by auto
qed

text \<open>The work of the program so far is a beginning of its full work.\<close>

lemma replace_inv_work:
  assumes "replace_inv b pend cpend wk thr (console_program b ls f ls') t did fin pending s"
  shows "full_work b thr (passing ls) (passing ls') =
    fin @ current s @ pending @ concat (map (client_works thr) (Todo s))"
proof -
  have "console_program b ls f ls' = did @ Todo s"
    "[InitBase, ReplaceHandler 0] @ concat (map (client_works thr) did) = fin @ current s @ pending"
    using assms by (simp_all add: replace_inv_def)
  then have "[InitBase, ReplaceHandler 0] @ concat (map (client_works thr) (console_program b ls f ls')) =
      (fin @ current s @ pending) @ concat (map (client_works thr) (Todo s))"
    by (simp only: map_append concat_append append_assoc [symmetric])
  then show ?thesis unfolding program_works by simp
qed

lemma sent_is_logged:
  fixes fin :: "'a base_work list"
  assumes "full_work b thr ls ls' = fin @ rest"
  shows "\<exists>us vs. ls = sent_to 0 [] fin @ us \<and> ls' = sent_to 1 [] fin @ vs"
    and "p \<noteq> 0 \<Longrightarrow> p \<noteq> 1 \<Longrightarrow> sent_to p [] fin = []"
    and "\<not> b \<Longrightarrow> sent_to 1 [] fin = []"
proof -
  let ?sent = "\<lambda>p. if p = 0 then ls else if p = 1 \<and> b then ls' else []"
  have "sent_to p [] (full_work b thr ls ls' :: 'a base_work list) = ?sent p" for p
    by (simp add: full_work_def)
  then have eq: "sent_to p [] fin @ sent_to p (handlers_after [] fin) rest = ?sent p" for p
    unfolding assms sent_to_append .
  from eq [of 1] show new: "\<not> b \<Longrightarrow> sent_to 1 [] fin = []" by simp
  have "\<exists>vs. ls' = sent_to 1 [] fin @ vs"
  proof (cases b)
    case True
    with eq [of 1] show ?thesis by (intro exI) (simp, rule sym, assumption)
  qed (use new in auto)
  moreover have "\<exists>us. ls = sent_to 0 [] fin @ us" using eq [of 0] by (intro exI) (simp, rule sym, assumption)
  ultimately show "\<exists>us vs. ls = sent_to 0 [] fin @ us \<and> ls' = sent_to 1 [] fin @ vs" by blast
  from eq [of p] show "p \<noteq> 0 \<Longrightarrow> p \<noteq> 1 \<Longrightarrow> sent_to p [] fin = []" by simp
qed

lemma sent_to_new:
  assumes "full_work b thr ls ls' = fin @ rest" and "ReplaceHandler 1 \<notin> set fin"
  shows "sent_to 1 [] fin = []"
proof (cases rest)
  case Nil
  with assms show ?thesis by (auto simp: full_work_def split: if_splits)
next
  case (Cons w ys)
  show ?thesis
    by (rule full_work_split [OF assms(1) [unfolded Cons]]) (use assms(2) in auto)
qed

text \<open>Steps of the client.\<close>

lemma replace_inv_send:
  assumes "queue_contract Q pend" and "replace_inv b pend cpend wk thr prog t did fin pending s"
    and "Todo s = x # xs" and "client_works thr x = [w]" and "RDestroy \<notin> set did" and "x \<noteq> RDestroy" and "x \<noteq> RAwait 0"
  shows "replace_inv b pend cpend wk thr prog t (did @ [x]) fin (pending @ [w])
    (s\<lparr>Base := SendWork Q thr (Work w) (Base s), Todo := xs\<rparr>)"
proof -
  have "pend (MessageQueue (SendWork Q thr (Work w) (Base s))) =
      (pend (MessageQueue (Base s)))(thr := pend (MessageQueue (Base s)) thr @ [Work w])"
    by (simp add: SendWork_def contract_enqueue [OF assms(1)])
  moreover have "RunThread (SendWork Q thr (Work w) (Base s)) = RunThread (Base s)"
    "target (SendWork Q thr (Work w) (Base s)) = target (Base s)" by (simp_all add: SendWork_def)
  ultimately show ?thesis
    using assms(2-) unfolding replace_inv_def
    by (simp add: current_def console_at_def stop_sent_def joined_def)
qed

lemma replace_inv_local:
  fixes s :: "('q, 'c, 'a) console_logger"
  assumes "replace_inv b pend cpend wk thr prog t did fin pending s"
    and "Todo s = x # xs" and "(client_works thr x :: 'a base_work list) = []" and "x \<noteq> RDestroy"
    and "x = RAwait 0 \<Longrightarrow> ClearHandlers 0 \<in> set fin"
  shows "replace_inv b pend cpend wk thr prog t (did @ [x]) fin pending (s\<lparr>Todo := xs\<rparr>)"
  using assms unfolding replace_inv_def
  by (auto simp: current_def console_at_def stop_sent_def joined_def)

lemma store_console_simps [simp]:
  "RunThread (store_console p c b) = RunThread b" "MessageQueue (store_console p c b) = MessageQueue b"
  "target (store_console p c b) = (target b)\<lparr>Store := (Store (target b))(p := c)\<rparr>"
  by (simp_all add: store_console_def)

lemma check_passed_store [simp]: "check_passed k (st\<lparr>Store := f\<rparr>) = check_passed k st"
  by (simp add: check_passed_def)

text \<open>A step that changes only the console handler at \<open>p\<close>.\<close>

lemma replace_inv_console:
  assumes "replace_inv b pend cpend wk thr prog t did fin pending s"
    and "console_ok cpend wk thr t (p = 1) (stop_sent b fin p s) (sent_to p [] fin) c"
    and "RunThread c \<longrightarrow> RunThread (console_at p s)"
    and "out = Stdout (target (if p = 0 then c else console_at 0 s)) @ Stdout (target (if p = 1 then c else console_at 1 s))"
  shows "replace_inv b pend cpend wk thr prog t did fin pending (s\<lparr>Base := store_console p c (Base s), Out := out\<rparr>)"
proof -
  let ?s = "s\<lparr>Base := store_console p c (Base s), Out := out\<rparr>"
  have at: "console_at p' ?s = (if p' = p then c else console_at p' s)" for p'
    by (simp add: console_at_def)
  have st: "stop_sent b fin p' ?s = stop_sent b fin p' s" "joined b fin p' ?s = joined b fin p' s" "current ?s = current s" for p'
    by (simp_all add: stop_sent_def joined_def current_def)
  have c: "\<forall>p'. console_ok cpend wk thr t (p' = 1) (stop_sent b fin p' s) (sent_to p' [] fin) (if p' = p then c else console_at p' s)"
    using assms(1,2) unfolding replace_inv_def by simp
  have j: "\<forall>p'. joined b fin p' s \<longrightarrow> \<not> RunThread (if p' = p then c else console_at p' s)"
    using assms(1,3) unfolding replace_inv_def by auto
  have o: "Out ?s = Stdout (target (if 0 = p then c else console_at 0 s)) @
      Stdout (target (if 1 = p then c else console_at 1 s))"
    using assms(4) by simp
  show ?thesis
    using assms(1) unfolding replace_inv_def at st
    by (elim conjE, intro conjI) (rule c j o | simp)+
qed

lemma replace_inv_destroy:
  assumes "queue_contract Q pend" and "replace_inv b pend cpend wk thr prog t did fin pending s"
    and "Todo s = RDestroy # xs" and "RDestroy \<notin> set did"
  shows "replace_inv b pend cpend wk thr prog t (did @ [RDestroy]) fin pending
    (s\<lparr>Base := destroy_send Q thr (Base s), Todo := xs\<rparr>)"
proof -
  have "pend (MessageQueue (destroy_send Q thr (Base s))) =
      (pend (MessageQueue (Base s)))(thr := pend (MessageQueue (Base s)) thr @ [StopTask])"
    by (simp add: destroy_send_def SendWork_def contract_enqueue [OF assms(1)])
  moreover have "RunThread (destroy_send Q thr (Base s)) = RunThread (Base s)"
    "target (destroy_send Q thr (Base s)) = target (Base s)" by (simp_all add: destroy_send_def SendWork_def)
  moreover have "RunThread (Base s)" using assms(2,4) by (auto simp: replace_inv_def)
  ultimately show ?thesis
    using assms(2-) unfolding replace_inv_def
    by (simp add: current_def console_at_def stop_sent_def joined_def)
qed

lemma replace_inv_client:
  fixes s :: "('q, 'c, 'a) console_logger"
  assumes "queue_contract Q pend" and "queue_contract QC cpend" and "thr \<noteq> wk"
    and inv: "replace_inv b pend cpend wk thr (console_program b ls (static_parser t) ls') t did fin pending s"
    and T: "Todo s = x # xs" and "client_next Q QC thr x s = Some s1"
  shows "\<exists>did pending. replace_inv b pend cpend wk thr (console_program b ls (static_parser t) ls') t did fin pending
    (s1\<lparr>Todo := xs\<rparr>)"
proof -
  have prog: "console_program b ls (static_parser t) ls' = did @ x # xs" using inv T by (simp add: replace_inv_def)
  have D: "RDestroy \<notin> set did" if "x \<noteq> RJoin" using program_end(1) [OF prog] that by blast
  have "x \<in> set (console_program b ls (static_parser t) ls')" unfolding prog by simp
  from program_ops [OF this] consider Level Message where "x = RLog Level Message"
    | "x = RSetParser 1 (static_parser t)" | "x = RAdd 1" | "x = RClear 0" | "x = RAwait 0" | "x = RDestroy" | "x = RJoin"
    by blast
  then show ?thesis
  proof cases
    case (1 Level Message)
    have M: "MinSeverity (target (Base s)) = Notice" using inv by (simp add: replace_inv_def)
    show ?thesis
    proof (cases "Level \<le> Notice")
      case True
      then have "s1 = s\<lparr>Base := SendWork Q thr (Work (LogWork Level Message [] thr)) (Base s)\<rparr>"
        using assms(6) 1 M by (simp add: log_plain_def log_fields_def less_eq_Severity_def)
      with replace_inv_send [OF assms(1) inv T _ D] 1 True show ?thesis by auto
    next
      case False
      then have "s1 = s" using assms(6) 1 M by (simp add: log_plain_def log_fields_def less_eq_Severity_def)
      with replace_inv_local [OF inv T] 1 False show ?thesis by auto
    qed
  next
    case 2
    let ?c = "console_setParser QC thr (Some (static_parser t)) (console_at 1 s)"
    have s1: "s1 = s\<lparr>Base := store_console 1 ?c (Base s)\<rparr>" using assms(6) 2 by simp
    have f: "RunThread ?c = RunThread (console_at 1 s)" "target ?c = target (console_at 1 s)"
      by (simp_all add: console_setParser_def SendWork_def)
    have "console_ok cpend wk thr t (1 = (1::nat)) (stop_sent b fin 1 s) (sent_to 1 [] fin) (console_at 1 s)"
      using inv unfolding replace_inv_def by blast
    then have ok: "console_ok cpend wk thr t (1 = (1::nat)) (stop_sent b fin 1 s) (sent_to 1 [] fin) ?c"
      using console_ok_parser [OF assms(2) _ assms(3)] by simp
    have "Out s = Stdout (target (console_at 0 s)) @ Stdout (target (console_at 1 s))"
      using inv unfolding replace_inv_def by blast
    then have "Out s = Stdout (target (if 1 = (0::nat) then ?c else console_at 0 s)) @
        Stdout (target (if 1 = (1::nat) then ?c else console_at 1 s))" using f by simp
    from replace_inv_console [OF inv ok _ this] f(1)
    have "replace_inv b pend cpend wk thr (console_program b ls (static_parser t) ls') t did fin pending
        (s\<lparr>Base := store_console 1 ?c (Base s), Out := Out s\<rparr>)" by simp
    moreover have "s\<lparr>Base := store_console 1 ?c (Base s), Out := Out s\<rparr> = s1" unfolding s1 by simp
    ultimately have "replace_inv b pend cpend wk thr (console_program b ls (static_parser t) ls') t did fin pending s1"
      by simp
    from replace_inv_local [OF this, of x xs] T 2 s1 show ?thesis by auto
  next
    case 3
    with replace_inv_send [OF assms(1) inv T _ D] assms(6) show ?thesis by (auto simp: Logger_addLogHandler_def)
  next
    case 4
    with replace_inv_send [OF assms(1) inv T _ D] assms(6) show ?thesis by auto
  next
    case 5
    then have "check_passed 0 (target (Base s)) \<noteq> None" "s1 = s" using assms(6) by (auto split: option.splits)
    moreover from this have "ClearHandlers 0 \<in> set fin" using inv unfolding replace_inv_def by blast
    ultimately show ?thesis using replace_inv_local [OF inv T] 5 by auto
  next
    case 6
    with replace_inv_destroy [OF assms(1) inv _ D] T assms(6) show ?thesis by auto
  next
    case 7
    then have "s1 = s" using assms(6) by (auto split: if_splits)
    with replace_inv_local [OF inv T] 7 show ?thesis by auto
  qed
qed

lemma sent_good:
  assumes "replace_inv b pend cpend wk thr (console_program b ls f ls') t did fin pending s"
    and "\<forall>l \<in> set ls \<union> set ls'. good_line l"
  shows "\<forall>l \<in> set (sent_to p [] fin). good_line l"
proof -
  note full = replace_inv_work [OF assms(1)]
  obtain us vs where "passing ls = sent_to 0 [] fin @ us" "passing ls' = sent_to 1 [] fin @ vs"
    using sent_is_logged(1) [OF full] by blast
  then have "set (sent_to 0 [] fin) \<subseteq> set ls" "set (sent_to 1 [] fin) \<subseteq> set ls'"
    unfolding passing_def by (metis Un_subset_iff filter_is_subset set_append)+
  with assms(2) sent_is_logged(2) [OF full, of p] show ?thesis by (cases "p = 0"; cases "p = 1") auto
qed

lemma replace_inv_console_step:
  assumes "queue_contract QC cpend"
    and inv: "replace_inv b pend cpend wk thr (console_program b ls f ls') t did fin pending s"
    and good: "\<forall>l \<in> set ls \<union> set ls'. good_line l" and "nul \<notin> set t"
    and "console_next QC p s = Some s'"
  shows "replace_inv b pend cpend wk thr (console_program b ls f ls') t did fin pending s'"
proof -
  have run: "RunThread (console_at p s)" using assms(5) by (simp add: console_next_def split: if_splits)
  have ok: "console_ok cpend wk thr t (p = 1) (stop_sent b fin p s) (sent_to p [] fin) (console_at p s)" for p
    using inv unfolding replace_inv_def by blast
  note full = replace_inv_work [OF inv]
  note good' = sent_good [OF inv good]
  from console_ok_iteration [OF assms(1) ok run good' assms(4)]
  obtain c x where c: "ThreadFunction QC run_console 1 (console_at p s) = Inr c"
    "console_ok cpend wk thr t (p = 1) (stop_sent b fin p s) (sent_to p [] fin) c"
    "Stdout (target c) = Stdout (target (console_at p s)) @ x" by blast
  have s': "s' = s\<lparr>Base := store_console p c (Base s), Out := Out s @ x\<rparr>"
    using assms(5) run c(1,3) by (simp add: console_next_def del: One_nat_def)
  have out: "Out s = Stdout (target (console_at 0 s)) @ Stdout (target (console_at 1 s))"
    using inv unfolding replace_inv_def by blast
  have quiet: "Stdout (target c') = []"
    if "console_ok cpend wk thr t can stop [] c'" for can stop c'
    using that by (rule console_okE) (auto simp: printing_def mixed_lines_def)
  have "Out s @ x = Stdout (target (if p = 0 then c else console_at 0 s)) @ Stdout (target (if p = 1 then c else console_at 1 s))"
  proof -
    consider "p = 0" | "p = 1" | "p \<noteq> 0" "p \<noteq> 1" by blast
    then show ?thesis
    proof cases
      case 1
      have "\<not> joined b fin 0 s" using inv run 1 unfolding replace_inv_def by blast
      then have "b \<Longrightarrow> ReplaceHandler 1 \<notin> set fin" by (auto simp: joined_def killer_def)
      then have "sent_to 1 [] fin = []" using sent_to_new [OF full] sent_is_logged(3) [OF full] by (cases b) auto
      with quiet [of True _ "console_at 1 s"] ok [of 1] have "Stdout (target (console_at 1 s)) = []" by simp
      with 1 out c(3) show ?thesis by simp
    next
      case 2
      with out c(3) show ?thesis by simp
    next
      case 3
      then have "sent_to p [] fin = []" using sent_is_logged(2) [OF full] by blast
      with quiet c(2) have "Stdout (target c) = []" by metis
      with 3 out c(3) show ?thesis by simp
    qed
  qed
  from replace_inv_console [OF inv c(2) _ this] run s' show ?thesis by simp
qed

text \<open>Steps of the logger's worker.\<close>

lemma console_ops_simps [simp]:
  "hop_is_console (console_ops QC budget) = (\<lambda>_. True)"
  "hop_addMessage (console_ops QC budget) = console_addMessage QC"
  by (simp_all add: console_ops_def)

lemma killer_inj: "p \<le> 1 \<Longrightarrow> p' \<le> 1 \<Longrightarrow> killer b p = killer b p' \<Longrightarrow> p = p'"
  by (auto simp: killer_def split: if_splits)

lemma killer_once:
  assumes "full_work b thr ls ls' = fin @ w # ys" and "killer b p = Some w" and "p \<le> 1"
  shows "w \<notin> set fin"
proof -
  have "w = ReplaceHandler 1 \<or> w = ClearHandlers 0" using assms(2) by (auto simp: killer_def split: if_splits)
  then show ?thesis by (rule disjE) (rule full_work_split [OF assms(1)]; auto)+
qed

lemma dropped_when_taken:
  assumes "full_work b thr ls ls' = fin @ w # ys" and "Handlers st = handlers_after [] fin"
  shows "dropped_by E (console_ops QC budget) w st =
    (if Some w = killer b 0 then [0] else if Some w = killer b 1 then [1] else [])"
  by (rule full_work_split [OF assms(1)])
    (use assms(2) in \<open>auto simp: dropped_by_def killer_def add_or_replace_def notify_check_def
        split: sum.splits\<close>)

lemma replace_inv_take:
  assumes "queue_contract Q pend"
    and inv: "replace_inv b pend cpend wk thr (console_program b ls f ls') t did fin pending s"
    and N: "Current s = None" and R: "RunThread (Base s)"
    and dq: "q_try_dequeue Q (MessageQueue (Base s)) = (Some (Work w), q)"
  shows "\<exists>vs. replace_inv b pend cpend wk thr (console_program b ls f ls') t did fin vs
    (s\<lparr>Base := (Base s)\<lparr>MessageQueue := q\<rparr>, Current := Some w,
       Dropped := dropped_by E (console_ops QC budget) w (target (Base s))\<rparr>)"
proof -
  obtain p ts where p: "pend (MessageQueue (Base s)) p = Work w # ts" "pend q = (pend (MessageQueue (Base s)))(p := ts)"
    using contract_dequeue [OF assms(1) dq] by blast
  have P: "pend (MessageQueue (Base s)) = (\<lambda>_. [])(thr := map Work pending @
         (if RDestroy \<in> set did \<and> RunThread (Base s) then [StopTask] else []))"
    by (rule replace_invD(3) [OF inv])
  then have "p = thr" using p(1) by (auto split: if_splits)
  with p P obtain vs where vs: "pending = w # vs"
    "pend q = (\<lambda>_. [])(thr := map Work vs @ (if RDestroy \<in> set did \<and> RunThread (Base s) then [StopTask] else []))"
    by (cases pending) (auto split: if_splits)
  have idle: "Dropped s = []" "\<not> Stopping s"
    using replace_invD(11) [OF inv] N by auto
  have full: "full_work b thr (passing ls) (passing ls') = fin @ w # (vs @ concat (map (client_works thr) (Todo s)))"
    using replace_inv_work [OF inv] N vs(1) by (simp add: current_def)
  have H: "Handlers (target (Base s)) = handlers_after [] fin" using inv unfolding replace_inv_def by blast
  note d = dropped_when_taken [OF full H, of E QC budget]
  let ?s = "s\<lparr>Base := (Base s)\<lparr>MessageQueue := q\<rparr>, Current := Some w,
       Dropped := dropped_by E (console_ops QC budget) w (target (Base s))\<rparr>"
  have at: "console_at p' ?s = console_at p' s" for p' by (simp add: console_at_def)
  have le: "p' \<le> 1 \<longleftrightarrow> p' = 0 \<or> p' = 1" for p' :: nat by auto
  have D: "Dropped ?s \<noteq> []" if "p' \<le> 1" "Some w = killer b p'" for p'
  proof -
    from that(1) have "p' = 0 \<or> p' = 1" by auto
    then show ?thesis using d that(2) by (elim disjE) auto
  qed
  have st: "stop_sent b fin p' ?s = stop_sent b fin p' s" "joined b fin p' ?s = joined b fin p' s" for p'
    using N idle D by (auto simp: stop_sent_def joined_def)
  have dr: "(Dropped ?s = [] \<and> \<not> Stopping ?s) \<or> (\<exists>p. p \<le> 1 \<and> Dropped ?s = [p] \<and> Current ?s = killer b p)"
    using d idle by (auto simp: le)
  show ?thesis
    using inv dr R vs N unfolding replace_inv_def at st
    by (intro exI [of _ vs]) (simp add: current_def)
qed

lemma replace_inv_join_start:
  assumes "queue_contract QC cpend"
    and inv: "replace_inv b pend cpend wk thr (console_program b ls f ls') t did fin pending s"
    and C: "Current s = Some w" and D: "Dropped s = p # ps" and S: "\<not> Stopping s"
  shows "replace_inv b pend cpend wk thr (console_program b ls f ls') t did fin pending
    (s\<lparr>Base := store_console p (destroy_send QC wk (console_at p s)) (Base s), Stopping := True\<rparr>)"
proof -
  have p: "p \<le> 1" "killer b p = Some w" "ps = []" using replace_invD(11) [OF inv] C D by auto
  have "w \<notin> set fin"
    using killer_once [OF _ p(2,1)] replace_inv_work [OF inv] C by (simp add: current_def)
  then have ns: "\<not> stop_sent b fin p s" using C D S p by (auto simp: stop_sent_def)
  let ?c = "destroy_send QC wk (console_at p s)"
  let ?s = "s\<lparr>Base := store_console p ?c (Base s), Stopping := True\<rparr>"
  have f: "RunThread ?c = RunThread (console_at p s)" "target ?c = target (console_at p s)"
    by (simp_all add: destroy_send_def SendWork_def)
  have at: "console_at p' ?s = (if p' = p then ?c else console_at p' s)" for p'
    by (simp add: console_at_def)
  have p01: "p = 0 \<or> p = 1" using p(1) by auto
  have ts: "target (console_at p' ?s) = target (console_at p' s)"
    "RunThread (console_at p' ?s) = RunThread (console_at p' s)" for p'
    using f by (simp_all add: at)
  have other: "killer b p' \<noteq> Some w" if "p' \<le> 1" "p' \<noteq> p" for p'
    using killer_inj [OF that(1) p(1) trans [OF _ p(2) [symmetric]]] that(2) by blast
  have st: "stop_sent b fin p' ?s = (stop_sent b fin p' s \<or> p' = p)" "joined b fin p' ?s = joined b fin p' s" for p'
    using C D S p other [of p'] by (auto simp: stop_sent_def joined_def)
  have c: "console_ok cpend wk thr t (p' = 1) (stop_sent b fin p' s \<or> p' = p) (sent_to p' [] fin)
      (if p' = p then ?c else console_at p' s)" for p'
    using replace_invD(9) [OF inv, of p'] replace_invD(9) [OF inv, of p] ns
      console_ok_stop [OF assms(1), of wk thr t "p = 1" "sent_to p [] fin" "console_at p s"] by auto
  show ?thesis
    unfolding replace_inv_def st
    using replace_invD [OF inv] c p C D p01 by (auto simp: at f ts current_def)
qed

lemma replace_inv_join_end:
  assumes inv: "replace_inv b pend cpend wk thr prog t did fin pending s"
    and C: "Current s = Some w" and D: "Dropped s = p # ps" and S: "Stopping s" and R: "\<not> RunThread (console_at p s)"
  shows "replace_inv b pend cpend wk thr prog t did fin pending (s\<lparr>Dropped := ps, Stopping := False\<rparr>)"
proof -
  have p: "p \<le> 1" "killer b p = Some w" "ps = []" using replace_invD(11) [OF inv] C D by auto
  let ?s = "s\<lparr>Dropped := ps, Stopping := False\<rparr>"
  have at: "console_at p' ?s = console_at p' s" for p' by (simp add: console_at_def)
  have other: "killer b p' \<noteq> Some w" if "p' \<le> 1" "p' \<noteq> p" for p'
    using killer_inj [OF that(1) p(1) trans [OF _ p(2) [symmetric]]] that(2) by blast
  have st: "stop_sent b fin p' ?s = stop_sent b fin p' s" "joined b fin p' ?s = (joined b fin p' s \<or> p' = p)" for p'
    using C D S p other [of p'] by (auto simp: stop_sent_def joined_def)
  show ?thesis
    unfolding replace_inv_def st at
    using replace_invD [OF inv] p R by (auto simp: current_def)
qed

lemma replace_inv_ran:
  fixes s :: "('q, 'c, 'a) console_logger"
  assumes inv: "replace_inv b pend cpend wk thr prog t did fin pending s"
    and C: "Current s = Some w" and D: "Dropped s = []"
    and "Handlers tgt = handlers_after [] (fin @ [w])" and "MinSeverity tgt = MinSeverity (target (Base s))"
    and "check_passed 0 tgt \<noteq> None \<longleftrightarrow> ClearHandlers 0 \<in> set (fin @ [w])"
    and ok: "\<And>p. console_ok cpend wk thr t (p = 1) (stop_sent b fin p s) (sent_to p [] (fin @ [w])) (Store tgt p)"
    and same: "\<And>p. RunThread (Store tgt p) = RunThread (console_at p s)
      \<and> Stdout (target (Store tgt p)) = Stdout (target (console_at p s))"
  shows "replace_inv b pend cpend wk thr prog t did (fin @ [w]) pending
    (s\<lparr>Base := (Base s)\<lparr>target := tgt\<rparr>, Current := None\<rparr>)"
proof -
  let ?s = "s\<lparr>Base := (Base s)\<lparr>target := tgt\<rparr>, Current := None\<rparr>"
  have idle: "\<not> Stopping s" using replace_invD(11) [OF inv] D by auto
  have at: "console_at p ?s = Store tgt p" for p by (simp add: console_at_def)
  have st: "stop_sent b (fin @ [w]) p ?s = stop_sent b fin p s" "joined b (fin @ [w]) p ?s = joined b fin p s" for p
    using C D idle by (auto simp: stop_sent_def joined_def)
  show ?thesis
    unfolding replace_inv_def st at
    using replace_invD [OF inv] C D idle ok same assms(4-6) by (simp add: current_def)
qed

lemma add_to_console:
  assumes "queue_contract QC cpend" and "console_ok cpend (worker E) thr t can False ls (st p)"
  shows "\<exists>c. add_to_handlers E (console_ops QC budget) m [p] st = Inr (st(p := c))
    \<and> console_ok cpend (worker E) thr t can False (ls @ [message_sig m]) c
    \<and> RunThread c = RunThread (st p) \<and> Stdout (target c) = Stdout (target (st p))"
proof -
  from console_ok_add [OF assms, of m] obtain c where
    "console_addMessage QC (worker E) m (st p) = Inr c"
    "console_ok cpend (worker E) thr t can False (ls @ [message_sig m]) c" "Stdout (target c) = Stdout (target (st p))"
    by blast
  moreover from this(1) have "RunThread c = RunThread (st p)" by (auto simp: console_addMessage_def SendWork_def)
  ultimately show ?thesis by (auto simp: add_to_handlers_def)
qed

lemma log_message_sig: "message_sig (log_message E Level Message fs tid st) = (Level, Message)"
  by (simp add: message_sig_def log_message_parts)

lemma replace_inv_run:
  fixes s :: "('q, 'c, 'a) console_logger"
  assumes QC: "queue_contract QC cpend"
    and inv: "replace_inv b pend cpend (worker E) thr (console_program b ls f ls') t did fin pending s"
    and C: "Current s = Some w" and D: "Dropped s = []"
  shows "\<exists>tgt. run_base E (console_ops QC budget) w (target (Base s)) = Inr tgt
    \<and> replace_inv b pend cpend (worker E) thr (console_program b ls f ls') t did (fin @ [w]) pending
        (s\<lparr>Base := (Base s)\<lparr>target := tgt\<rparr>, Current := None\<rparr>)"
proof -
  let ?t = "target (Base s)" and ?run = "run_base E (console_ops QC budget) w (target (Base s))"
  have full: "full_work b thr (passing ls) (passing ls') = fin @ w # (pending @ concat (map (client_works thr) (Todo s)))"
    using replace_inv_work [OF inv] C by (simp add: current_def)
  note H = replace_invD(5) [OF inv] and ok = replace_invD(9) [OF inv]
  note ran = replace_inv_ran [OF inv C D]
  have log: ?thesis if w: "w = LogWork Level Message [] thr" and hs: "handlers_after [] fin = [p]"
    and p: "\<not> stop_sent b fin p s" for Level Message p
  proof -
    let ?m = "log_message E Level Message [] thr ?t"
    have "console_ok cpend (worker E) thr t (p = 1) False (sent_to p [] fin) (Store ?t p)"
      using ok [of p] p by (simp add: console_at_def)
    from add_to_console [where st = "Store ?t", OF QC this, of budget ?m] obtain c where
      c: "add_to_handlers E (console_ops QC budget) ?m [p] (Store ?t) = Inr ((Store ?t)(p := c))"
        "console_ok cpend (worker E) thr t (p = 1) False (sent_to p [] fin @ [(Level, Message)]) c"
        "RunThread c = RunThread (Store ?t p)" "Stdout (target c) = Stdout (target (Store ?t p))"
      by (auto simp: log_message_sig)
    let ?tgt = "?t\<lparr>Store := (Store ?t)(p := c), Ticks := Suc (Ticks ?t)\<rparr>"
    have "?run = Inr ?tgt" using w c(1) H hs by simp
    moreover have "console_ok cpend (worker E) thr t (p' = 1) (stop_sent b fin p' s) (sent_to p' [] (fin @ [w])) (Store ?tgt p')" for p'
      using c(2) ok [of p'] p w hs by (simp add: console_at_def)
    then have "replace_inv b pend cpend (worker E) thr (console_program b ls f ls') t did (fin @ [w]) pending
        (s\<lparr>Base := (Base s)\<lparr>target := ?tgt\<rparr>, Current := None\<rparr>)"
      using H hs w c(3,4) replace_invD(7) [OF inv] by (intro ran) (simp_all add: console_at_def check_passed_def)
    ultimately show ?thesis by blast
  qed
  show ?thesis
  proof (rule full_work_split [OF full])
    assume w: "w = InitBase" "fin = []"
    have "replace_inv b pend cpend (worker E) thr (console_program b ls f ls') t did (fin @ [w]) pending
        (s\<lparr>Base := (Base s)\<lparr>target := ?t\<lparr>BaseMsg := init_base E (BaseMsg ?t)\<rparr>\<rparr>, Current := None\<rparr>)"
      using H w replace_invD(7) [OF inv] ok by (intro ran) (simp_all add: console_at_def check_passed_def)
    with w show ?thesis by auto
  next
    assume w: "w = ReplaceHandler 0" "fin = [InitBase]"
    then have r: "?run = Inr (?t\<lparr>Handlers := [0]\<rparr>)" using H by (simp add: add_or_replace_def)
    have "replace_inv b pend cpend (worker E) thr (console_program b ls f ls') t did (fin @ [w]) pending
        (s\<lparr>Base := (Base s)\<lparr>target := ?t\<lparr>Handlers := [0]\<rparr>\<rparr>, Current := None\<rparr>)"
      using w replace_invD(7) [OF inv] ok by (intro ran) (simp_all add: console_at_def check_passed_def)
    with r show ?thesis by blast
  next
    fix l1 l l2
    assume w: "w = LogWork (fst l) (snd l) [] thr" and "fin = [InitBase, ReplaceHandler 0] @ log_works thr l1"
    then have "handlers_after [] fin = [0]" "\<not> stop_sent b fin 0 s"
      using C by (auto simp: stop_sent_def killer_def)
    with w show ?thesis by (rule log)
  next
    assume w: "w = ReplaceHandler 1" "fin = [InitBase, ReplaceHandler 0] @ log_works thr (passing ls)"
    then have r: "?run = Inr (?t\<lparr>Handlers := [1]\<rparr>)" using H by (simp add: add_or_replace_def)
    have "replace_inv b pend cpend (worker E) thr (console_program b ls f ls') t did (fin @ [w]) pending
        (s\<lparr>Base := (Base s)\<lparr>target := ?t\<lparr>Handlers := [1]\<rparr>\<rparr>, Current := None\<rparr>)"
    proof (rule ran)
      show "console_ok cpend (worker E) thr t (p = 1) (stop_sent b fin p s) (sent_to p [] (fin @ [w]))
          (Store (?t\<lparr>Handlers := [1]\<rparr>) p)" for p
        using ok [of p] w(1) by (simp add: console_at_def)
    qed (use w replace_invD(7) [OF inv] in \<open>simp_all add: console_at_def check_passed_def\<close>)
    with r show ?thesis by blast
  next
    fix l1 l l2
    assume w: "w = LogWork (fst l) (snd l) [] thr"
      and "fin = [InitBase, ReplaceHandler 0] @ log_works thr (passing ls) @ [ReplaceHandler 1] @ log_works thr l1" and b
    then have "handlers_after [] fin = [1]" "\<not> stop_sent b fin 1 s"
      using C by (auto simp: stop_sent_def killer_def)
    with w show ?thesis by (rule log)
  next
    assume w: "w = ClearHandlers 0"
      "fin = [InitBase, ReplaceHandler 0] @ log_works thr (passing ls)
         @ (if b then [ReplaceHandler 1] @ log_works thr (passing ls') else [])"
    let ?tgt = "notify_check 0 (?t\<lparr>Handlers := []\<rparr>)"
    have "replace_inv b pend cpend (worker E) thr (console_program b ls f ls') t did (fin @ [w]) pending
        (s\<lparr>Base := (Base s)\<lparr>target := ?tgt\<rparr>, Current := None\<rparr>)"
    proof (rule ran)
      show "console_ok cpend (worker E) thr t (p = 1) (stop_sent b fin p s) (sent_to p [] (fin @ [w])) (Store ?tgt p)" for p
        using ok [of p] w(1) by (simp add: console_at_def notify_check_def)
      have "ClearHandlers 0 \<notin> set fin" using w by simp
      then have "check_passed 0 ?t = None" using replace_invD(7) [OF inv] by blast
      then have "check_passed 0 ?tgt \<noteq> None"
        by (simp add: check_passed_def notify_check_def wait_token_def notify_token_def split: if_splits)
      then show "check_passed 0 ?tgt \<noteq> None \<longleftrightarrow> ClearHandlers 0 \<in> set (fin @ [w])" using w(1) by simp
    qed (use w in \<open>simp_all add: console_at_def notify_check_def\<close>)
    with w(1) show ?thesis by auto
  qed
qed

lemma replace_inv_base_step:
  assumes "queue_contract Q pend" and "queue_contract QC cpend"
    and inv: "replace_inv b pend cpend (worker E) thr (console_program b ls f ls') t did fin pending s"
    and step: "base_next Q E QC (console_ops QC budget) s = Some s'"
  shows "\<exists>fin pending. replace_inv b pend cpend (worker E) thr (console_program b ls f ls') t did fin pending s'"
proof (cases "Current s")
  case None
  then have R: "RunThread (Base s)" using step by (simp add: base_next_def split: if_splits)
  obtain r q where rq: "q_try_dequeue Q (MessageQueue (Base s)) = (r, q)" by fastforce
  consider "r = None" | "r = Some StopTask" | w where "r = Some (Work w)" by (metis not_None_eq task.exhaust)
  then show ?thesis
  proof cases
    case 1
    then have "pend q = pend (MessageQueue (Base s))" using contract_none [OF assms(1)] rq by blast
    moreover have "s' = s\<lparr>Base := (Base s)\<lparr>MessageQueue := q\<rparr>\<rparr>"
      using step None R rq 1 by (simp add: base_next_def)
    ultimately show ?thesis
      using inv unfolding replace_inv_def
      by (intro exI [of _ fin] exI [of _ pending]) (simp add: console_at_def stop_sent_def joined_def current_def)
  next
    case 2
    have s': "s' = s\<lparr>Base := (Base s)\<lparr>MessageQueue := q, RunThread := False\<rparr>\<rparr>"
      using step None R rq 2 by (simp add: base_next_def)
    obtain p ts where p: "pend (MessageQueue (Base s)) p = StopTask # ts" "pend q = (pend (MessageQueue (Base s)))(p := ts)"
      using contract_dequeue [OF assms(1)] rq 2 by blast
    note P = replace_invD(3) [OF inv]
    have "p = thr" using p(1) P by (auto split: if_splits)
    then have "pending = []" "RDestroy \<in> set did" "ts = []"
      using p(1) P by (cases pending; auto split: if_splits)+
    moreover from this have "pend q = (\<lambda>_. [])" using p(2) P \<open>p = thr\<close> by (simp add: fun_eq_iff)
    moreover have "console_at p s' = console_at p s" "stop_sent b fin p s' = stop_sent b fin p s"
      "joined b fin p s' = joined b fin p s" "current s' = current s" for p
      by (simp_all add: s' console_at_def stop_sent_def joined_def current_def)
    ultimately have "replace_inv b pend cpend (worker E) thr (console_program b ls f ls') t did fin [] s'"
      using replace_invD [OF inv] None s' unfolding replace_inv_def by (simp add: fun_upd_idem)
    then show ?thesis by blast
  next
    case (3 w)
    then have dq: "q_try_dequeue Q (MessageQueue (Base s)) = (Some (Work w), q)" using rq by simp
    have "s' = s\<lparr>Base := (Base s)\<lparr>MessageQueue := q\<rparr>, Current := Some w,
         Dropped := dropped_by E (console_ops QC budget) w (target (Base s))\<rparr>"
      using step None R dq by (simp add: base_next_def)
    with replace_inv_take [OF assms(1) inv None R dq, of E QC budget] show ?thesis by blast
  qed
next
  case (Some w)
  show ?thesis
  proof (cases "Dropped s")
    case Nil
    obtain tgt where "run_base E (console_ops QC budget) w (target (Base s)) = Inr tgt"
      "replace_inv b pend cpend (worker E) thr (console_program b ls f ls') t did (fin @ [w]) pending
        (s\<lparr>Base := (Base s)\<lparr>target := tgt\<rparr>, Current := None\<rparr>)"
      using replace_inv_run [OF assms(2) inv Some Nil] by blast
    moreover from this(1) have "s' = s\<lparr>Base := (Base s)\<lparr>target := tgt\<rparr>, Current := None\<rparr>"
      using step Some Nil by (simp add: base_next_def)
    ultimately show ?thesis by blast
  next
    case (Cons p ps)
    show ?thesis
    proof (cases "Stopping s")
      case True
      with step Some Cons have "\<not> RunThread (console_at p s)" "s' = s\<lparr>Dropped := ps, Stopping := False\<rparr>"
        by (auto simp: base_next_def split: if_splits)
      with replace_inv_join_end [OF inv Some Cons True] show ?thesis by blast
    next
      case False
      with step Some Cons replace_inv_join_start [OF assms(2) inv Some Cons False] show ?thesis
        by (auto simp: base_next_def)
    qed
  qed
qed

lemma replace_inv_start:
  assumes "queue_contract Q pend" and "pend q0 = (\<lambda>_. [])" and "cpend c0 = (\<lambda>_. [])"
  shows "replace_inv b pend cpend wk thr prog t [] [] [InitBase, ReplaceHandler 0]
    (console_logger_start Q q0 c0 thr prog :: ('q, 'c, 'a) console_logger)"
proof -
  have "console_ok cpend wk thr t can False [] (ConsoleInterface c0)" for can
    by (rule console_okI [of _ "[]" "[]"])
      (simp_all add: assms(3) ConsoleInterface_def ThreadedExecutor_def setMessageStringCreatorFunction_def
        foreign_work_def printing_def)
  moreover have "Stdout (target (ConsoleInterface c0)) = []"
    by (simp add: ConsoleInterface_def ThreadedExecutor_def setMessageStringCreatorFunction_def)
  moreover have "pend (MessageQueue (Logger Q q0 st thr 0)) = (\<lambda>_. [])(thr := map Work [InitBase, ReplaceHandler 0])"
    for st :: "nat \<Rightarrow> 'c console"
    by (simp add: Logger_def Logger_addLogHandler_def LoggingBase_def SendWork_def ThreadedExecutor_def
        contract_enqueue [OF assms(1)] assms(2))
  moreover have "target (Logger Q q0 st thr 0) = logger_new st" "RunThread (Logger Q q0 st thr 0)"
    for st :: "nat \<Rightarrow> 'c console"
    by (simp_all add: Logger_def Logger_addLogHandler_def LoggingBase_def SendWork_def ThreadedExecutor_def)
  moreover have "\<not> stop_sent b [] p (console_logger_start Q q0 c0 thr prog :: ('q, 'c, 'a) console_logger)"
    "\<not> joined b [] p (console_logger_start Q q0 c0 thr prog :: ('q, 'c, 'a) console_logger)" for p
    by (auto simp: stop_sent_def joined_def console_logger_start_def)
  ultimately show ?thesis
    unfolding replace_inv_def by (simp add: console_logger_start_def current_def console_at_def
        logger_new_def check_passed_def wait_token_def Semaphore_def)
qed

lemma replace_inv_schedule:
  fixes s :: "('q, 'c, 'a) console_logger"
  assumes "queue_contract Q pend" and "queue_contract QC cpend" and "thr \<noteq> worker E"
    and good: "\<forall>l \<in> set ls \<union> set ls'. good_line l" and "nul \<notin> set t"
    and "replace_inv b pend cpend (worker E) thr (console_program b ls (static_parser t) ls') t did fin pending s"
  shows "\<exists>did fin pending. replace_inv b pend cpend (worker E) thr (console_program b ls (static_parser t) ls') t did fin pending
    (run_schedule Q E QC (console_ops QC budget) thr as s)"
  using assms(6)
proof (induction "as" arbitrary: s did fin pending)
  case (Cons a "as")
  have "\<exists>did fin pending. replace_inv b pend cpend (worker E) thr (console_program b ls (static_parser t) ls') t did fin pending s'"
    if st: "actor_next Q E QC (console_ops QC budget) thr a s = Some s'" for s'
  proof (cases a)
    case Client
    then obtain x xs s1 where "Todo s = x # xs" "client_next Q QC thr x s = Some s1" "s' = s1\<lparr>Todo := xs\<rparr>"
      using st by (auto split: list.splits)
    with replace_inv_client [OF assms(1-3) Cons.prems] show ?thesis by blast
  next
    case BaseWorker
    with replace_inv_base_step [OF assms(1,2) Cons.prems, of budget s'] st show ?thesis by auto
  next
    case (ConsoleWorker p)
    then have "console_next QC p s = Some s'" using st by simp
    from replace_inv_console_step [OF assms(2) Cons.prems good assms(5) this] show ?thesis by blast
  qed
  with Cons show ?case by (auto split: option.split)
qed auto

text \<open>When the client is past the removal of the handlers, everything is printed.\<close>

lemma work_complete:
  assumes "full_work b thr ls ls' = fin @ rest" and "ClearHandlers 0 \<in> set fin"
  shows "rest = []"
proof (rule ccontr)
  assume "rest \<noteq> []"
  then obtain w ys where "rest = w # ys" by (cases rest) auto
  with assms(1) have "full_work b thr ls ls' = fin @ w # ys" by simp
  then show False by (rule full_work_split) (use assms(2) in auto)
qed

lemma replace_inv_output:
  fixes fin :: "'a base_work list"
  assumes inv: "replace_inv True pend cpend wk thr (console_program True ls f ls') t did fin pending s"
    and "ClearHandlers 0 \<in> set fin"
  shows "\<exists>k \<le> length (passing ls'). Out s = plain_lines (passing ls) @ mixed_lines t k (passing ls')"
proof -
  note full = replace_inv_work [OF inv]
  have fin: "fin = full_work True thr (passing ls) (passing ls')" using work_complete [OF full assms(2)] full by simp
  have sent: "sent_to 0 [] fin = passing ls" "sent_to 1 [] fin = passing ls'"
    unfolding fin by (simp_all add: full_work_def)
  have "joined True fin 0 s" "joined True fin 1 s" unfolding fin joined_def killer_def by (auto simp: full_work_def)
  then have stopped: "\<not> RunThread (console_at 0 s)" "\<not> RunThread (console_at 1 s)"
    using replace_invD(10) [OF inv] by blast+
  have "Stdout (target (console_at 0 s)) = plain_lines (passing ls)"
    using replace_invD(9) [OF inv, of 0] stopped(1) sent by (elim console_okE) (auto simp: printing_def)
  moreover have "\<exists>k \<le> length (passing ls'). Stdout (target (console_at 1 s)) = mixed_lines t k (passing ls')"
    using replace_invD(9) [OF inv, of 1]
  proof (rule console_okE)
    fix printed rest
    assume "sent_to 1 [] fin = printed @ map message_sig rest" "\<not> RunThread (console_at 1 s) \<longrightarrow> stop_sent True fin 1 s \<and> rest = []"
      "printing t (1 = (1::nat)) printed (target (console_at 1 s))"
    with stopped(2) sent(2) have p: "printing t True (passing ls') (target (console_at 1 s))" by simp
    then show ?thesis unfolding printing_def using mixed_lines_all [of t "passing ls'"] by (metis order_refl)
  qed
  ultimately show ?thesis using replace_invD(12) [OF inv] by simp
qed

section \<open>Progress\<close>

lemma run_schedule_append:
  "run_schedule Q E QC H thr (as @ bs) s = run_schedule Q E QC H thr bs (run_schedule Q E QC H thr as s)"
  by (induction "as" arbitrary: s) simp_all

text \<open>The worker of a handler that was sent the stop item ends.\<close>

lemma console_ok_run:
  assumes "queue_contract QC pend" and "\<forall>l \<in> set ls. good_line l" and "nul \<notin> set t"
  shows "console_ok pend wk thr t can stop ls c \<Longrightarrow>
    \<exists>c'. ThreadFunction QC run_console n c = Inr c' \<and> console_ok pend wk thr t can stop ls c'"
proof (induction n arbitrary: c)
  case (Suc n)
  show ?case
  proof (cases "RunThread c")
    case True
    from console_ok_iteration [OF assms(1) Suc.prems True assms(2,3)] obtain c1 where
      "ThreadFunction QC run_console 1 c = Inr c1" "console_ok pend wk thr t can stop ls c1" by blast
    with Suc.IH [of c1] show ?thesis by (simp only: ThreadFunction_Suc [of _ _ n] sum.case)
  next
    case False
    with Suc.prems show ?thesis by (simp add: ThreadFunction_stopped)
  qed
qed simp

lemma console_ok_ends:
  assumes "queue_contract QC pend" and "queue_live QC pend" and "\<forall>l \<in> set ls. good_line l" and "nul \<notin> set t"
    and ok: "console_ok pend wk thr t can True ls c"
  shows "\<exists>n c'. ThreadFunction QC run_console n c = Inr c' \<and> \<not> RunThread c'"
proof (cases "RunThread c")
  case True
  have "StopTask \<in> set (pend (MessageQueue c) wk)" using ok True by (elim console_okE) simp
  moreover have "\<forall>p. p \<notin> {wk, thr} \<longrightarrow> pend (MessageQueue c) p = []"
    using ok by (elim console_okE) (simp add: foreign_work_def)
  ultimately have "\<exists>n. (\<exists>e. ThreadFunction QC run_console n c = Inl e) \<or>
    (\<exists>c'. ThreadFunction QC run_console n c = Inr c' \<and> \<not> RunThread c')"
    by (intro worker_stops [OF assms(1,2), of "{wk, thr}"]) (use True in auto)
  with console_ok_run [OF assms(1,3,4) ok] show ?thesis by (metis Inl_Inr_False)
next
  case False
  then show ?thesis by (intro exI [of _ 0] exI [of _ c]) simp
qed

lemma run_console_worker:
  assumes "ThreadFunction QC run_console n (console_at p s) = Inr c"
  shows "\<exists>out. run_schedule Q E QC H thr (replicate n (ConsoleWorker p)) s =
    s\<lparr>Base := store_console p c (Base s), Out := out\<rparr>"
  using assms
proof (induction n arbitrary: s)
  case 0
  then have "c = console_at p s" by simp
  then show ?case by (intro exI [of _ "Out s"]) (simp add: store_console_def console_at_def)
next
  case (Suc n)
  show ?case
  proof (cases "RunThread (console_at p s)")
    case True
    obtain c1 where c1: "ThreadFunction QC run_console 1 (console_at p s) = Inr c1"
      "ThreadFunction QC run_console n c1 = Inr c"
      using Suc.prems unfolding ThreadFunction_Suc [of _ _ n] by (auto split: sum.splits)
    let ?s = "s\<lparr>Base := store_console p c1 (Base s),
        Out := Out s @ drop (length (Stdout (target (console_at p s)))) (Stdout (target c1))\<rparr>"
    have "console_next QC p s = Some ?s" using True c1(1) by (simp add: console_next_def del: One_nat_def)
    moreover have "console_at p ?s = c1" by (simp add: console_at_def)
    ultimately show ?thesis using Suc.IH [of ?s] c1(2) by (auto simp: store_console_def)
  next
    case False
    then have "c = console_at p s" "ThreadFunction QC run_console n (console_at p s) = Inr c"
      using Suc.prems by (simp_all add: ThreadFunction_stopped)
    moreover have "console_next QC p s = None" using False by (simp add: console_next_def)
    ultimately show ?thesis using Suc.IH [of s] by simp
  qed
qed

lemma run_base_polls:
  assumes "Current s = None" and "RunThread (Base s)"
    and "\<forall>k < n. fst (q_try_dequeue Q (failed_polls Q k (MessageQueue (Base s)))) = None"
  shows "run_schedule Q E QC H thr (replicate n BaseWorker) s =
    s\<lparr>Base := (Base s)\<lparr>MessageQueue := failed_polls Q n (MessageQueue (Base s))\<rparr>\<rparr>"
  using assms(3)
proof (induction n)
  case (Suc n)
  let ?q = "failed_polls Q n (MessageQueue (Base s))"
  have "fst (q_try_dequeue Q ?q) = None" using Suc.prems by simp
  then obtain q where q: "q_try_dequeue Q ?q = (None, q)" by (metis prod.collapse)
  have "replicate (Suc n) BaseWorker = replicate n BaseWorker @ [BaseWorker]"
    by (simp add: replicate_append_same)
  with Suc assms(1,2) q show ?case by (simp add: run_schedule_append base_next_def)
qed simp

text \<open>From every reachable state some schedule ends the program.\<close>

definition remaining :: "('q \<Rightarrow> nat \<Rightarrow> 'a base_work task list) \<Rightarrow> nat \<Rightarrow> ('q, 'c, 'a) console_logger \<Rightarrow> nat" where
  "remaining pend thr s = 10 * length (Todo s) + 5 * length (pend (MessageQueue (Base s)) thr)
     + (case Current s of None \<Rightarrow> 0 | Some w \<Rightarrow> 1)
     + (if Dropped s = [] then 0 else if Stopping s then 1 else 2)"

lemma client_next_fields:
  assumes "queue_contract Q pend" and "client_next Q QC thr x s = Some s'"
  shows "length (pend (MessageQueue (Base s')) thr) \<le> Suc (length (pend (MessageQueue (Base s)) thr))
    \<and> Current s' = Current s \<and> Dropped s' = Dropped s \<and> Stopping s' = Stopping s"
  using assms(2)
  by (cases x) (auto simp: log_plain_def log_fields_def Logger_addLogHandler_def destroy_send_def SendWork_def
      contract_enqueue [OF assms(1)] split: option.splits if_splits)

lemma progress_client:
  assumes "queue_contract Q pend" and "Todo s = x # xs" and "client_next Q QC thr x s \<noteq> None"
  shows "\<exists>as. remaining pend thr (run_schedule Q E QC H thr as s) < remaining pend thr s"
proof -
  obtain s1 where s1: "client_next Q QC thr x s = Some s1" using assms(3) by blast
  from client_next_fields [OF assms(1) s1] s1 assms(2) show ?thesis
    by (intro exI [of _ "[Client]"]) (auto simp: remaining_def)
qed

lemma progress_base_queue:
  assumes "queue_contract Q pend" and "queue_live Q pend" and "Current s = None" and "RunThread (Base s)"
    and "Dropped s = []" and "pend (MessageQueue (Base s)) thr \<noteq> []" and "\<And>p. p \<noteq> thr \<Longrightarrow> pend (MessageQueue (Base s)) p = []"
  shows "\<exists>as. remaining pend thr (run_schedule Q E QC H thr as s) < remaining pend thr s"
proof -
  obtain n w q where n: "\<forall>k < n. fst (q_try_dequeue Q (failed_polls Q k (MessageQueue (Base s)))) = None"
    "q_try_dequeue Q (failed_polls Q n (MessageQueue (Base s))) = (Some w, q)"
    by (rule first_success [OF assms(1,2,6)])
  let ?s = "s\<lparr>Base := (Base s)\<lparr>MessageQueue := failed_polls Q n (MessageQueue (Base s))\<rparr>\<rparr>"
  have same: "pend (failed_polls Q n (MessageQueue (Base s))) = pend (MessageQueue (Base s))"
    by (rule failed_polls_pend [OF assms(1) n(1)])
  obtain p ts where "pend (MessageQueue (Base s)) p = w # ts" "pend q = (pend (MessageQueue (Base s)))(p := ts)"
    using contract_dequeue [OF assms(1) n(2)] same by metis
  moreover from this(1) assms(7) have "p = thr" by force
  ultimately have "length (pend (MessageQueue (Base s)) thr) = Suc (length (pend q thr))" by simp
  moreover have "run_schedule Q E QC H thr (replicate n BaseWorker @ [BaseWorker]) s =
      (case base_next Q E QC H ?s of None \<Rightarrow> ?s | Some s' \<Rightarrow> s')"
    using run_base_polls [OF assms(3,4) n(1)] by (simp add: run_schedule_append)
  ultimately show ?thesis
    using assms(3-5) n(2)
    by (intro exI [of _ "replicate n BaseWorker @ [BaseWorker]"])
      (auto simp: base_next_def remaining_def split: task.split)
qed

lemma progress_current:
  fixes s :: "('q, 'c, 'a) console_logger"
  assumes QC: "queue_contract QC cpend" and live: "queue_live QC cpend"
    and good: "\<forall>l \<in> set ls \<union> set ls'. good_line l" and t: "nul \<notin> set t"
    and inv: "replace_inv b pend cpend (worker E) thr (console_program b ls f ls') t did fin pending s"
    and C: "Current s = Some w"
  shows "\<exists>as. remaining pend thr (run_schedule Q E QC (console_ops QC budget) thr as s) < remaining pend thr s"
proof (cases "Dropped s")
  case Nil
  from replace_inv_run [OF QC inv C Nil, of budget] C Nil show ?thesis
    by (intro exI [of _ "[BaseWorker]"]) (auto simp: base_next_def remaining_def)
next
  case (Cons p ps)
  then have p: "p \<le> 1" "killer b p = Some w" "ps = []" using replace_invD(11) [OF inv] C by auto
  show ?thesis
  proof (cases "Stopping s")
    case False
    with C Cons show ?thesis by (intro exI [of _ "[BaseWorker]"]) (simp add: base_next_def remaining_def)
  next
    case True
    have "stop_sent b fin p s" using C p Cons True by (simp add: stop_sent_def)
    with replace_invD(9) [OF inv, of p]
    have ok: "console_ok cpend (worker E) thr t (p = 1) True (sent_to p [] fin) (console_at p s)" by simp
    obtain n c where n: "ThreadFunction QC run_console n (console_at p s) = Inr c" "\<not> RunThread c"
      using console_ok_ends [OF QC live sent_good [OF inv good] t ok] by blast
    obtain out where "run_schedule Q E QC (console_ops QC budget) thr (replicate n (ConsoleWorker p)) s =
        s\<lparr>Base := store_console p c (Base s), Out := out\<rparr>"
      using run_console_worker [OF n(1)] by blast
    with n(2) C Cons True p(3) show ?thesis
      by (intro exI [of _ "replicate n (ConsoleWorker p) @ [BaseWorker]"])
        (simp add: run_schedule_append base_next_def remaining_def console_at_def)
  qed
qed

text \<open>A client that has to wait waits for something that is queued or running.\<close>

lemma done_before: "as @ bs = us @ x # vs \<Longrightarrow> x \<notin> set as \<Longrightarrow> set as \<subseteq> set us"
  using append_split [of "as" bs us x vs] by auto

lemma program_before:
  "console_program b ls f ls' = did @ RAwait 0 # xs \<Longrightarrow> RClear 0 \<in> set did"
  "console_program b ls f ls' = did @ RJoin # xs \<Longrightarrow> RDestroy \<in> set did"
proof -
  let ?pre = "map (\<lambda>(Level, Message). RLog Level Message) ls
     @ (if b then [RSetParser 1 f, RAdd 1] @ map (\<lambda>(Level, Message). RLog Level Message) ls' else []) @ [RClear 0]"
  have "?pre @ [RAwait 0, RDestroy, RJoin] = console_program b ls f ls'"
    "(?pre @ [RAwait 0, RDestroy]) @ [RJoin] = console_program b ls f ls'"
    by (simp_all add: console_program_def)
  note before = trans [OF this(1), THEN done_before] trans [OF this(2), THEN done_before]
  have new: "RAwait 0 \<notin> set ?pre" "RJoin \<notin> set (?pre @ [RAwait 0, RDestroy])" by auto
  show "console_program b ls f ls' = did @ RAwait 0 # xs \<Longrightarrow> RClear 0 \<in> set did"
    using before(1) [OF _ new(1)] by force
  show "console_program b ls f ls' = did @ RJoin # xs \<Longrightarrow> RDestroy \<in> set did"
    using before(2) [OF _ new(2)] by force
qed

lemma replace_progress:
  fixes s :: "('q, 'c, 'a) console_logger"
  assumes Q: "queue_contract Q pend" "queue_live Q pend" and QC: "queue_contract QC cpend" "queue_live QC cpend"
    and good: "\<forall>l \<in> set ls \<union> set ls'. good_line l" and t: "nul \<notin> set t"
    and inv: "replace_inv b pend cpend (worker E) thr (console_program b ls (static_parser t) ls') t did fin pending s"
    and T: "Todo s \<noteq> []"
  shows "\<exists>as. remaining pend thr (run_schedule Q E QC (console_ops QC budget) thr as s) < remaining pend thr s"
proof (cases "Current s")
  case (Some w)
  then show ?thesis by (rule progress_current [OF QC good t inv])
next
  case None
  obtain x xs where x: "Todo s = x # xs" using T by (cases "Todo s") auto
  have prog: "console_program b ls (static_parser t) ls' = did @ x # xs" using replace_invD(1) [OF inv] x by simp
  show ?thesis
  proof (cases "client_next Q QC thr x s")
    case (Some s1)
    then show ?thesis using progress_client [OF Q(1) x] by blast
  next
    case blocked: None
    note P = replace_invD(3) [OF inv]
    have "x \<in> set (console_program b ls (static_parser t) ls')" unfolding prog by simp
    from program_ops [OF this] blocked
    consider "x = RAwait 0" "check_passed 0 (target (Base s)) = None" | "x = RJoin" "RunThread (Base s)"
      by (auto split: option.splits if_splits)
    then have "RunThread (Base s) \<and> pend (MessageQueue (Base s)) thr \<noteq> []"
    proof cases
      case 1
      then have "ClearHandlers 0 \<notin> set fin" using replace_invD(7) [OF inv] by blast
      moreover have "RClear 0 \<in> set did" using program_before(1) prog 1(1) by blast
      then have "ClearHandlers 0 \<in> set ([InitBase, ReplaceHandler 0] @ concat (map (client_works thr) did) :: 'a base_work list)"
        by force
      ultimately have "pending \<noteq> []" unfolding replace_invD(2) [OF inv] using None by (auto simp: current_def)
      then show ?thesis using replace_invD(4) [OF inv] P by auto
    next
      case 2
      then have "RDestroy \<in> set did" using program_before(2) prog by blast
      with 2 P show ?thesis by simp
    qed
    then show ?thesis
      using progress_base_queue [OF Q None] replace_invD(11) [OF inv] None P by auto
  qed
qed

lemma replace_ends:
  fixes s :: "('q, 'c, 'a) console_logger"
  assumes Q: "queue_contract Q pend" "queue_live Q pend" and QC: "queue_contract QC cpend" "queue_live QC cpend"
    and thr: "thr \<noteq> worker E" and good: "\<forall>l \<in> set ls \<union> set ls'. good_line l" and t: "nul \<notin> set t"
    and "replace_inv b pend cpend (worker E) thr (console_program b ls (static_parser t) ls') t did fin pending s"
  shows "\<exists>as. Todo (run_schedule Q E QC (console_ops QC budget) thr as s) = []"
  using assms(8)
proof (induction "remaining pend thr s" arbitrary: s did fin pending rule: less_induct)
  case less
  show ?case
  proof (cases "Todo s = []")
    case True
    then show ?thesis by (intro exI [of _ "[]"]) simp
  next
    case False
    obtain "as" where a: "remaining pend thr (run_schedule Q E QC (console_ops QC budget) thr as s) < remaining pend thr s"
      using replace_progress [OF Q QC good t less.prems False] by blast
    obtain did' fin' pending' where "replace_inv b pend cpend (worker E) thr (console_program b ls (static_parser t) ls') t
        did' fin' pending' (run_schedule Q E QC (console_ops QC budget) thr as s)"
      using replace_inv_schedule [OF Q(1) QC(1) thr good t less.prems] by blast
    from less.hyps [OF a this] obtain bs where
      "Todo (run_schedule Q E QC (console_ops QC budget) thr bs (run_schedule Q E QC (console_ops QC budget) thr as s)) = []"
      by blast
    then show ?thesis by (intro exI [of _ "as @ bs"]) (simp add: run_schedule_append)
  qed
qed

section \<open>Properties\<close>

text \<open>
  C13: replacing the console handler of a logger loses nothing and mixes nothing up. Under
  every schedule of the client, the logger's worker and the workers of the handlers, nothing
  is thrown, and when the client has finished, standard output holds one line per message of
  sufficient severity, in the order of the calls: those logged before the replacement in the
  default format, and of those logged after it a first part (\<open>k\<close> of them, perhaps none) in the
  default format and all others by the new parser. The client can always finish.
\<close>

theorem replaced_console_output:
  fixes Q :: "('q, 'a) base_queue" and QC :: "'c console_queue"
  assumes "queue_contract Q pend" and "queue_live Q pend" and "pend q0 = (\<lambda>_. [])"
    and "queue_contract QC cpend" and "queue_live QC cpend" and "cpend c0 = (\<lambda>_. [])"
    and "thr \<noteq> worker E" and "\<forall>l \<in> set ls \<union> set ls'. good_line l" and "nul \<notin> set t"
    and "s = run_schedule Q E QC (console_ops QC budget) thr as
           (console_logger_start Q q0 c0 thr (replace_program ls (static_parser t) ls'))"
  shows "\<not> Terminated s
    \<and> (Todo s = [] \<longrightarrow> (\<exists>k \<le> length (passing ls'). Out s = plain_lines (passing ls) @ mixed_lines t k (passing ls')))
    \<and> (\<exists>as'. Todo (run_schedule Q E QC (console_ops QC budget) thr as' s) = [])"
proof -
  obtain did fin pending where
    inv: "replace_inv True pend cpend (worker E) thr (console_program True ls (static_parser t) ls') t did fin pending s"
    using replace_inv_schedule [OF assms(1,4,7-9) replace_inv_start [of Q pend q0 cpend c0, OF assms(1,3,6)]]
      assms(10) [unfolded program_eq] by blast
  have "RAwait 0 \<in> set (console_program True ls (static_parser t) ls')" by (simp add: console_program_def)
  then have "RAwait 0 \<in> set did" if "Todo s = []" using that unfolding replace_invD(1) [OF inv] by simp
  with replace_invD(8) [OF inv] replace_inv_output [OF inv] replace_invD(13) [OF inv]
    replace_ends [OF assms(1,2,4,5,7-9) inv]
  show ?thesis by blast
qed

theorem replaced_console_output_witness:
  "\<exists>as k. Todo (run_schedule list_queue test_platform list_queue (console_ops list_queue 5) 1 as
       (console_logger_start list_queue [] [] 1 ReplaceConsoleInterface)) = [] \<and> k \<le> (1::nat)
   \<and> Out (run_schedule list_queue test_platform list_queue (console_ops list_queue 5) 1 as
       (console_logger_start list_queue [] [] 1 ReplaceConsoleInterface)) =
     ''ERROR: Some error string.'' @ newline @ mixed_lines ''Static string'' k [(Error, ''Some other error string.'')]"
proof -
  have e: "list_pend [] = (\<lambda>_. [] :: 'x list)" by (simp add: list_pend_def fun_eq_iff)
  have good: "\<forall>l \<in> set [(Error, ''Some error string.'')] \<union> set [(Error, ''Some other error string.'')]. good_line l"
    by (simp add: good_line_def known_severity_def int_of_severity_def Error_def nul_def)
  let ?start = "console_logger_start list_queue [] [] 1 ReplaceConsoleInterface ::
    ((nat \<times> nat base_work task) list, (nat \<times> console_work task) list, nat) console_logger"
  let ?run = "run_schedule list_queue test_platform list_queue (console_ops list_queue 5) 1"
  note out = replaced_console_output [OF list_queue_contract list_queue_live e list_queue_contract list_queue_live e
      _ good, of 1 test_platform "''Static string''" _ 5, folded ReplaceConsoleInterface_def, OF _ _ refl]
  have h: "1 \<noteq> worker test_platform" "nul \<notin> set ''Static string''" by (simp_all add: test_platform_def nul_def)
  from out [OF h, of "[]"] obtain as' where "Todo (?run as' ?start) = []" by auto
  moreover from this out [OF h, of as'] obtain k where "k \<le> length (passing [(Error, ''Some other error string.'')])"
    "Out (?run as' ?start) = plain_lines (passing [(Error, ''Some error string.'')])
       @ mixed_lines ''Static string'' k (passing [(Error, ''Some other error string.'')])" by blast
  moreover have "passing [(Error, m)] = [(Error, m)]" for m
    by (simp add: passing_def less_eq_Severity_def int_of_severity_def Error_def Notice_def)
  moreover have "line_of (Error, ''Some error string.'') = ''ERROR: Some error string.'' @ newline"
    by (simp add: line_of_def int_of_severity_def Error_def sevToStr_def)
  ultimately show ?thesis by (intro exI [of _ as'] exI [of _ k]) simp
qed

text \<open>A schedule of that program, and its run on a given queue of the console handlers.\<close>

definition overtaking_schedule :: "actor list" where
  "overtaking_schedule = replicate 5 Client @ replicate 8 BaseWorker @ replicate 2 (ConsoleWorker 0)
     @ replicate 6 BaseWorker @ replicate 3 (ConsoleWorker 1) @ replicate 2 BaseWorker
     @ replicate 2 Client @ [BaseWorker, Client]"

definition overtaking_run :: "((nat \<times> console_work task) list) console_queue \<Rightarrow>
    ((nat \<times> nat base_work task) list, (nat \<times> console_work task) list, nat) console_logger" where
  "overtaking_run QC = run_schedule list_queue test_platform QC (console_ops QC 5) 1 overtaking_schedule
     (console_logger_start list_queue [] [] 1 ReplaceConsoleInterface)"

text \<open>
  C39: the parser of a handler can be overtaken. The queue of the handler orders the items of
  one thread only; the parser is sent by the thread that creates the handler and the messages by
  the worker of the logger. So \<open>ReplaceConsoleInterface\<close> can fail: there is a queue that keeps
  its contract and a schedule after which the program is finished and the expectations of the
  test do not hold, because a message logged after the new handler was registered is printed in
  the default format; on a queue in order of arrival the same schedule meets them.
\<close>

theorem parser_may_be_overtaken:
  "\<exists>QC pend. queue_contract QC pend \<and> queue_live QC pend
     \<and> Todo (overtaking_run QC) = [] \<and> \<not> ReplaceConsoleInterface_expectations (Out (overtaking_run QC))
     \<and> Todo (overtaking_run list_queue) = [] \<and> ReplaceConsoleInterface_expectations (Out (overtaking_run list_queue))"
proof -
  have "Todo (overtaking_run newest_first_queue) = []"
    "\<not> ReplaceConsoleInterface_expectations (Out (overtaking_run newest_first_queue))"
    "Todo (overtaking_run list_queue) = []"
    "ReplaceConsoleInterface_expectations (Out (overtaking_run list_queue))"
    by code_simp+
  with newest_first_contract newest_first_live show ?thesis by blast
qed

end
