(* ===== verification/Console_Run.thy ===== *)
theory Console_Run
  imports Logger_Test
begin

text \<open>
  End to end for a console handler: what the client of a logger logs is on standard output.
  The threads are those of \<open>Logger_Test\<close>: the client, the worker of the logger and the worker
  of the handler, in any interleaving; the client's program is \<open>log_program\<close>.
\<close>

section \<open>What is printed at every moment\<close>

lemma log_run_inv:
  assumes "queue_contract Q pend" and "pend q0 = (\<lambda>_. [])" and "queue_contract QC cpend" and "cpend c0 = (\<lambda>_. [])"
    and "thr \<noteq> worker E" and "\<forall>l \<in> set ls. good_line l"
  obtains did fin pending where
    "replace_inv False pend cpend (worker E) thr (console_program False ls (static_parser []) []) [] did fin pending
       (run_schedule Q E QC (console_ops QC budget) thr as (console_logger_start Q q0 c0 thr (log_program ls)))"
proof -
  have "\<exists>did fin pending. replace_inv False pend cpend (worker E) thr (console_program False ls (static_parser []) []) []
      did fin pending (run_schedule Q E QC (console_ops QC budget) thr as
        (console_logger_start Q q0 c0 thr (console_program False ls (static_parser []) [])))"
    by (rule replace_inv_schedule [OF assms(1,3,5) _ _ replace_inv_start [of Q pend q0 cpend c0, OF assms(1,2,4)]])
      (use assms(6) in simp_all)
  then show ?thesis using that unfolding program_eq(2) [of ls "static_parser []" "[]"] by blast
qed

lemma log_run_output:
  assumes inv: "replace_inv False pend cpend wk thr (console_program False ls f []) t did fin pending s"
  shows "\<exists>k. Out s = plain_lines (take k (passing ls))
    \<and> (ClearHandlers 0 \<in> set fin \<longrightarrow> length (passing ls) \<le> k \<and> \<not> RunThread (console_at 0 s))"
proof -
  note full = replace_inv_work [OF inv]
  have "console_ok cpend wk thr t (1 = (1::nat)) (stop_sent False fin 1 s) [] (console_at 1 s)"
    using replace_invD(9) [OF inv, of 1] sent_is_logged(3) [OF full] by simp
  then have quiet: "Stdout (target (console_at 1 s)) = []"
    by (rule console_okE) (auto simp: printing_def mixed_lines_def)
  obtain us where us: "passing ls = sent_to 0 [] fin @ us" using sent_is_logged(1) [OF full] by blast
  show ?thesis
    using replace_invD(9) [OF inv, of 0]
  proof (rule console_okE)
    fix printed rest
    assume c: "sent_to 0 [] fin = printed @ map message_sig rest"
      "\<not> RunThread (console_at 0 s) \<longrightarrow> stop_sent False fin 0 s \<and> rest = []"
      "printing t (0 = (1::nat)) printed (target (console_at 0 s))"
    have "Out s = plain_lines (take (length printed) (passing ls))"
      using replace_invD(12) [OF inv] quiet c(3) us c(1) by (simp add: printing_def)
    moreover have "length (passing ls) \<le> length printed \<and> \<not> RunThread (console_at 0 s)"
      if clear: "ClearHandlers 0 \<in> set fin"
    proof -
      have fin: "fin = full_work False thr (passing ls) (passing [])"
        using work_complete [OF full clear] full by simp
      then have "sent_to 0 [] fin = passing ls" by (simp add: full_work_def)
      moreover have "joined False fin 0 s" using clear by (auto simp: joined_def killer_def)
      ultimately show ?thesis using replace_invD(10) [OF inv, of 0] c(1,2) by simp
    qed
    ultimately show ?thesis by blast
  qed
qed

section \<open>Properties\<close>

text \<open>
  C1: end to end, what is logged is printed. A client thread creates a logger with its console
  handler, logs any messages with the nine severities and without zero bytes, and destroys the
  logger. Under every schedule of the client, the worker of the logger and the worker of the
  console handler: nothing is thrown; at every moment standard output holds the lines of the
  first \<open>k\<close> messages at or above the default minimum severity (\<open>Notice\<close>), in the order of the
  calls; when the client is done, the worker of the handler has ended and all these lines
  are there; and from every such moment the client can get done.
\<close>

theorem logged_lines_are_printed:
  fixes Q :: "('q, 'a) base_queue" and QC :: "'c console_queue"
  assumes "queue_contract Q pend" and "queue_live Q pend" and "pend q0 = (\<lambda>_. [])"
    and "queue_contract QC cpend" and "queue_live QC cpend" and "cpend c0 = (\<lambda>_. [])"
    and "thr \<noteq> worker E" and "\<forall>l \<in> set ls. known_severity (fst l) \<and> nul \<notin> set (snd l)"
    and "s = run_schedule Q E QC (console_ops QC budget) thr as
           (console_logger_start Q q0 c0 thr (log_program ls))"
  shows "\<not> Terminated s
    \<and> (\<exists>k. Out s = concat (map line_of (take k (filter (\<lambda>l. fst l \<le> Notice) ls))))
    \<and> (Todo s = [] \<longrightarrow> Out s = concat (map line_of (filter (\<lambda>l. fst l \<le> Notice) ls))
        \<and> \<not> RunThread (console_at 0 s))
    \<and> (\<exists>as'. Todo (run_schedule Q E QC (console_ops QC budget) thr as' s) = [])"
proof -
  have good: "\<forall>l \<in> set ls. good_line l" using assms(8) by (simp add: good_line_def)
  obtain did fin pending where
    inv: "replace_inv False pend cpend (worker E) thr (console_program False ls (static_parser []) []) [] did fin pending s"
    by (rule log_run_inv [OF assms(1,3,4,6,7) good, of budget "as", folded assms(9)])
  obtain k where k: "Out s = plain_lines (take k (passing ls))"
    "ClearHandlers 0 \<in> set fin \<longrightarrow> length (passing ls) \<le> k \<and> \<not> RunThread (console_at 0 s)"
    using log_run_output [OF inv] by blast
  have "RAwait 0 \<in> set (console_program False ls (static_parser []) [])" by (simp add: console_program_def)
  then have cleared: "ClearHandlers 0 \<in> set fin" if "Todo s = []"
    using that replace_invD(8) [OF inv] unfolding replace_invD(1) [OF inv] by simp
  have "\<exists>as'. Todo (run_schedule Q E QC (console_ops QC budget) thr as' s) = []"
    by (rule replace_ends [OF assms(1,2,4,5,7) _ _ inv]) (use good in simp_all)
  with k cleared replace_invD(13) [OF inv] show ?thesis by (auto simp: plain_lines_def passing_def)
qed

theorem logged_lines_are_printed_witness:
  "\<exists>as. Todo (run_schedule list_queue test_platform list_queue (console_ops list_queue 5) 1 as
       (console_logger_start list_queue [] [] 1 (log_program [(Error, ''boom''), (Debug, ''detail'')]))) = []
   \<and> Out (run_schedule list_queue test_platform list_queue (console_ops list_queue 5) 1 as
       (console_logger_start list_queue [] [] 1 (log_program [(Error, ''boom''), (Debug, ''detail'')]))) =
     ''ERROR: boom'' @ newline"
proof -
  let ?ls = "[(Error, ''boom''), (Debug, ''detail'')]"
  have e: "list_pend [] = (\<lambda>_. [] :: 'x list)" by (simp add: list_pend_def fun_eq_iff)
  have known: "\<forall>l \<in> set ?ls. known_severity (fst l) \<and> nul \<notin> set (snd l)" by code_simp
  have lines: "concat (map line_of (filter (\<lambda>l. fst l \<le> Notice) ?ls)) = ''ERROR: boom'' @ newline" by code_simp
  let ?start = "console_logger_start list_queue [] [] 1 (log_program ?ls) ::
    ((nat \<times> nat base_work task) list, (nat \<times> console_work task) list, nat) console_logger"
  let ?run = "run_schedule list_queue test_platform list_queue (console_ops list_queue 5) 1"
  have thr: "1 \<noteq> worker test_platform" by (simp add: test_platform_def)
  note out = logged_lines_are_printed [OF list_queue_contract list_queue_live e list_queue_contract list_queue_live e
      thr known refl, of 5, unfolded lines]
  from out [of "[]"] obtain as' where "Todo (?run as' ?start) = []" by auto
  moreover from this out [of as'] have "Out (?run as' ?start) = ''ERROR: boom'' @ newline" by blast
  ultimately show ?thesis by blast
qed

end
