(* ===== verification/Message_Types.thy ===== *)
theory Message_Types
  imports System Graylog_Delivery
begin

text \<open>
  Types of the data that flows through the library. An \<open>AdditionalField\<close> is a tagged union
  written by hand: \<open>FieldType\<close> says which of its three value members counts. A message is
  well-formed if its fields were made by the constructors, have pairwise different keys, and
  can all be reached by an \<open>int\<close> index. These properties are kept by \<open>addField\<close>, by every
  closure of the logger, and on the way through every handler class, so that what is printed,
  written or serialised is always a well-formed message.
\<close>

section \<open>Well-formed messages\<close>

definition wf_field :: "AdditionalField \<Rightarrow> bool" where
  "wf_field f \<longleftrightarrow>
     (case FieldType f of
        typeStr \<Rightarrow> f = AdditionalField_str (strVal f)
      | typeDbl \<Rightarrow> f = AdditionalField_dbl (dblVal f)
      | typeInt \<Rightarrow> f = AdditionalField_int (intVal f))"

text \<open>\<open>K\<close> are the keys that the program uses; there are at most \<open>2 ^ 31\<close> of them.\<close>

definition wf_fields :: "string set \<Rightarrow> fields \<Rightarrow> bool" where
  "wf_fields K fs \<longleftrightarrow> (\<forall>(k, f) \<in> set fs. k \<in> K \<and> wf_field f)"

definition wf_message :: "string set \<Rightarrow> LogMessage \<Rightarrow> bool" where
  "wf_message K m \<longleftrightarrow> distinct_keys m \<and> wf_fields K (AdditionalFields m)"

definition key_set :: "string set \<Rightarrow> bool" where
  "key_set K \<longleftrightarrow> finite K \<and> card K \<le> 2 ^ 31"

lemma constructors_wf [simp]:
  "wf_field (AdditionalField_str s)" "wf_field (AdditionalField_dbl d)" "wf_field (AdditionalField_int i)"
  by (simp_all add: wf_field_def AdditionalField_str_def AdditionalField_dbl_def AdditionalField_int_def)

lemma wf_message_fits:
  assumes "key_set K" and "wf_message K m"
  shows "fields_fit 0 m"
proof -
  have "fst ` set (AdditionalFields m) \<subseteq> K" using assms(2) by (auto simp: wf_message_def wf_fields_def)
  then have "card (fst ` set (AdditionalFields m)) \<le> card K"
    using assms(1) by (intro card_mono) (simp_all add: key_set_def)
  moreover have "card (set (map fst (AdditionalFields m))) = length (map fst (AdditionalFields m))"
    using assms(2) by (intro distinct_card) (simp add: wf_message_def distinct_keys_def)
  ultimately show ?thesis using assms(1) by (simp add: fields_fit_def key_set_def)
qed

lemma wf_addField:
  assumes "key_set K" and "wf_message K m" and "k \<in> K" and "wf_field f"
  shows "wf_message K (addField k f m)"
proof -
  have fields: "AdditionalFields (addField k f m) = AList.update k f (AdditionalFields m)"
    by (rule addField_update [OF wf_message_fits [OF assms(1,2)]])
  have "set (AList.update k f fs) \<subseteq> insert (k, f) (set fs)" for fs
    by (induction fs) auto
  then show ?thesis
    using assms(2-4) distinct_update [of "AdditionalFields m" k f]
    by (fastforce simp: wf_message_def distinct_keys_def wf_fields_def fields)
qed

lemma wf_addFields:
  "key_set K \<Longrightarrow> wf_message K m \<Longrightarrow> wf_fields K fs \<Longrightarrow> wf_message K (addFields fs m)"
proof (induction fs arbitrary: m)
  case (Cons f fs)
  then show ?case by (cases f) (auto simp: wf_fields_def intro!: Cons.IH wf_addField)
qed simp

lemma wf_message_frame [simp]:
  "wf_message K (m\<lparr>Timestamp := a\<rparr>) = wf_message K m" "wf_message K (m\<lparr>MessageString := s\<rparr>) = wf_message K m"
  "wf_message K (m\<lparr>SeverityLevel := l\<rparr>) = wf_message K m" "wf_message K (m\<lparr>ThreadId := t\<rparr>) = wf_message K m"
  "wf_message K (m\<lparr>Host := h\<rparr>) = wf_message K m" "wf_message K (m\<lparr>ProcessId := i\<rparr>) = wf_message K m"
  "wf_message K (m\<lparr>ProcessName := n\<rparr>) = wf_message K m"
  by (simp_all add: wf_message_def distinct_keys_def)

section \<open>The closures of the logger\<close>

text \<open>The arguments of the client calls: keys from \<open>K\<close>, fields made by the constructors.\<close>

fun typed_work :: "string set \<Rightarrow> 'a base_work \<Rightarrow> bool" where
  "typed_work K (LogWork Level Message ExtraFields tid) = wf_fields K ExtraFields"
| "typed_work K (FieldWork Key Value) = (Key \<in> K \<and> wf_field Value)"
| "typed_work K _ = True"

lemma wf_log_message:
  "key_set K \<Longrightarrow> wf_message K (BaseMsg s) \<Longrightarrow> wf_fields K fs \<Longrightarrow> wf_message K (log_message E Level Message fs tid s)"
  by (simp add: log_message_def wf_addFields)

lemma wf_fmt_message:
  "wf_message K (BaseMsg s) \<Longrightarrow> wf_message K (fmt_message E Level Format args tid s)"
  by (simp add: fmt_message_def Let_def split: sum.split)

lemma wf_init_base: "wf_message K m \<Longrightarrow> wf_message K (init_base E m)"
  by (simp add: init_base_def split: prod.split)

text \<open>
  A handler class whose operations keep \<open>hinv\<close> when they are given well-formed messages. The
  logger gives its handlers nothing else, whatever the order of its closures.
\<close>

locale typed_handlers =
  fixes H :: "'h handler_ops" and hinv :: "'h \<Rightarrow> bool" and K :: "string set"
  assumes keys: "hinv h \<Longrightarrow> key_set K"
    and add_inv: "hinv h \<Longrightarrow> wf_message K m \<Longrightarrow> hop_addMessage H thr m h = Inr h' \<Longrightarrow> hinv h'"
    and flush_inv: "hinv h \<Longrightarrow> hop_flush H thr h = Inr (r, h') \<Longrightarrow> hinv h'"
begin

definition typed_logger :: "'h logger \<Rightarrow> bool" where
  "typed_logger s \<longleftrightarrow> wf_message K (BaseMsg s) \<and> (\<forall>p. hinv (Store s p))"

lemma add_all:
  "add_to_handlers E H m ps st = Inr st' \<Longrightarrow> wf_message K m \<Longrightarrow> \<forall>p. hinv (st p) \<Longrightarrow> hinv (st' p)"
proof (induction ps arbitrary: st)
  case (Cons q ps)
  then obtain h where h: "hop_addMessage H (worker E) m (st q) = Inr h"
    "add_to_handlers E H m ps (st(q := h)) = Inr st'" by (auto simp: add_to_handlers_def split: sum.splits)
  have "hinv h" using add_inv [OF _ Cons.prems(2) h(1)] Cons.prems(3) by blast
  with Cons.prems(2,3) Cons.IH [OF h(2)] show ?case by simp
qed (simp add: add_to_handlers_def)

lemma flush_all:
  "flush_handlers H tid ps st = Inr (rs, st') \<Longrightarrow> \<forall>p. hinv (st p) \<Longrightarrow> hinv (st' p)"
proof (induction ps arbitrary: tid st rs)
  case (Cons q ps)
  then obtain r h rs1 where h: "hop_flush H tid (st q) = Inr (r, h)"
    "flush_handlers H (Suc tid) ps (st(q := h)) = Inr (rs1, st')"
    by (auto split: sum.splits prod.splits)
  have "hinv h" using flush_inv [OF _ h(1)] Cons.prems(2) by blast
  with Cons.prems(2) Cons.IH [OF h(2)] show ?case by simp
qed simp

lemma run_base_typed:
  assumes "typed_logger s" and "typed_work K w" and "run_base E H w s = Inr s'"
  shows "typed_logger s'"
proof -
  have wf: "wf_message K (BaseMsg s)" and hs: "\<forall>p. hinv (Store s p)" and k: "key_set K"
    using assms(1) keys by (auto simp: typed_logger_def)
  show ?thesis
  proof (cases w)
    case (LogWork L m fs tid)
    with assms(3) obtain st where st: "add_to_handlers E H (log_message E L m fs tid s) (Handlers s) (Store s) = Inr st"
      "s' = s\<lparr>Store := st, Ticks := Suc (Ticks s)\<rparr>" by (auto split: sum.splits)
    have "wf_fields K fs" using assms(2) LogWork by simp
    with st add_all [OF st(1) wf_log_message [OF k wf] hs] wf show ?thesis by (simp add: typed_logger_def)
  next
    case (FmtWork L f args tid)
    with assms(3) obtain st where st: "add_to_handlers E H (fmt_message E L f args tid s) (Handlers s) (Store s) = Inr st"
      "s' = s\<lparr>Store := st, Ticks := Suc (Ticks s)\<rparr>" by (auto split: sum.splits)
    with add_all [OF st(1) wf_fmt_message [OF wf] hs] wf show ?thesis by (simp add: typed_logger_def)
  next
    case (FlushHandlers j)
    with assms(3) obtain rs st where st: "flush_handlers H (Threads s) (Handlers s) (Store s) = Inr (rs, st)"
      "Store s' = st" "BaseMsg s' = BaseMsg s" by (auto split: sum.splits)
    with flush_all [OF st(1) hs] wf show ?thesis by (simp add: typed_logger_def)
  next
    case (FieldWork key f)
    with assms(2,3) wf_addField [OF k wf] hs show ?thesis by (auto simp: typed_logger_def)
  qed (use assms(3) wf hs wf_init_base in
      \<open>auto simp: typed_logger_def notify_check_def add_or_replace_def split: prod.splits if_splits\<close>)
qed

sublocale typed_worker: worker_object "run_base E H" typed_logger "typed_work K" for E :: "'a platform"
  by unfold_locales (rule run_base_typed)

end

section \<open>The handler classes\<close>

text \<open>
  What a handler has queued was made from well-formed messages. The third-party queues keep
  their contracts, and the I/O thread does nothing but its steps.
\<close>

definition io_law :: "('c, 'f, 'g) handler_env \<Rightarrow> bool" where
  "io_law V \<longleftrightarrow> (\<forall>g. \<exists>srt fifo. (io_step (graylog_q V) srt fifo)\<^sup>*\<^sup>* g (io_run V g))"

definition typed_handler ::
  "('c, 'f, 'g) handler_env \<Rightarrow> ('c \<Rightarrow> nat \<Rightarrow> console_work task list) \<Rightarrow> ('f \<Rightarrow> nat \<Rightarrow> file_work task list)
     \<Rightarrow> ('g \<Rightarrow> nat \<Rightarrow> queued list) \<Rightarrow> string set \<Rightarrow> ('c, 'f, 'g) handler \<Rightarrow> bool" where
  "typed_handler V cpend fpend gpend K h \<longleftrightarrow>
     key_set K \<and> queue_contract (console_q V) cpend \<and> queue_contract (file_q V) fpend
     \<and> bounded_contract (graylog_q V) gpend \<and> io_law V
     \<and> (case h of
          ConsoleH c \<Rightarrow> \<forall>p m. Work (PrintMessage m) \<in> set (cpend (MessageQueue c) p) \<longrightarrow> wf_message K m
        | FileH f \<Rightarrow> \<forall>p m. Work (WriteMessage m) \<in> set (fpend (MessageQueue f) p) \<longrightarrow> wf_message K m
        | GraylogH g \<Rightarrow> \<forall>p s. MsgFunc s \<in> set (gpend (LogMessages g) p) \<longrightarrow>
            (\<exists>m. wf_message K m \<and> logMsgToJSON (json_dump V) (to_secs V) m = Inr s))"

lemma worker_only_takes:
  assumes "queue_contract Q pend" and "ThreadFunction Q run n ex = Inr ex'"
    and "w \<in> set (pend (MessageQueue ex') p)"
  shows "w \<in> set (pend (MessageQueue ex) p)"
proof (cases "RunThread ex")
  case True
  from ThreadFunction_runs [OF assms(1,2) True] obtain ts where
    "takes (pend (MessageQueue ex)) ts (pend (MessageQueue ex'))" by blast
  from takesD [OF this, of p] assms(3) show ?thesis by simp
next
  case False
  then show ?thesis using assms(2,3) by (simp add: ThreadFunction_stopped)
qed

lemma trySendMessage_takes:
  assumes "bounded_contract Q pend" and "f \<in> set (pend (LogMessages (trySendMessage Q s)) p)"
  shows "f \<in> set (pend (LogMessages s) p)"
proof -
  obtain us where "delivers pend s us (trySendMessage Q s)" using trySendMessage_delivers [OF assms(1)] by blast
  then have "takes (pend (LogMessages s)) us (pend (LogMessages (trySendMessage Q s)))"
    unfolding delivers_def by blast
  from takesD [OF this, of p] assms(2) show ?thesis by simp
qed

lemma run_handler_takes:
  assumes "bounded_contract Q pend" and f: "f \<in> set (pend (LogMessages (run_handler Q srt c n s)) p)"
  shows "f \<in> set (pend (LogMessages s) p)"
proof -
  note sent = trySendMessage_takes [OF assms(1)]
  show ?thesis
  proof (cases c)
    case (Connected Err r)
    with f show ?thesis
      by (auto simp: connectHandler_def Let_def asio_data split: if_splits dest!: sent)
  next
    case (Written Err data)
    with f show ?thesis
      by (auto simp: sentMessageHandler_def Let_def asio_data split: if_splits dest!: sent)
  next
    case Posted
    with f show ?thesis by (auto dest!: sent)
  qed (use f in \<open>simp_all add: resolverHandler_def receiveHandler_def asio_data split: if_splits\<close>)
qed

lemma io_takes:
  assumes "bounded_contract Q pend" and "(io_step Q srt fifo)\<^sup>*\<^sup>* g g'"
    and "f \<in> set (pend (LogMessages g') p)"
  shows "f \<in> set (pend (LogMessages g) p)"
  using assms(2,3)
proof (induction rule: rtranclp_induct)
  case (step s t)
  from step(2) have "f \<in> set (pend (LogMessages s) p)"
  proof (cases rule: io_step.cases)
    case (complete_op us op vs c)
    with step.prems show ?thesis by simp
  next
    case (run_ready us c vs n)
    with step.prems run_handler_takes [OF assms(1), of f srt c n "s\<lparr>Ready := us @ vs\<rparr>" p]
    show ?thesis by simp
  qed
  with step.IH show ?case by blast
qed

lemma typed_handler_add:
  assumes "typed_handler V cpend fpend gpend K h" and "wf_message K m"
    and "virtual_addMessage V thr m h = Inr h'"
  shows "typed_handler V cpend fpend gpend K h'"
proof (cases h)
  case (ConsoleH c)
  with assms show ?thesis
    by (auto simp: typed_handler_def virtual_addMessage_def map_result_def console_addMessage_def SendWork_def
        contract_enqueue)
next
  case (FileH f)
  with assms show ?thesis
    by (auto simp: typed_handler_def virtual_addMessage_def map_result_def file_addMessage_def SendWork_def
        contract_enqueue)
next
  case (GraylogH g)
  with assms(3) obtain s where s: "logMsgToJSON (json_dump V) (to_secs V) m = Inr s"
    "h' = GraylogH (sendMessage (graylog_q V) thr s g)"
    by (auto simp: virtual_addMessage_def map_result_def graylog_addMessage_def split: sum.splits)
  obtain b q where bq: "b_try_enqueue (graylog_q V) thr (MsgFunc s) (LogMessages g) = (b, q)" by fastforce
  have "bounded_contract (graylog_q V) gpend" using assms(1) by (simp add: typed_handler_def)
  from bounded_enqueue [OF this bq] s bq assms(1,2) GraylogH show ?thesis
    by (auto simp: typed_handler_def sendMessage_def split: if_splits)
qed

lemma typed_handler_flush:
  assumes "typed_handler V cpend fpend gpend K h" and "virtual_flush V thr h = Inr (r, h')"
  shows "typed_handler V cpend fpend gpend K h'"
proof (cases h)
  case (ConsoleH c)
  let ?c = "SendWork (console_q V) thr (Work (FlushCout thr)) c"
  from ConsoleH assms(2) obtain c' where c': "ThreadFunction (console_q V) run_console (flush_budget V) ?c = Inr c'"
    "h' = ConsoleH c'"
    by (auto simp: virtual_flush_def map_result_def console_flush_def split: sum.splits)
  have q: "queue_contract (console_q V) cpend" using assms(1) by (simp add: typed_handler_def)
  with worker_only_takes [OF q c'(1)] c'(2) ConsoleH assms(1) show ?thesis
    by (fastforce simp: typed_handler_def SendWork_def contract_enqueue split: if_splits)
next
  case (FileH f)
  let ?f = "SendWork (file_q V) thr (Work (FlushFile thr)) f"
  from FileH assms(2) obtain f' where f': "ThreadFunction (file_q V) (run_file (local_time V) (file_disk V))
      (flush_budget V) ?f = Inr f'" "h' = FileH f'"
    by (auto simp: virtual_flush_def map_result_def file_flush_def split: sum.splits)
  have q: "queue_contract (file_q V) fpend" using assms(1) by (simp add: typed_handler_def)
  with worker_only_takes [OF q f'(1)] f'(2) FileH assms(1) show ?thesis
    by (fastforce simp: typed_handler_def SendWork_def contract_enqueue split: if_splits)
next
  case (GraylogH g)
  let ?g = "flush_start (graylog_q V) thr thr g"
  have h': "h' = GraylogH (io_run V ?g)" using assms(2) GraylogH by (simp add: virtual_flush_def Let_def)
  obtain b q where bq: "b_try_enqueue (graylog_q V) thr (FlushFunc thr) (LogMessages g) = (b, q)" by fastforce
  have c: "bounded_contract (graylog_q V) gpend" and "io_law V" using assms(1) by (simp_all add: typed_handler_def)
  then obtain srt fifo where "(io_step (graylog_q V) srt fifo)\<^sup>*\<^sup>* ?g (io_run V ?g)" unfolding io_law_def by blast
  note taken = io_takes [OF c this]
  have "MsgFunc s \<in> set (gpend (LogMessages g) p)" if "MsgFunc s \<in> set (gpend (LogMessages ?g) p)" for s p
    using that bounded_enqueue [OF c bq] bq by (cases b) (auto simp: flush_start_def split: if_splits)
  with taken h' GraylogH assms(1) show ?thesis unfolding typed_handler_def by fastforce
qed

interpretation virtual_typed: typed_handlers "virtual_ops V" "typed_handler V cpend fpend gpend K" K
  for V :: "('c, 'f, 'g) handler_env" and cpend fpend gpend K
proof unfold_locales
  show "typed_handler V cpend fpend gpend K h \<Longrightarrow> key_set K" for h by (simp add: typed_handler_def)
qed (auto simp: virtual_ops_def intro: typed_handler_add typed_handler_flush)

section \<open>Properties\<close>

text \<open>
  C16: type safety of the message path. If the client calls use keys of \<open>K\<close> and fields made by
  the constructors of \<open>AdditionalField\<close>, then whatever the logger's worker runs, in whatever
  order the queue gives it, the message of the logger stays well-formed, and every message
  that is queued for printing or writing, and every JSON text that is queued for the server,
  is (made from) a well-formed message: its tags fit its values and its keys are different.
\<close>

theorem handlers_get_typed_messages:
  fixes V :: "('c, 'f, 'g) handler_env"
  assumes "queue_contract Q pend" and "RunThread b"
    and "\<forall>p w. Work w \<in> set (pend (MessageQueue b) p) \<longrightarrow> typed_work K w"
    and "wf_message K (BaseMsg (target b))"
    and "\<forall>p. typed_handler V cpend fpend gpend K (Store (target b) p)"
    and "ThreadFunction Q (run_base E (virtual_ops V)) n b = Inr b'"
  shows "wf_message K (BaseMsg (target b'))
    \<and> (\<forall>p. typed_handler V cpend fpend gpend K (Store (target b') p))"
proof -
  have works: "typed_work K w" if "Work w \<in> set (pend (MessageQueue b) p)" for p w
    using assms(3) that by blast
  have "virtual_typed.typed_logger V cpend fpend gpend K (target b)"
    using assms(4,5) by (simp add: virtual_typed.typed_logger_def)
  from virtual_typed.typed_worker.worker_inv [OF assms(1,6,2) works this] show ?thesis
    by (simp add: virtual_typed.typed_logger_def)
qed

text \<open>A thread adds a default field and logs; the fields that its closures carry are typed.\<close>

definition typed_start ::
  "((nat \<times> nat base_work task) list, ((nat \<times> console_work task) list, (nat \<times> file_work task) list,
     (nat \<times> queued) list) handler) base" where
  "typed_start = foldr (\<lambda>w. SendWork list_queue 1 (Work w))
     [LogWork Error ''boom'' [(''line'', AdditionalField_int 7)] 1, FieldWork ''user'' (AdditionalField_str ''me''),
      PushHandler 0 1]
     (LoggingBase list_queue [] (\<lambda>_. ConsoleH (ConsoleInterface [])) 1)"

theorem handlers_get_typed_messages_witness:
  "\<exists>b'. ThreadFunction list_queue (run_base test_platform (virtual_ops test_env)) 4 typed_start = Inr b'
    \<and> wf_message {''user'', ''line''} (BaseMsg (target b'))
    \<and> typed_handler test_env list_pend list_pend list_pend {''user'', ''line''} (Store (target b') 0)"
proof -
  let ?K = "{''user'', ''line''}" and ?run = "run_base test_platform (virtual_ops test_env)"
  have "case ThreadFunction list_queue ?run 4 typed_start of Inl e \<Rightarrow> False | Inr b \<Rightarrow> True" by code_simp
  then obtain b' where b': "ThreadFunction list_queue ?run 4 typed_start = Inr b'" by (auto split: sum.splits)
  have run: "RunThread typed_start" by (simp add: typed_start_def LoggingBase_def SendWork_def ThreadedExecutor_def)
  have works: "\<forall>p w. Work w \<in> set (list_pend (MessageQueue typed_start) p) \<longrightarrow> typed_work ?K w"
    by (auto simp: typed_start_def LoggingBase_def SendWork_def ThreadedExecutor_def list_queue_def
        list_pend_def of_producer_def wf_fields_def split: if_splits)
  have msg: "wf_message ?K (BaseMsg (target typed_start))"
    by (simp add: typed_start_def LoggingBase_def SendWork_def ThreadedExecutor_def logger_new_def
        LogMessage_default_def wf_message_def distinct_keys_def wf_fields_def)
  have "io_law test_env" unfolding io_law_def test_env_def by (auto intro: exI)
  then have handlers: "\<forall>p. typed_handler test_env list_pend list_pend list_pend ?K (Store (target typed_start) p)"
    by (simp add: list_queue_contract bounded_list_contract typed_start_def LoggingBase_def SendWork_def
        ThreadedExecutor_def logger_new_def typed_handler_def
        test_env_def key_set_def ConsoleInterface_def list_pend_def of_producer_def)
  from handlers_get_typed_messages [OF list_queue_contract run works msg handlers b'] b' show ?thesis by blast
qed

end
