(* ===== verification/Performance_Test.thy ===== *)
theory Performance_Test
  imports Logging_Sync Base_Handler "HOL-Library.Sublist"
begin

text \<open>
  Model of the performance tests (\<open>performance_test/PerformanceTest.cpp\<close>) and of the handler
  that they log to (\<open>performance_test/DummyLogHandler.h\<close>, \<open>DummyLogHandler.cpp\<close>). The
  benchmark library decides the number of iterations, the random number generator the
  severities; both are parameters. A benchmark is the sequence of its calls of the logger.
\<close>

section \<open>The dummy handler\<close>

text \<open>
  Its closures are empty, and the handler has no state but its executor. To say that a closure
  was run, the model counts the runs: the object that the closures would change is the number
  of closures that the worker has called so far.
\<close>

type_synonym 'q dummy_handler = "('q, nat) executor"
type_synonym 'q dummy_queue = "('q, unit task) queue_ops"



definition dummy_addMessage :: "'q dummy_queue \<Rightarrow> nat \<Rightarrow> LogMessage \<Rightarrow> 'q dummy_handler \<Rightarrow> exn + 'q dummy_handler" where
  "dummy_addMessage Q thr Message h = Inr (SendWork Q thr (Work ()) h)"

definition dummy_emptyQueue :: "'q dummy_handler \<Rightarrow> bool" where
  "dummy_emptyQueue h = True"

definition dummy_queueSize :: "'q dummy_handler \<Rightarrow> nat" where
  "dummy_queueSize h = 0"



definition dummy_accepted :: "('q \<Rightarrow> nat \<Rightarrow> unit task list) \<Rightarrow> nat \<Rightarrow> 'q dummy_handler \<Rightarrow> unit list" where
  "dummy_accepted pend thr h = payload (pend (MessageQueue h) thr)"

interpretation dummy_sink: reliable_log_handler "dummy_addMessage Q" "dummy_accepted pend" "\<lambda>_. ()"
  "\<lambda>_. queue_contract Q pend"
  for Q :: "'q dummy_queue" and pend
  by unfold_locales (auto simp: dummy_addMessage_def dummy_accepted_def SendWork_def contract_enqueue)

section \<open>The benchmarks\<close>














section \<open>What the dummy handler gets\<close>













section \<open>All threads interleaved\<close>





















section \<open>How a benchmark ends\<close>






section \<open>Properties\<close>





end
