(* ===== verification/Package_Test.thy ===== *)
theory Package_Test
  imports System
begin

text \<open>
  Model of the program of the package test (\<open>test_package/main.cpp\<close>): it logs one line through
  the public interface and returns. The singleton is created by the first call of \<open>Inst\<close>, with
  its console handler, and is destroyed when the program ends.
\<close>

definition package_message :: string where
  "package_message = ''All good - it'' @ [CHR 0x27] @ ''s just a test. Hello from the test_package.''"

text \<open>
  \<open>main\<close> on the worker's schedule: \<open>n0\<close> iterations after the constructor of the logger, \<open>n\<close>
  after the message.
\<close>

definition test_package_main ::
  "('q, 'a) base_queue \<Rightarrow> 'a platform \<Rightarrow> 'h handler_ops \<Rightarrow> 'q \<Rightarrow> (nat \<Rightarrow> 'h) \<Rightarrow> nat \<Rightarrow> nat \<Rightarrow> nat
     \<Rightarrow> exn + (int \<times> ('q, 'h) base)" where
  "test_package_main Q E H q0 st thr n0 n =
     (case ThreadFunction Q (run_base E H) n0 (fst (Inst (Logger Q q0 st thr 0) None)) of
        Inl e \<Rightarrow> Inl e
      | Inr b \<Rightarrow>
          (case ThreadFunction Q (run_base E H) n (Msg Q thr Warning package_message b) of
             Inl e \<Rightarrow> Inl e
           | Inr b' \<Rightarrow> Inr (0, b')))"

lemma main_session:
  assumes "test_package_main Q E H q0 st thr n0 n = Inr (r, b)"
  shows "session Q E H thr 0 ((CAddOrReplace 0, n0) # log_calls [(Warning, package_message, n)])
      (LoggingBase Q q0 st thr) = Inr (True, b)"
  using assms
  by (auto simp: test_package_main_def Inst_def Logger_def Msg_def log_plain_def log_calls_def await_def waits_def
      split: sum.splits)

section \<open>Properties\<close>

text \<open>
  The package test prints its line. \<open>main\<close> returns 0, the destruction of the logger returns,
  and then standard output holds exactly the text of the message, with its severity.
\<close>

theorem package_test_prints:
  assumes "queue_contract Q pend" and "queue_live Q pend" and "pend q0 = (\<lambda>_. [])"
    and "queue_contract (console_q V) cpend" and "queue_live (console_q V) cpend" and "cpend c0 = (\<lambda>_. [])"
    and "test_package_main Q E (virtual_ops V) q0 (\<lambda>_. ConsoleH (ConsoleInterface c0)) thr n0 n = Inr (r, b)"
  shows "r = 0 \<and> (\<exists>i j k b' c c'. destroy_LoggingBase Q E (virtual_ops V) thr 2 i j b = Inr (Some (), b')
    \<and> \<not> RunThread b' \<and> Store (target b') 0 = ConsoleH c
    \<and> ThreadFunction (console_q V) run_console k (destroy_send (console_q V) (worker E) c) = Inr c'
    \<and> \<not> RunThread c' \<and> Stdout (target c') = ''WARNING: '' @ package_message @ newline)"
proof -
  let ?ls = "[(Warning, package_message, n)]"
  have known: "\<forall>l \<in> set ?ls. known_severity (fst l) \<and> nul \<notin> set (fst (snd l))" by code_simp
  have line: "concat (map printed_line (filter (\<lambda>l. fst l \<le> Notice) ?ls)) = ''WARNING: '' @ package_message @ newline"
    by code_simp
  have "r = 0" using assms(7) by (simp add: test_package_main_def split: sum.splits)
  with console_session_prints [OF assms(1-6) known main_session [OF assms(7)]] show ?thesis
    unfolding line by (simp add: eval_nat_numeral)
qed

theorem package_test_prints_witness:
  "\<exists>b. test_package_main list_queue test_platform (virtual_ops test_env) [] (\<lambda>_. ConsoleH (ConsoleInterface [])) 1 2 0 = Inr (0, b)
    \<and> (\<exists>i j b' c k c'. destroy_LoggingBase list_queue test_platform (virtual_ops test_env) 1 2 i j b = Inr (Some (), b')
      \<and> Store (target b') 0 = ConsoleH c
      \<and> ThreadFunction list_queue run_console k (destroy_send list_queue 99 c) = Inr c'
      \<and> Stdout (target c') = ''WARNING: '' @ package_message @ newline)"
proof -
  let ?st = "\<lambda>_. ConsoleH (ConsoleInterface [])"
  have "case test_package_main list_queue test_platform (virtual_ops test_env) [] ?st 1 2 0 of Inl e \<Rightarrow> False | Inr (r, b) \<Rightarrow> r = 0"
    by code_simp
  then obtain b where b: "test_package_main list_queue test_platform (virtual_ops test_env) [] ?st 1 2 0 = Inr (0, b)"
    by (auto split: sum.splits)
  have e: "console_q test_env = list_queue" "worker test_platform = 99"
    by (simp_all add: test_env_def test_platform_def)
  have empty: "list_pend [] = (\<lambda>_. [] :: nat base_work task list)"
    "list_pend [] = (\<lambda>_. [] :: console_work task list)" by (simp_all add: list_pend_def fun_eq_iff)
  have q: "queue_contract (console_q test_env) list_pend" "queue_live (console_q test_env) list_pend"
    using list_queue_contract list_queue_live by (simp_all add: test_env_def)
  from package_test_prints [OF list_queue_contract list_queue_live empty(1) q empty(2) b] b
  show ?thesis unfolding e by blast
qed

end
