(* ===== verification/Network.thy ===== *)
theory Network
  imports Server_Sockets Graylog_Progress
begin

text \<open>
  The Graylog connection and the test server on one network: the client of
  \<open>src/GraylogConnection.cpp\<close> and the server of \<open>unit_tests/LogTestServer.cpp\<close>, each with its
  own thread, and between them name resolution and TCP. The two component models leave the
  outcome of every asynchronous operation open; here the outcome is the one that the network
  gives, as a function of the state of both sides.

  TCP is modelled as documented: a connection to a listening port is established before the
  server accepts it (\<open>unaccepted\<close>); each connection carries bytes in order (\<open>wire\<close>); an end that
  was closed shows as end of file, or as a failure of what is outstanding on the other side.
\<close>

section \<open>The network\<close>

text \<open>
  Connections are numbered. \<open>client_conn\<close> is the one that the client's socket belongs to,
  \<open>peer\<close> the server's socket for a connection that was accepted, \<open>written\<close> the number of bytes
  that the outstanding write has put on the wire. \<open>history\<close> and \<open>delivered\<close> record, for the
  statements, the closures that the client's queue accepted and the bytes that the server read.
\<close>

record 'q network =
  client :: "'q impl"
  log_server :: server
  unaccepted :: "nat list"
  peer :: "nat \<Rightarrow> nat option"
  wire :: "nat \<Rightarrow> string"
  next_conn :: nat
  client_conn :: "nat option"
  written :: nat
  history :: "(nat \<times> queued) list"
  delivered :: string

text \<open>The resolver of the operating system: \<open>None\<close> is an error.\<close>

type_synonym resolver = "string \<Rightarrow> string \<Rightarrow> endpoint list option"

definition testPort :: int where
  "testPort = 2526"

definition listens :: "'q network \<Rightarrow> endpoint \<Rightarrow> bool" where
  "listens s ep \<longleftrightarrow> AcceptorOpen (log_server s) \<and> int (ep_port ep) = testPort"

definition server_closed :: "'q network \<Rightarrow> nat \<Rightarrow> bool" where
  "server_closed s i = (case peer s i of None \<Rightarrow> False | Some k \<Rightarrow> k \<in> set (Closed (log_server s)))"

text \<open>An operation of the client leaves \<open>Inflight\<close>, and its completion waits for the I/O thread.\<close>

definition complete :: "async_op list \<Rightarrow> completion \<Rightarrow> 'q network \<Rightarrow> 'q network" where
  "complete ops c s = s\<lparr>client := (client s)\<lparr>Inflight := ops, Ready := Ready (client s) @ [c]\<rparr>\<rparr>"

definition lookup_result :: "resolver \<Rightarrow> 'q impl \<Rightarrow> completion" where
  "lookup_result resolve c = (case resolve (HostAddress c) (HostPort c) of
     None \<Rightarrow> Resolved True [] | Some eps \<Rightarrow> Resolved False eps)"

text \<open>The I/O thread runs the oldest ready handler; a socket that it closed leaves its connection.\<close>

fun write_count :: "completion \<Rightarrow> nat \<Rightarrow> nat" where
  "write_count (Written Err data) n = n"
| "write_count c n = 0"

definition client_runs ::
  "'q bounded_queue_ops \<Rightarrow> (endpoint list \<Rightarrow> endpoint list) \<Rightarrow> completion \<Rightarrow> completion list
     \<Rightarrow> 'q network \<Rightarrow> 'q network" where
  "client_runs Q srt c cs s =
     (let t = run_handler Q srt c (write_count c (written s)) ((client s)\<lparr>Ready := cs\<rparr>)
      in s\<lparr>client := t, client_conn := (if SocketOpen t then client_conn s else None),
           written := written s - write_count c (written s)\<rparr>)"

definition serve :: "(server \<Rightarrow> server) \<Rightarrow> 'q network \<Rightarrow> 'q network" where
  "serve f s = s\<lparr>log_server := f (log_server s)\<rparr>"

definition eof :: error_code where
  "eof = Other_error 2"

section \<open>Steps\<close>

text \<open>
  The steps of the two service threads and of the network. The threads of the programs that
  use the client and the server act between steps.
\<close>

inductive net_step ::
  "'q bounded_queue_ops \<Rightarrow> (endpoint list \<Rightarrow> endpoint list) \<Rightarrow> resolver \<Rightarrow> 'q network \<Rightarrow> 'q network \<Rightarrow> bool"
  for Q :: "'q bounded_queue_ops" and srt :: "endpoint list \<Rightarrow> endpoint list" and resolve :: resolver
  where
  resolved: "Inflight (client s) = us @ Async_resolve # vs \<Longrightarrow>
    net_step Q srt resolve s (complete (us @ vs) (lookup_result resolve (client s)) s)"
| established: "Inflight (client s) = us @ Async_connect ep r # vs \<Longrightarrow> listens s ep \<Longrightarrow>
    net_step Q srt resolve s ((complete (us @ vs) (Connected False r) s)
      \<lparr>unaccepted := unaccepted s @ [next_conn s], client_conn := Some (next_conn s), next_conn := Suc (next_conn s)\<rparr>)"
| refused: "Inflight (client s) = us @ Async_connect ep r # vs \<Longrightarrow> \<not> listens s ep \<Longrightarrow>
    net_step Q srt resolve s (complete (us @ vs) (Connected True r) s)"
| timer: "Inflight (client s) = us @ Async_wait # vs \<Longrightarrow>
    net_step Q srt resolve s (complete (us @ vs) Waited s)"
| peer_lost: "Inflight (client s) = us @ Async_receive # vs \<Longrightarrow> client_conn s = Some i \<Longrightarrow> server_closed s i \<Longrightarrow>
    net_step Q srt resolve s (complete (us @ vs) (Received True) s)"
| write_some: "Async_write data \<in> set (Inflight (client s)) \<Longrightarrow> client_conn s = Some i \<Longrightarrow>
    written s < m \<Longrightarrow> m \<le> length data \<Longrightarrow>
    net_step Q srt resolve s (s\<lparr>wire := (wire s)(i := wire s i @ drop (written s) (take m data)), written := m\<rparr>)"
| write_done: "Inflight (client s) = us @ Async_write data # vs \<Longrightarrow> written s = length data \<Longrightarrow>
    net_step Q srt resolve s (complete (us @ vs) (Written False data) s)"
| write_failed: "Inflight (client s) = us @ Async_write data # vs \<Longrightarrow> client_conn s = Some i \<Longrightarrow> server_closed s i \<Longrightarrow>
    net_step Q srt resolve s (complete (us @ vs) (Written True data) s)"
| handler: "Ready (client s) = c # cs \<Longrightarrow> net_step Q srt resolve s (client_runs Q srt c cs s)"
| accept: "Accepting (log_server s) = us @ k # vs \<Longrightarrow> unaccepted s = i # js \<Longrightarrow>
    net_step Q srt resolve s (serve (\<lambda>v. OnConnectionAccept Success k (v\<lparr>Accepting := us @ vs\<rparr>))
      (s\<lparr>unaccepted := js, peer := (peer s)(i := Some k)\<rparr>))"
| read_block: "Reading (log_server s) = us @ k # vs \<Longrightarrow> peer s i = Some k \<Longrightarrow> wire s i = block @ rest \<Longrightarrow>
    block \<noteq> [] \<Longrightarrow> length block \<le> bufferSize \<Longrightarrow>
    net_step Q srt resolve s (serve (\<lambda>v. HandleRead Success block k (v\<lparr>Reading := us @ vs\<rparr>))
      (s\<lparr>wire := (wire s)(i := rest), delivered := delivered s @ block\<rparr>))"
| read_end: "Reading (log_server s) = us @ k # vs \<Longrightarrow> peer s i = Some k \<Longrightarrow> wire s i = [] \<Longrightarrow>
    client_conn s \<noteq> Some i \<Longrightarrow>
    net_step Q srt resolve s (serve (\<lambda>v. HandleRead eof [] k (v\<lparr>Reading := us @ vs\<rparr>)) s)"
| read_aborted: "Reading (log_server s) = us @ k # vs \<Longrightarrow> k \<in> set (Closed (log_server s)) \<Longrightarrow>
    net_step Q srt resolve s (serve (\<lambda>v. HandleRead Operation_aborted [] k (v\<lparr>Reading := us @ vs\<rparr>)) s)"
| closes: "CloseRequests (log_server s) = Suc n \<Longrightarrow>
    net_step Q srt resolve s (serve (\<lambda>v. CloseFunction (v\<lparr>CloseRequests := n\<rparr>)) s)"

inductive_cases net_stepE: "net_step Q srt resolve s t"

section \<open>What the handlers do to the client's operations\<close>

lemma handler_ops:
  "Inflight (close_socket c) = filter (\<lambda>op. \<not> on_socket op) (Inflight c)"
  "Ready (close_socket c) = Ready c @ map aborted (filter on_socket (Inflight c))"
  "Inflight (reConnect d c) = filter (\<lambda>op. op \<noteq> Async_wait) (Inflight c) @ [Async_wait]"
  "Ready (reConnect d c) = Ready c @ map aborted (filter (\<lambda>op. op = Async_wait) (Inflight c))"
  "Inflight (tryConnect r c) = Inflight c @ [Async_connect (fst (getNextEndpoint r)) (snd (getNextEndpoint r))]"
  "Ready (tryConnect r c) = Ready c"
  "Inflight (doAddressQuery c) = Inflight c @ [Async_resolve]" "Ready (doAddressQuery c) = Ready c"
  "Inflight (start_op op c) = Inflight c @ [op]" "Ready (start_op op c) = Ready c"
  "Inflight (setState st c) = Inflight c" "Ready (setState st c) = Ready c"
  by (simp_all add: close_socket_def reConnect_def expires_after_def cancel_ops_def setState_def start_op_def
      tryConnect_def async_connect_def doAddressQuery_def split: prod.splits)

lemma handler_members:
  "HostAddress (close_socket c) = HostAddress c" "HostPort (close_socket c) = HostPort c" "Expiry (close_socket c) = Expiry c"
  "HostAddress (reConnect d c) = HostAddress c" "HostPort (reConnect d c) = HostPort c" "Expiry (reConnect d c) = d"
  "HostAddress (tryConnect r c) = HostAddress c" "HostPort (tryConnect r c) = HostPort c" "Expiry (tryConnect r c) = Expiry c"
  "HostAddress (doAddressQuery c) = HostAddress c" "HostPort (doAddressQuery c) = HostPort c"
  "Expiry (doAddressQuery c) = Expiry c" "HostAddress (start_op op c) = HostAddress c"
  "HostPort (start_op op c) = HostPort c" "Expiry (start_op op c) = Expiry c"
  "HostAddress (setState st c) = HostAddress c" "HostPort (setState st c) = HostPort c" "Expiry (setState st c) = Expiry c"
  "SocketOpen (reConnect d c) = SocketOpen c" "SocketOpen (doAddressQuery c) = SocketOpen c"
  by (simp_all add: close_socket_def reConnect_def expires_after_def cancel_ops_def setState_def start_op_def
      tryConnect_def async_connect_def doAddressQuery_def split: prod.splits)

text \<open>A send starts at most one write or posts at most one call.\<close>

lemma trySendMessage_ops:
  obtains ws ps where "Inflight (trySendMessage Q c) = Inflight c @ ws" "list_all is_write ws"
    "Ready (trySendMessage Q c) = Ready c @ ps" "set ps \<subseteq> {Posted}"
    "HostAddress (trySendMessage Q c) = HostAddress c" "HostPort (trySendMessage Q c) = HostPort c"
    "Expiry (trySendMessage Q c) = Expiry c" "SocketOpen (trySendMessage Q c) = SocketOpen c"
proof -
  have call: "Inflight s' = Inflight s \<and> Ready s' = Ready s \<and> HostAddress s' = HostAddress s \<and> HostPort s' = HostPort s
      \<and> Expiry s' = Expiry s \<and> SocketOpen s' = SocketOpen s" if "call_queued f s = (m, s')" for f m and s s' :: "'a impl"
    using that by (cases f) auto
  have "\<exists>ws ps. Inflight (trySendMessage Q c) = Inflight c @ ws \<and> list_all is_write ws
    \<and> Ready (trySendMessage Q c) = Ready c @ ps \<and> set ps \<subseteq> {Posted}
    \<and> HostAddress (trySendMessage Q c) = HostAddress c \<and> HostPort (trySendMessage Q c) = HostPort c
    \<and> Expiry (trySendMessage Q c) = Expiry c \<and> SocketOpen (trySendMessage Q c) = SocketOpen c"
    by (auto simp: trySendMessage_def async_write_def start_op_def post_def split: option.splits prod.splits
        dest!: call)
  then show ?thesis using that by blast
qed

section \<open>Invariants of the components in the composition\<close>

text \<open>What is on the wire of the outstanding write is part of the message buffer.\<close>

definition writing :: "'q impl \<Rightarrow> bool" where
  "writing c \<longleftrightarrow> list_ex is_write (Inflight c) \<or> (\<exists>Err data. Written Err data \<in> set (Ready c))"

definition written_ok :: "'q network \<Rightarrow> bool" where
  "written_ok s \<longleftrightarrow> written s \<le> length (MessageBuffer (client s))
     \<and> (\<forall>data. Written False data \<in> set (Ready (client s)) \<longrightarrow> written s = length (MessageBuffer (client s)))
     \<and> (0 < written s \<longrightarrow> writing (client s))"

definition client_ok :: "'q network \<Rightarrow> bool" where
  "client_ok s \<longleftrightarrow> control_inv (client s) \<and> chain_inv (client s) \<and> live_inv (client s) \<and> written_ok s"

lemma writing_sends: "chain_inv c \<Longrightarrow> writing c \<Longrightarrow> sends c = 1"
  by (fastforce simp: writing_def chain_inv_def sends_def list_ex_iff filter_empty_conv le_Suc_eq)

lemma complete_step:
  assumes "Inflight (client s) = us @ op # vs" and "completes op c"
  shows "io_step Q srt True (client s) (client (complete (us @ vs) c s))"
  using complete_op [OF assms] by (simp add: complete_def)

lemma client_runs_step:
  assumes "client_ok s" and "Ready (client s) = c # cs"
  shows "io_step Q srt True (client s) (client (client_runs Q srt c cs s))"
proof -
  have "count_ok c (write_count c (written s))"
  proof (cases c)
    case (Written Err data)
    with assms have "data = MessageBuffer (client s)" by (simp add: client_ok_def chain_inv_def)
    with Written assms show ?thesis by (cases Err) (auto simp: client_ok_def written_ok_def)
  qed simp_all
  with assms(2) show ?thesis
    using run_ready [of "client s" "[]" c cs True "write_count c (written s)" Q srt]
    by (simp add: client_runs_def Let_def)
qed

lemma lookup_completes: "completes Async_resolve (lookup_result resolve c)"
  by (simp add: lookup_result_def split: option.splits)

text \<open>
  Every step is, for the client, a step of its I/O thread with an outcome that the network
  chose, or nothing.
\<close>

lemma net_step_client:
  assumes "net_step Q srt resolve s t" and "client_ok s"
  shows "io_step Q srt True (client s) (client t) \<or> client t = client s"
  using assms(1)
proof (cases rule: net_step.cases)
  case (resolved us vs)
  with complete_step [OF resolved(2) lookup_completes [of resolve "client s"]] show ?thesis by simp
next
  case (established us ep r vs)
  with complete_step [OF established(2), of "Connected False r"] show ?thesis by simp
next
  case (refused us ep r vs)
  with complete_step [OF refused(2), of "Connected True r"] show ?thesis by simp
next
  case (timer us vs)
  with complete_step [OF timer(2), of Waited] show ?thesis by simp
next
  case (peer_lost us vs i)
  with complete_step [OF peer_lost(2), of "Received True"] show ?thesis by simp
next
  case (write_done us data vs)
  with complete_step [OF write_done(2), of "Written False data"] show ?thesis by simp
next
  case (write_failed us data vs i)
  with complete_step [OF write_failed(2), of "Written True data"] show ?thesis by simp
next
  case (handler c cs)
  with client_runs_step [OF assms(2) handler(2)] show ?thesis by simp
qed (simp_all add: serve_def)

text \<open>A completed operation keeps the write, or is its completion.\<close>

lemma complete_written_ok:
  assumes "written_ok s" and "Inflight (client s) = us @ op # vs" and "completes op c"
    and "\<And>data. c = Written False data \<Longrightarrow> written s = length (MessageBuffer (client s))"
  shows "written_ok (complete (us @ vs) c s)"
proof -
  have "writing (client (complete (us @ vs) c s))" if "writing (client s)"
    using that assms(2,3) by (cases op; cases c) (auto simp: writing_def complete_def)
  with assms(1,4) show ?thesis by (auto simp: written_ok_def complete_def)
qed

lemma aborted_writes: "Written Err data \<in> aborted ` A \<Longrightarrow> Err"
proof -
  have "aborted op = Written Err data \<Longrightarrow> Err" for op by (cases op) auto
  then show "Written Err data \<in> aborted ` A \<Longrightarrow> Err" by (metis imageE)
qed

lemma cancel_writing: "writing c \<Longrightarrow> writing (cancel_ops P c)"
proof -
  assume w: "writing c"
  have "(\<exists>Err data. Written Err data \<in> set (map aborted (filter P ops))) \<or> list_ex is_write (filter (\<lambda>op. \<not> P op) ops)"
    if "list_ex is_write ops" for ops
    using that
  proof (induction ops)
    case (Cons op ops)
    then show ?case by (cases op; cases "P op") auto
  qed simp
  with w show ?thesis by (auto simp: writing_def cancel_ops_def)
qed

lemma run_handler_no_success:
  assumes "Written False data \<in> set (Ready (run_handler Q srt c n d))"
  shows "Written False data \<in> set (Ready d)"
proof -
  have sent: "Written False data \<in> set (Ready e)" if "Written False data \<in> set (Ready (trySendMessage Q e))"
    for e :: "'a impl"
  proof -
    obtain ps where "Ready (trySendMessage Q e) = Ready e @ ps" "set ps \<subseteq> {Posted}"
      by (rule trySendMessage_ops [of Q e]) blast
    with that show ?thesis by auto
  qed
  show ?thesis
    using assms
    by (cases c) (auto simp: resolverHandler_def connectHandler_def receiveHandler_def sentMessageHandler_def Let_def
        handler_ops dest!: sent aborted_writes split: if_splits)
qed

lemma cancel_ops_writing:
  "writing d \<Longrightarrow> writing (close_socket d)" "writing d \<Longrightarrow> writing (reConnect r d)" "writing d \<Longrightarrow> writing (tryConnect e d)"
  "writing d \<Longrightarrow> writing (doAddressQuery d)" "writing d \<Longrightarrow> writing (start_op op d)" "writing d \<Longrightarrow> writing (setState st d)"
proof -
  have frame: "writing t" if "writing u" "set (Inflight u) \<subseteq> set (Inflight t)" "set (Ready u) \<subseteq> set (Ready t)"
    for t u :: "'a impl" using that by (auto simp: writing_def list_ex_iff)
  have "writing (d\<lparr>SocketOpen := b\<rparr>) = writing d" "writing (d\<lparr>Expiry := x\<rparr>) = writing d" for b x
    by (simp_all add: writing_def)
  then show "writing d \<Longrightarrow> writing (close_socket d)"
    by (simp add: close_socket_def cancel_writing)
  show "writing d \<Longrightarrow> writing (tryConnect e d)" "writing d \<Longrightarrow> writing (doAddressQuery d)"
    "writing d \<Longrightarrow> writing (start_op op d)" "writing d \<Longrightarrow> writing (setState st d)"
    by (erule frame; auto simp: handler_ops)+
  show "writing d \<Longrightarrow> writing (reConnect r d)"
    by (auto simp: writing_def handler_ops list_ex_iff)
qed

lemma run_handler_keeps_write:
  assumes "\<not> is_send c" and "\<And>r. c \<noteq> Connected False r"
  shows "MessageBuffer (run_handler Q srt c n d) = MessageBuffer d"
    and "writing d \<Longrightarrow> writing (run_handler Q srt c n d)"
  using assms
  by (cases c; auto simp: resolverHandler_def connectHandler_def receiveHandler_def Let_def asio_data
      intro: cancel_ops_writing)+

lemma client_runs_written_ok:
  assumes "client_ok s" and "Ready (client s) = c # cs"
  shows "written_ok (client_runs Q srt c cs s)"
proof -
  let ?c = "client s" and ?s = "(client s)\<lparr>Ready := cs\<rparr>"
  have inv: "control_inv ?c" "chain_inv ?c" "written_ok s" using assms(1) by (simp_all add: client_ok_def)
  have ctl: "mset (done_ctl c) + control ?s = {#ConnectionState ?c#}"
    using inv(1) control_pop [OF assms(2)] by (simp add: control_inv_def)
  have pop: "sends ?c = (if is_send c then 1 else 0) + sends ?s" by (rule sends_pop [OF assms(2)])
  have none: "\<forall>Err data. Written Err data \<notin> set cs" if "sends ?s = 0"
    using that by (auto simp: sends_def filter_empty_conv)
  have w0: "written s = 0" if "sends ?c = 0 \<or> c = Posted"
  proof -
    have "\<not> writing ?c"
      using that none pop inv(2) assms(2) by (auto simp: writing_def sends_def list_ex_iff filter_empty_conv chain_inv_def)
    with inv(3) show ?thesis by (auto simp: written_ok_def)
  qed
  show ?thesis
  proof (cases "is_send c \<or> (\<exists>r. c = Connected False r)")
    case True
    have "sends ?s = 0 \<and> written s - write_count c (written s) = 0"
    proof (cases "is_send c")
      case True
      with pop inv(2) w0 show ?thesis by (cases c) (auto simp: chain_inv_def)
    next
      case False
      with \<open>is_send c \<or> _\<close> ctl have "ConnectionState ?c = CONNECT" by auto
      with inv(2) have "sends ?c = 0" by (auto simp: chain_inv_def le_Suc_eq)
      with pop w0 show ?thesis by simp
    qed
    with none show ?thesis
      by (auto simp: written_ok_def client_runs_def Let_def dest!: run_handler_no_success)
  next
    case False
    then have c: "\<not> is_send c" "\<And>r. c \<noteq> Connected False r" by auto
    have "write_count c (written s) = 0" using c(1) by (cases c) auto
    moreover have "writing ?s" if "writing ?c"
      using that assms(2) c(1) by (auto simp: writing_def)
    ultimately show ?thesis
      using run_handler_keeps_write [OF c, where Q = Q and srt = srt and d = ?s] inv(3) assms(2)
      by (auto simp: written_ok_def client_runs_def Let_def dest!: run_handler_no_success)
  qed
qed

lemma net_step_written_ok:
  assumes "net_step Q srt resolve s t" and "client_ok s"
  shows "written_ok t"
  using assms(1)
proof (cases rule: net_step.cases)
  case (resolved us vs)
  have "written_ok s" using assms(2) by (simp add: client_ok_def)
  from complete_written_ok [OF this resolved(2) lookup_completes [of resolve "client s"]] resolved(1) show ?thesis
    by (auto simp: lookup_result_def split: option.splits)
next
  case (established us ep r vs)
  have "written_ok s" using assms(2) by (simp add: client_ok_def)
  from complete_written_ok [OF this established(2), of "Connected False r"] established(1) show ?thesis
    by (simp add: written_ok_def)
next
  case (refused us ep r vs)
  have "written_ok s" using assms(2) by (simp add: client_ok_def)
  from complete_written_ok [OF this refused(2), of "Connected True r"] refused(1) show ?thesis by simp
next
  case (timer us vs)
  have "written_ok s" using assms(2) by (simp add: client_ok_def)
  from complete_written_ok [OF this timer(2), of Waited] timer(1) show ?thesis by simp
next
  case (peer_lost us vs i)
  have "written_ok s" using assms(2) by (simp add: client_ok_def)
  from complete_written_ok [OF this peer_lost(2), of "Received True"] peer_lost(1) show ?thesis by simp
next
  case (write_some data i m)
  then have "writing (client s)" by (auto simp: writing_def list_ex_iff intro: bexI [of _ "Async_write data"])
  moreover from this have "sends (client s) = 1" using assms(2) writing_sends by (auto simp: client_ok_def)
  moreover have "data = MessageBuffer (client s)" using assms(2) write_some(2) by (simp add: client_ok_def chain_inv_def)
  moreover have "Written False d \<notin> set (Ready (client s))" for d
  proof
    assume "Written False d \<in> set (Ready (client s))"
    then have "filter is_send (Ready (client s)) \<noteq> []" unfolding filter_empty_conv by force
    moreover have "filter is_write (Inflight (client s)) \<noteq> []"
      using write_some(2) unfolding filter_empty_conv by force
    ultimately have "1 \<le> length (filter is_send (Ready (client s)))" "1 \<le> length (filter is_write (Inflight (client s)))"
      by (simp_all add: Suc_le_eq)
    with \<open>sends (client s) = 1\<close> show False by (simp add: sends_def)
  qed
  ultimately show ?thesis using write_some by (simp add: written_ok_def)
next
  case (write_done us data vs)
  have "written_ok s" "data = MessageBuffer (client s)" using assms(2) write_done(2) by (auto simp: client_ok_def chain_inv_def)
  with complete_written_ok [OF this(1) write_done(2), of "Written False data"] write_done show ?thesis by simp
next
  case (write_failed us data vs i)
  have "written_ok s" using assms(2) by (simp add: client_ok_def)
  from complete_written_ok [OF this write_failed(2), of "Written True data"] write_failed(1) show ?thesis by simp
next
  case (handler c cs)
  with client_runs_written_ok [OF assms(2) handler(2)] show ?thesis by simp
qed (use assms(2) in \<open>simp_all add: serve_def client_ok_def written_ok_def\<close>)

lemma net_step_client_ok:
  assumes "net_step Q srt resolve s t" and "client_ok s"
  shows "client_ok t"
  using net_step_client [OF assms] net_step_written_ok [OF assms] assms(2)
  unfolding client_ok_def
  by (metis by_io conn_step_live io_step_chain io_step_control)

section \<open>The server in the composition\<close>

lemma acceptor_stays:
  "AcceptorOpen (OnConnectionAccept ec k v) = AcceptorOpen v" "AcceptorOpen (CloseFunction v) = AcceptorOpen v"
  "AcceptorOpen (HandleRead ec block k v) = AcceptorOpen v"
proof -
  have "AcceptorOpen (fold receive_char b t) = AcceptorOpen t" for b and t :: server
    by (induction b arbitrary: t) (simp_all add: receive_char_def)
  then show "AcceptorOpen (OnConnectionAccept ec k v) = AcceptorOpen v" "AcceptorOpen (CloseFunction v) = AcceptorOpen v"
    "AcceptorOpen (HandleRead ec block k v) = AcceptorOpen v"
    by (simp_all add: OnConnectionAccept_def CloseFunction_def HandleRead_def async_read_def drop_connection_def
        RemoveSocket_def WaitForNewConnection_def Let_def read_bytes_def)
qed

lemma accept_effect:
  "Accepting (OnConnectionAccept Success k v) = Accepting v" "Reading (OnConnectionAccept Success k v) = Reading v @ [k]"
  "Closed (OnConnectionAccept Success k v) = Closed v" "NextSocket (OnConnectionAccept Success k v) = NextSocket v"
  "CloseRequests (OnConnectionAccept Success k v) = CloseRequests v"
  by (simp_all add: OnConnectionAccept_def async_read_def Let_def)

lemma read_effect:
  "Accepting (HandleRead Success block k v) = Accepting v" "Reading (HandleRead Success block k v) = Reading v @ [k]"
  "NextSocket (HandleRead Success block k v) = NextSocket v"
  by (simp_all add: HandleRead_def async_read_def Let_def)

lemma read_failed_effect:
  "ec \<noteq> Success \<Longrightarrow> Accepting (HandleRead ec block k v) = Accepting v @ [NextSocket v]"
  "ec \<noteq> Success \<Longrightarrow> Reading (HandleRead ec block k v) = Reading v"
  "ec \<noteq> Success \<Longrightarrow> NextSocket (HandleRead ec block k v) = Suc (NextSocket v)"
  by (simp_all add: HandleRead_def drop_connection_def RemoveSocket_def WaitForNewConnection_def Let_def)

lemma read_closed: "Closed (HandleRead ec block k v) = Closed v"
  by (simp add: HandleRead_def async_read_def drop_connection_def RemoveSocket_def WaitForNewConnection_def Let_def)

lemma eof_error [simp]: "eof \<noteq> Success" "eof \<noteq> Operation_aborted"
  by (simp_all add: eof_def)

definition serving :: "server \<Rightarrow> bool" where
  "serving v \<longleftrightarrow> one_client v \<and> length (Accepting v) + length (Reading v) = 1 \<and> AcceptorOpen v"

lemma serving_accept:
  "serving v \<Longrightarrow> Accepting v = us @ k # vs \<Longrightarrow> serving (OnConnectionAccept Success k (v\<lparr>Accepting := us @ vs\<rparr>))"
  unfolding serving_def by (intro conjI one_client_accept; simp add: accept_effect acceptor_stays)

lemma serving_read:
  assumes "serving v" and "Reading v = us @ k # vs"
  shows "serving (HandleRead ec block k (v\<lparr>Reading := us @ vs\<rparr>))"
  unfolding serving_def
proof (intro conjI)
  show "one_client (HandleRead ec block k (v\<lparr>Reading := us @ vs\<rparr>))"
    by (rule one_client_read) (use assms in \<open>simp_all add: serving_def\<close>)
qed (use assms in \<open>cases "ec = Success"; simp add: serving_def read_effect read_failed_effect acceptor_stays\<close>)+

lemma serving_close: "serving v \<Longrightarrow> serving (CloseFunction (v\<lparr>CloseRequests := n\<rparr>))"
  unfolding serving_def using one_client_close by (auto simp: CloseFunction_def)

lemma complete_frame [simp]:
  "log_server (complete ops c s) = log_server s" "unaccepted (complete ops c s) = unaccepted s"
  "peer (complete ops c s) = peer s" "wire (complete ops c s) = wire s" "next_conn (complete ops c s) = next_conn s"
  "client_conn (complete ops c s) = client_conn s" "written (complete ops c s) = written s"
  "history (complete ops c s) = history s" "delivered (complete ops c s) = delivered s"
  "client (complete ops c s) = (client s)\<lparr>Inflight := ops, Ready := Ready (client s) @ [c]\<rparr>"
  by (simp_all add: complete_def)

lemma client_runs_frame [simp]:
  "log_server (client_runs Q srt c cs s) = log_server s" "unaccepted (client_runs Q srt c cs s) = unaccepted s"
  "peer (client_runs Q srt c cs s) = peer s" "wire (client_runs Q srt c cs s) = wire s"
  "next_conn (client_runs Q srt c cs s) = next_conn s" "history (client_runs Q srt c cs s) = history s"
  "delivered (client_runs Q srt c cs s) = delivered s"
  by (simp_all add: client_runs_def Let_def)

lemma serve_frame [simp]:
  "client (serve f s) = client s" "unaccepted (serve f s) = unaccepted s" "peer (serve f s) = peer s"
  "wire (serve f s) = wire s" "next_conn (serve f s) = next_conn s" "client_conn (serve f s) = client_conn s"
  "written (serve f s) = written s" "history (serve f s) = history s" "delivered (serve f s) = delivered s"
  "log_server (serve f s) = f (log_server s)"
  by (simp_all add: serve_def)

lemma net_step_serving: "net_step Q srt resolve s t \<Longrightarrow> serving (log_server s) \<Longrightarrow> serving (log_server t)"
  by (induction rule: net_step.induct) (simp_all add: serving_accept serving_read serving_close)

text \<open>
  Which connection ends at which socket: an accepted connection has a socket of its own, and the
  connection of the client waits to be accepted, or the server reads from it, or has closed it.
\<close>

definition linked :: "'q network \<Rightarrow> bool" where
  "linked s \<longleftrightarrow>
     (\<forall>i. client_conn s = Some i \<longrightarrow> i < next_conn s \<and>
        (i \<in> set (unaccepted s) \<or> (\<exists>k. peer s i = Some k
           \<and> (k \<in> set (Reading (log_server s)) \<or> k \<in> set (Closed (log_server s))))))
     \<and> distinct (unaccepted s) \<and> (\<forall>i \<in> set (unaccepted s). peer s i = None \<and> i < next_conn s)
     \<and> (\<forall>i k. peer s i = Some k \<longrightarrow> i < next_conn s \<and> k < NextSocket (log_server s))
     \<and> (\<forall>k \<in> set (Accepting (log_server s)). k < NextSocket (log_server s) \<and> (\<forall>i. peer s i \<noteq> Some k))
     \<and> (\<forall>i j k. peer s i = Some k \<longrightarrow> peer s j = Some k \<longrightarrow> i = j)"

lemma linkedI:
  assumes "\<And>i. client_conn s = Some i \<Longrightarrow> i < next_conn s \<and>
      (i \<in> set (unaccepted s) \<or> (\<exists>k. peer s i = Some k
         \<and> (k \<in> set (Reading (log_server s)) \<or> k \<in> set (Closed (log_server s)))))"
    and "distinct (unaccepted s)" and "\<And>i. i \<in> set (unaccepted s) \<Longrightarrow> peer s i = None \<and> i < next_conn s"
    and "\<And>i k. peer s i = Some k \<Longrightarrow> i < next_conn s \<and> k < NextSocket (log_server s)"
    and "\<And>k. k \<in> set (Accepting (log_server s)) \<Longrightarrow> k < NextSocket (log_server s) \<and> (\<forall>i. peer s i \<noteq> Some k)"
    and "\<And>i j k. peer s i = Some k \<Longrightarrow> peer s j = Some k \<Longrightarrow> i = j"
  shows "linked s"
  unfolding linked_def using assms by blast

lemma linkedD:
  assumes "linked s"
  shows "client_conn s = Some i \<Longrightarrow> i < next_conn s \<and>
      (i \<in> set (unaccepted s) \<or> (\<exists>k. peer s i = Some k
         \<and> (k \<in> set (Reading (log_server s)) \<or> k \<in> set (Closed (log_server s)))))"
    and "distinct (unaccepted s)" and "i \<in> set (unaccepted s) \<Longrightarrow> peer s i = None \<and> i < next_conn s"
    and "peer s i = Some k \<Longrightarrow> i < next_conn s \<and> k < NextSocket (log_server s)"
    and "k \<in> set (Accepting (log_server s)) \<Longrightarrow> k < NextSocket (log_server s) \<and> peer s i \<noteq> Some k"
    and "peer s i = Some k \<Longrightarrow> peer s j = Some k \<Longrightarrow> i = j"
  using assms unfolding linked_def by blast+

lemma linked_mono:
  assumes "linked s" and c: "client_conn t = client_conn s \<or> client_conn t = None" and "unaccepted t = unaccepted s"
    and "peer t = peer s" and "next_conn t = next_conn s"
    and srv: "Accepting (log_server t) = Accepting (log_server s)"
      "NextSocket (log_server t) = NextSocket (log_server s)"
      "set (Reading (log_server s)) \<subseteq> set (Reading (log_server t))"
      "set (Closed (log_server s)) \<subseteq> set (Closed (log_server t))"
  shows "linked t"
proof (rule linkedI; unfold assms(3-5) srv(1,2))
  note old = linkedD [OF assms(1)]
  show "i < next_conn s \<and> (i \<in> set (unaccepted s) \<or> (\<exists>k. peer s i = Some k
      \<and> (k \<in> set (Reading (log_server t)) \<or> k \<in> set (Closed (log_server t)))))" if "client_conn t = Some i" for i
    using old(1) [of i] that c srv(3,4) by auto
qed (use linkedD [OF assms(1)] in blast)+

lemma linked_read_failed:
  assumes "linked s" and r: "Reading (log_server s) = us @ k # vs" and "ec \<noteq> Success"
    and own: "\<And>i. client_conn s = Some i \<Longrightarrow> peer s i = Some k \<Longrightarrow> k \<in> set (Closed (log_server s))"
  shows "linked (serve (\<lambda>v. HandleRead ec [] k (v\<lparr>Reading := us @ vs\<rparr>)) s)" (is "linked ?t")
proof -
  have eq: "Accepting (log_server ?t) = Accepting (log_server s) @ [NextSocket (log_server s)]"
    "Reading (log_server ?t) = us @ vs" "NextSocket (log_server ?t) = Suc (NextSocket (log_server s))"
    "Closed (log_server ?t) = Closed (log_server s)"
    using assms(3) by (simp_all add: read_failed_effect read_closed)
  note old = linkedD [OF assms(1)]
  show ?thesis
  proof (rule linkedI; unfold eq serve_frame(1-9))
    show "i < next_conn s \<and> (i \<in> set (unaccepted s) \<or> (\<exists>k. peer s i = Some k
        \<and> (k \<in> set (us @ vs) \<or> k \<in> set (Closed (log_server s)))))" if "client_conn s = Some i" for i
      using old(1) [OF that] own [OF that] unfolding r by auto
    show "k' < Suc (NextSocket (log_server s)) \<and> (\<forall>i. peer s i \<noteq> Some k')"
      if "k' \<in> set (Accepting (log_server s) @ [NextSocket (log_server s)])" for k'
      using that old(4) old(5) by (auto simp: less_Suc_eq)
    show "i < next_conn s \<and> k' < Suc (NextSocket (log_server s))" if "peer s i = Some k'" for i k'
      using old(4) [OF that] by simp
  qed (use old(2,3,6) in blast)+
qed

lemma linked_accept:
  assumes "linked s" and a: "Accepting (log_server s) = us @ k # vs" and b: "unaccepted s = i # js"
    and "length (Accepting (log_server s)) \<le> 1"
  shows "linked (serve (\<lambda>v. OnConnectionAccept Success k (v\<lparr>Accepting := us @ vs\<rparr>))
    (s\<lparr>unaccepted := js, peer := (peer s)(i := Some k)\<rparr>))" (is "linked ?t")
proof -
  have none: "us @ vs = []" using a assms(4) singleton_split [OF a] by simp
  have eq: "Accepting (log_server ?t) = []" "Reading (log_server ?t) = Reading (log_server s) @ [k]"
    "NextSocket (log_server ?t) = NextSocket (log_server s)" "Closed (log_server ?t) = Closed (log_server s)"
    "unaccepted ?t = js" "peer ?t = (peer s)(i := Some k)" "client_conn ?t = client_conn s" "next_conn ?t = next_conn s"
    using none by (simp_all add: accept_effect)
  note old = linkedD [OF assms(1)]
  have k: "k < NextSocket (log_server s)" "peer s j \<noteq> Some k" for j using old(5) [of k] a by auto
  have i: "peer s i = None" "i < next_conn s" "i \<notin> set js" "distinct js" using old(2) old(3) [of i] b by auto
  show ?thesis
  proof (rule linkedI; unfold eq)
    show "j < next_conn s \<and> (j \<in> set js \<or> (\<exists>k'. ((peer s)(i := Some k)) j = Some k'
        \<and> (k' \<in> set (Reading (log_server s) @ [k]) \<or> k' \<in> set (Closed (log_server s)))))" if "client_conn s = Some j" for j
      using old(1) [OF that] i(1) b by (cases "j = i") auto
    show "((peer s)(i := Some k)) j = None \<and> j < next_conn s" if "j \<in> set js" for j
      using that old(3) [of j] i(3) b by (cases "j = i") auto
    show "j < next_conn s \<and> k' < NextSocket (log_server s)" if "((peer s)(i := Some k)) j = Some k'" for j k'
      using that old(4) [of j k'] i(2) k(1) by (cases "j = i") auto
    show "j = j'" if "((peer s)(i := Some k)) j = Some k'" "((peer s)(i := Some k)) j' = Some k'" for j j' k'
      using that old(6) [of j k' j'] k(2) by (cases "j = i"; cases "j' = i") auto
  qed (use i(4) in auto)
qed

lemma linked_established:
  assumes "linked s"
  shows "linked ((complete ops c s)\<lparr>unaccepted := unaccepted s @ [next_conn s], client_conn := Some (next_conn s),
    next_conn := Suc (next_conn s)\<rparr>)"
proof -
  note old = linkedD [OF assms]
  have none: "peer s (next_conn s) = None" using old(4) [of "next_conn s"] by (cases "peer s (next_conn s)") auto
  have new: "next_conn s \<notin> set (unaccepted s)" using old(3) [of "next_conn s"] by auto
  show ?thesis
  proof (rule linkedI, goal_cases)
    case (3 i)
    then show ?case using old(3) [of i] none by (auto simp: less_Suc_eq)
  next
    case (4 i k)
    then show ?case using old(4) [of i k] by (auto simp: less_Suc_eq)
  next
    case (5 k)
    then show ?case using old(5) [of k] by simp
  next
    case (6 i j k)
    then show ?case using old(6) [of i k j] by simp
  qed (use new old(2) in simp_all)
qed

lemma net_step_linked:
  assumes "net_step Q srt resolve s t" and "linked s" and "serving (log_server s)"
  shows "linked t"
  using assms
proof (induction rule: net_step.induct)
  case (established s us ep r vs)
  then show ?case by (intro linked_established)
next
  case (accept s us k vs i js)
  then show ?case by (intro linked_accept) (simp_all add: serving_def)
next
  case (read_end s us k vs i)
  show ?case
  proof (rule linked_read_failed [OF read_end.prems(1) read_end.hyps(1) eof_error(1)])
    show "k \<in> set (Closed (log_server s))" if "client_conn s = Some i'" "peer s i' = Some k" for i'
      using linkedD(6) [OF read_end.prems(1) that(2) read_end.hyps(2)] that(1) read_end.hyps(4) by blast
  qed
next
  case (read_aborted s us k vs)
  show ?case by (rule linked_read_failed [OF read_aborted.prems(1) read_aborted.hyps(1)]) (use read_aborted.hyps(2) in simp_all)
next
  case (read_block s us k vs i block rest)
  show ?case
    by (rule linked_mono [OF read_block.prems(1)])
      (use read_block.hyps(1) in \<open>simp_all add: read_effect read_closed\<close>)
next
  case (handler s c cs)
  show ?case by (rule linked_mono [OF handler.prems(1)]) (simp_all add: client_runs_def Let_def)
next
  case (closes s n)
  show ?case by (rule linked_mono [OF closes.prems(1)]) (simp_all add: CloseFunction_def)
next
  case (resolved s us vs)
  show ?case by (rule linked_mono [OF resolved.prems(1)]) simp_all
next
  case (refused s us ep r vs)
  show ?case by (rule linked_mono [OF refused.prems(1)]) simp_all
next
  case (timer s us vs)
  show ?case by (rule linked_mono [OF timer.prems(1)]) simp_all
next
  case (peer_lost s us vs i)
  show ?case by (rule linked_mono [OF peer_lost.prems(1)]) simp_all
next
  case (write_some data s i m)
  show ?case by (rule linked_mono [OF write_some.prems(1)]) simp_all
next
  case (write_done s us data vs)
  show ?case by (rule linked_mono [OF write_done.prems(1)]) simp_all
next
  case (write_failed s us data vs i)
  show ?case by (rule linked_mono [OF write_failed.prems(1)]) simp_all
qed

section \<open>A client that can reach the server\<close>

definition test_endpoint :: "endpoint \<Rightarrow> bool" where
  "test_endpoint ep \<longleftrightarrow> int (ep_port ep) = testPort"

fun fine_op :: "async_op \<Rightarrow> bool" where
  "fine_op (Async_connect ep r) = test_endpoint ep"
| "fine_op _ = True"

fun fine_done :: "completion \<Rightarrow> bool" where
  "fine_done (Resolved Err eps) = (\<not> Err \<and> eps \<noteq> [] \<and> list_all test_endpoint eps)"
| "fine_done (Connected Err r) = (\<not> Err)"
| "fine_done (Received Err) = Err"
| "fine_done _ = True"

text \<open>
  The lookup gives endpoints on the server's port, no attempt to connect fails, and only the
  short delay is used. \<open>x\<close>: the client's socket has a connection.
\<close>

definition reaching_client :: "resolver \<Rightarrow> bool \<Rightarrow> 'q impl \<Rightarrow> bool" where
  "reaching_client resolve x c \<longleftrightarrow>
     list_all fine_done (Ready c) \<and> list_all fine_op (Inflight c)
     \<and> (Async_wait \<in> set (Inflight c) \<longrightarrow> Expiry c = SHORT)
     \<and> fine_done (lookup_result resolve c)
     \<and> (Async_receive \<in> set (Inflight c) \<longrightarrow> SocketOpen c \<and> x)
     \<and> (\<forall>r. Connected False r \<in> set (Ready c) \<longrightarrow> x)"

definition reaching :: "resolver \<Rightarrow> 'q network \<Rightarrow> bool" where
  "reaching resolve s \<longleftrightarrow> reaching_client resolve (client_conn s \<noteq> None) (client s)"

lemma control_op: "control_inv c \<Longrightarrow> op \<in> set (Inflight c) \<Longrightarrow> set (op_ctl op) \<subseteq> {ConnectionState c}"
  by (auto simp: control_inv_def control_def dest!: split_list)

lemma control_done: "control_inv c \<Longrightarrow> d \<in> set (Ready c) \<Longrightarrow> set (done_ctl d) \<subseteq> {ConnectionState c}"
  by (auto simp: control_inv_def control_def dest!: split_list)

lemma lookup_members:
  "HostAddress d = HostAddress c \<Longrightarrow> HostPort d = HostPort c \<Longrightarrow> lookup_result resolve d = lookup_result resolve c"
  by (simp add: lookup_result_def)

lemma first_endpoint:
  assumes "is_std_sort srt" and "eps \<noteq> []" and "list_all test_endpoint eps"
  shows "test_endpoint (fst (getNextEndpoint (make_QueryResult srt eps)))"
proof -
  have m: "mset (srt eps) = mset eps" using assms(1) by (simp add: is_std_sort_def)
  then have "srt eps \<noteq> []" "set (srt eps) = set eps" using assms(2) by (auto dest: mset_eq_setD)
  then have "srt eps ! 0 \<in> set eps" by (metis length_greater_0_conv nth_mem)
  with assms(3) \<open>srt eps \<noteq> []\<close> show ?thesis
    by (simp add: getNextEndpoint_def make_QueryResult_def copy_endpoints_append list_all_iff)
qed

lemma reaching_send:
  assumes "reaching_client resolve x c"
  shows "reaching_client resolve x (trySendMessage Q c)"
proof -
  obtain ws ps where t: "Inflight (trySendMessage Q c) = Inflight c @ ws" "list_all is_write ws"
    "Ready (trySendMessage Q c) = Ready c @ ps" "set ps \<subseteq> {Posted}"
    "HostAddress (trySendMessage Q c) = HostAddress c" "HostPort (trySendMessage Q c) = HostPort c"
    "Expiry (trySendMessage Q c) = Expiry c" "SocketOpen (trySendMessage Q c) = SocketOpen c"
    by (rule trySendMessage_ops [of Q c])
  have "fine_op op \<and> op \<noteq> Async_wait \<and> op \<noteq> Async_receive" if "op \<in> set ws" for op
    using t(2) that by (cases op) (auto simp: list_all_iff)
  with t(4) assms show ?thesis
    unfolding reaching_client_def t lookup_members [OF t(5,6)] by (auto simp: list_all_iff)
qed

lemma aborted_fails [simp]: "aborted op \<noteq> Connected False r" "Connected False r \<noteq> aborted op"
  by (cases op; simp)+

text \<open>Closing the socket while no attempt to connect is under way.\<close>

lemma reaching_close:
  assumes "reaching_client resolve x c" and "\<And>ep r. Async_connect ep r \<notin> set (Inflight c)"
    and "\<And>r. Connected False r \<notin> set (Ready c)"
  shows "reaching_client resolve y (close_socket c)"
proof -
  have "fine_done (aborted op)" if "op \<in> set (Inflight c)" "on_socket op" for op
    by (cases op) (use that assms(2) in simp_all)
  then show ?thesis
    using assms(1,3) unfolding reaching_client_def
    by (auto simp: handler_ops handler_members list_all_iff lookup_result_def)
qed

lemma reaching_reconnect:
  assumes "reaching_client resolve x c" and "Async_receive \<notin> set (Inflight c)" "\<And>r. Connected False r \<notin> set (Ready c)"
  shows "reaching_client resolve y (reConnect SHORT c)"
  using assms unfolding reaching_client_def
  by (auto simp: handler_ops handler_members list_all_iff lookup_result_def)

lemma sent_buffer:
  "\<exists>mb. sentMessageHandler Q Err n c =
     (let u = c\<lparr>MessageBuffer := mb\<rparr> in if Err then close_socket u else trySendMessage Q u)"
  by (intro exI [of _ "if n = length (MessageBuffer c) then [] else drop n (MessageBuffer c)"])
    (simp add: sentMessageHandler_def Let_def)

lemma reaching_runs:
  assumes "client_ok s" and "reaching resolve s" and "Ready (client s) = c # cs" and "is_std_sort srt"
  shows "reaching resolve (client_runs Q srt c cs s)"
proof -
  let ?c = "client s" and ?d = "(client s)\<lparr>Ready := cs\<rparr>" and ?x = "client_conn s \<noteq> None"
  let ?t = "run_handler Q srt c (write_count c (written s)) ?d"
  have inv: "control_inv ?c" "chain_inv ?c" "live_inv ?c" using assms(1) by (simp_all add: client_ok_def)
  have old: "reaching_client resolve ?x ?c" "fine_done c" using assms(2,3) by (simp_all add: reaching_def reaching_client_def)
  have d: "reaching_client resolve ?x ?d" using old(1) assms(3) by (auto simp: reaching_client_def lookup_result_def)
  have ctl: "mset (done_ctl c) + control ?d = {#ConnectionState ?c#}"
    using inv(1) control_pop [OF assms(3)] by (simp add: control_inv_def)
  have sending: "ConnectionState ?c \<noteq> CONNECT" if "is_send c"
  proof -
    have "sends ?c = 1" using that sends_pop [OF assms(3)] inv(2) by (simp add: chain_inv_def)
    with inv(2) show ?thesis by (auto simp: chain_inv_def)
  qed
  have no_connect: "Async_connect ep r \<notin> set (Inflight ?c)" "Connected False r' \<notin> set cs" if "ConnectionState ?c \<noteq> CONNECT" for ep r r'
    using that control_op [OF inv(1), of "Async_connect ep r"] control_done [OF inv(1), of "Connected False r'"] assms(3)
    by auto
  have step: "reaching_client resolve (SocketOpen e \<and> ?x) e"
    if "reaching_client resolve ?x e" "\<And>r. Connected False r \<notin> set (Ready e)" for e
    using that by (auto simp: reaching_client_def)
  have open': "reaching_client resolve (SocketOpen e \<and> ?x) e" if "reaching_client resolve ?x e" "SocketOpen e" for e
    using that by (simp add: reaching_client_def)
  have "reaching_client resolve (SocketOpen ?t \<and> ?x) ?t"
  proof (cases c)
    case (Resolved Err eps)
    with old(2) have "\<not> Err" "eps \<noteq> []" "list_all test_endpoint eps" by simp_all
    with d first_endpoint [OF assms(4) this(2,3)] Resolved show ?thesis
      by (intro open') (auto simp: reaching_client_def resolverHandler_def handler_ops handler_members conn_simps lookup_result_def)
  next
    case (Connected Err r)
    with old have Err: "\<not> Err" and x: "?x" using assms(3) by (auto simp: reaching_client_def)
    have so: "SocketOpen ?c" using ctl Connected inv(3) by (simp add: live_inv_def)
    have "reaching_client resolve ?x (start_op Async_receive (setState SEND_LOOP ?d))"
      using d x so by (auto simp: reaching_client_def handler_ops handler_members conn_simps lookup_result_def)
    from reaching_send [OF this, of Q] Connected Err so show ?thesis
      by (intro open') (simp_all add: connectHandler_def trySendMessage_live conn_simps)
  next
    case Waited
    then have st: "ConnectionState ?c \<noteq> CONNECT" using ctl by auto
    have "reaching_client resolve (SocketOpen ?c \<and> ?x) ?d" using step [OF d] no_connect(2) [OF st] by simp
    then show ?thesis using Waited
      by (auto simp: reaching_client_def handler_ops handler_members lookup_result_def)
  next
    case (Received Err)
    with old(2) have Err by simp
    have st: "ConnectionState ?c \<noteq> CONNECT" using ctl Received by auto
    have "reaching_client resolve False (close_socket ?d)"
      by (rule reaching_close [OF d]) (use no_connect [OF st] in simp_all)
    then have "reaching_client resolve False (reConnect SHORT (close_socket ?d))"
    proof (rule reaching_reconnect)
      show "Connected False r \<notin> set (Ready (close_socket ?d))" for r
        using no_connect(2) [OF st, of r] by (auto simp: handler_ops)
    qed (simp add: handler_ops)
    then show ?thesis using Received \<open>Err\<close> by (simp add: receiveHandler_def handler_members conn_simps)
  next
    case (Written Err data)
    then have st: "ConnectionState ?c \<noteq> CONNECT" using sending by simp
    have e: "reaching_client resolve ?x (?d\<lparr>Sent := bs, MessageBuffer := mb\<rparr>)" for mb bs
      using d by (simp add: reaching_client_def lookup_result_def)
    have sent: "reaching_client resolve (SocketOpen u \<and> ?x) u"
      if "u = (if Err then close_socket e else trySendMessage Q e)" "reaching_client resolve ?x e"
        "Inflight e = Inflight ?c" "Ready e = cs" for u e
    proof (cases Err)
      case True
      with reaching_close [OF that(2)] no_connect [OF st] that show ?thesis by (simp add: conn_simps)
    next
      case False
      have "Connected False r \<notin> set (Ready (trySendMessage Q e))" for r
        using no_connect(2) [OF st] that(4) by (rule_tac trySendMessage_ops [of Q e]) auto
      with step [OF reaching_send [OF that(2), of Q]] False that(1) show ?thesis by simp
    qed
    obtain mb where mb: "?t = (let u = ?d\<lparr>Sent := Sent ?d @ take (written s) data, MessageBuffer := mb\<rparr>
        in if Err then close_socket u else trySendMessage Q u)"
      using Written sent_buffer [of Q Err "written s" "?d\<lparr>Sent := Sent ?d @ take (written s) data\<rparr>"] by auto
    show ?thesis
    proof (rule sent)
      show "?t = (if Err then close_socket (?d\<lparr>Sent := Sent ?d @ take (written s) data, MessageBuffer := mb\<rparr>)
          else trySendMessage Q (?d\<lparr>Sent := Sent ?d @ take (written s) data, MessageBuffer := mb\<rparr>))"
        using mb by (simp add: Let_def)
    qed (use e in simp_all)
  next
    case Posted
    then have st: "ConnectionState ?c \<noteq> CONNECT" using sending by simp
    have "Connected False r \<notin> set (Ready (trySendMessage Q ?d))" for r
      using no_connect(2) [OF st] by (rule_tac trySendMessage_ops [of Q ?d]) auto
    with step [OF reaching_send [OF d, of Q]] Posted show ?thesis by simp
  qed
  then show ?thesis by (cases "SocketOpen ?t") (simp_all add: reaching_def client_runs_def Let_def)
qed

lemma reaching_complete:
  assumes "reaching_client resolve x c" and "Inflight c = us @ op # vs" and "fine_done e"
    and "\<And>r. e = Connected False r \<Longrightarrow> y" and "x \<Longrightarrow> y"
  shows "reaching_client resolve y (c\<lparr>Inflight := us @ vs, Ready := Ready c @ [e]\<rparr>)"
  using assms by (auto simp: reaching_client_def lookup_result_def)

lemma net_step_reaching:
  assumes "net_step Q srt resolve s t" and "reaching resolve s" and "client_ok s" and "serving (log_server s)"
    and "is_std_sort srt"
  shows "reaching resolve t"
  using assms(1)
proof (cases rule: net_step.cases)
  case (resolved us vs)
  have "fine_done (lookup_result resolve (client s))" using assms(2) by (simp add: reaching_def reaching_client_def)
  with assms(2) resolved show ?thesis
    by (auto simp: reaching_def lookup_result_def intro!: reaching_complete [where op = Async_resolve] split: option.splits)
next
  case (established us ep r vs)
  with assms(2) show ?thesis by (auto simp: reaching_def intro: reaching_complete)
next
  case (refused us ep r vs)
  with assms(2,4) show ?thesis
    by (simp add: reaching_def reaching_client_def test_endpoint_def listens_def serving_def)
next
  case (timer us vs)
  with assms(2) show ?thesis by (auto simp: reaching_def intro: reaching_complete)
next
  case (peer_lost us vs i)
  with assms(2) show ?thesis by (auto simp: reaching_def intro: reaching_complete)
next
  case (write_done us data vs)
  with assms(2) show ?thesis by (auto simp: reaching_def intro: reaching_complete)
next
  case (write_failed us data vs i)
  with assms(2) show ?thesis by (auto simp: reaching_def intro: reaching_complete)
next
  case (handler c cs)
  with reaching_runs [OF assms(3,2) _ assms(5)] show ?thesis by simp
qed (use assms(2) in \<open>simp_all add: reaching_def\<close>)

section \<open>Settled states\<close>

text \<open>
  What the thread of a test finds when it has slept long enough: nothing is left to happen but
  the polling of an empty queue and the long delay of ten seconds.
\<close>

definition settled :: "('q \<Rightarrow> nat \<Rightarrow> queued list) \<Rightarrow> 'q network \<Rightarrow> bool" where
  "settled pend s \<longleftrightarrow>
     (\<forall>op \<in> set (Inflight (client s)).
        op = Async_receive \<and> (\<forall>i. client_conn s = Some i \<longrightarrow> \<not> server_closed s i)
        \<or> op = Async_wait \<and> Expiry (client s) = LONG)
     \<and> (Ready (client s) = []
        \<or> Ready (client s) = [Posted] \<and> MessageBuffer (client s) = [] \<and> pend (LogMessages (client s)) = (\<lambda>_. []))
     \<and> CloseRequests (log_server s) = 0 \<and> (Accepting (log_server s) = [] \<or> unaccepted s = [])
     \<and> (\<forall>k \<in> set (Reading (log_server s)). k \<notin> set (Closed (log_server s))
          \<and> (\<exists>i. peer s i = Some k \<and> wire s i = [] \<and> client_conn s = Some i))"

lemma settledD:
  assumes "settled pend s"
  shows "op \<in> set (Inflight (client s)) \<Longrightarrow>
      op = Async_receive \<and> (\<forall>i. client_conn s = Some i \<longrightarrow> \<not> server_closed s i)
      \<or> op = Async_wait \<and> Expiry (client s) = LONG"
    and "Ready (client s) = []
      \<or> Ready (client s) = [Posted] \<and> MessageBuffer (client s) = [] \<and> pend (LogMessages (client s)) = (\<lambda>_. [])"
    and "CloseRequests (log_server s) = 0" and "Accepting (log_server s) = [] \<or> unaccepted s = []"
    and "k \<in> set (Reading (log_server s)) \<Longrightarrow> k \<notin> set (Closed (log_server s))"
    and "k \<in> set (Reading (log_server s)) \<Longrightarrow> \<exists>i. peer s i = Some k \<and> wire s i = [] \<and> client_conn s = Some i"
  using assms by (simp_all add: settled_def)

text \<open>From a settled state without that delay the threads only poll.\<close>

definition polled :: "'q network \<Rightarrow> 'q network \<Rightarrow> bool" where
  "polled s t \<longleftrightarrow> log_server t = log_server s \<and> unaccepted t = unaccepted s \<and> peer t = peer s \<and> wire t = wire s
     \<and> next_conn t = next_conn s \<and> client_conn t = client_conn s \<and> Inflight (client t) = Inflight (client s)
     \<and> ConnectionState (client t) = ConnectionState (client s)"

definition resting :: "('q \<Rightarrow> nat \<Rightarrow> queued list) \<Rightarrow> 'q network \<Rightarrow> bool" where
  "resting pend s \<longleftrightarrow> settled pend s \<and> Async_wait \<notin> set (Inflight (client s)) \<and> linked s
     \<and> (SocketOpen (client s) \<or> Ready (client s) = [])"

lemma polled_refl: "polled s s"
  by (simp add: polled_def)

lemma polled_trans: "polled s t \<Longrightarrow> polled t u \<Longrightarrow> polled s u"
  by (simp add: polled_def)

lemma poll_empty:
  assumes "bounded_contract Q pend" and "SocketOpen c" and "MessageBuffer c = []" and "pend (LogMessages c) = (\<lambda>_. [])"
    and "Ready c = []"
  shows "\<exists>q. trySendMessage Q c = c\<lparr>LogMessages := q, Ready := [Posted]\<rparr> \<and> pend q = (\<lambda>_. [])"
proof -
  obtain r q where rq: "b_wait_dequeue_timed Q (LogMessages c) = (r, q)" by fastforce
  have "r = None" using bounded_some [OF assms(1), of "LogMessages c" _ q] rq assms(4) by (cases r) auto
  with rq assms bounded_none [OF assms(1), of "LogMessages c" q] show ?thesis
    by (intro exI [of _ q]) (simp add: trySendMessage_def post_def)
qed

lemma server_closed_client [simp]: "server_closed (s\<lparr>client := c\<rparr>) i = server_closed s i"
  by (simp add: server_closed_def split: option.split)

lemma resting_step:
  assumes "resting pend s" and "bounded_contract Q pend" and "net_step Q srt resolve s t"
  shows "resting pend t \<and> polled s t"
proof -
  have set: "settled pend s" and nw: "Async_wait \<notin> set (Inflight (client s))" and lk: "linked s"
    and so: "SocketOpen (client s) \<or> Ready (client s) = []" using assms(1) by (simp_all add: resting_def)
  have ops: "op = Async_receive \<and> (\<forall>i. client_conn s = Some i \<longrightarrow> \<not> server_closed s i)"
    if "op \<in> set (Inflight (client s))" for op
    using settledD(1) [OF set that] nw that by blast
  have reads: "k \<notin> set (Closed (log_server s))" "client_conn s = Some i" "wire s i = []"
    if rk: "k \<in> set (Reading (log_server s))" and pk: "peer s i = Some k" for k i
  proof -
    obtain j where j: "k \<notin> set (Closed (log_server s))" "peer s j = Some k" "wire s j = []" "client_conn s = Some j"
      using settledD(5,6) [OF set rk] by blast
    from linkedD(6) [OF lk pk j(2)] j show "k \<notin> set (Closed (log_server s))" "client_conn s = Some i" "wire s i = []"
      by simp_all
  qed
  have reads': "k \<notin> set (Closed (log_server s))" if "k \<in> set (Reading (log_server s))" for k
    by (rule settledD(5) [OF set that])
  from assms(3) show ?thesis
  proof (cases rule: net_step.cases)
    case (handler c cs)
    with settledD(2) [OF set] have c: "c = Posted" "cs = []" "MessageBuffer (client s) = []"
      "pend (LogMessages (client s)) = (\<lambda>_. [])" by auto
    have open': "SocketOpen (client s)" using so handler by simp
    with poll_empty [OF assms(2), of "(client s)\<lparr>Ready := []\<rparr>"] c obtain q where
      q: "trySendMessage Q ((client s)\<lparr>Ready := []\<rparr>) = (client s)\<lparr>LogMessages := q, Ready := [Posted]\<rparr>" "pend q = (\<lambda>_. [])"
      by auto
    have t: "t = s\<lparr>client := (client s)\<lparr>LogMessages := q, Ready := [Posted]\<rparr>\<rparr>"
      using handler(1) c open' q(1) by (simp add: client_runs_def Let_def)
    have "linked t" by (rule linked_mono [OF lk]) (simp_all add: t)
    with set nw open' q(2) c show ?thesis unfolding t
      by (simp add: resting_def polled_def settled_def)
  next
    case (resolved us vs)
    with ops [of Async_resolve] show ?thesis by simp
  next
    case (established us ep r vs)
    with ops [of "Async_connect ep r"] show ?thesis by simp
  next
    case (refused us ep r vs)
    with ops [of "Async_connect ep r"] show ?thesis by simp
  next
    case (timer us vs)
    with ops [of Async_wait] show ?thesis by simp
  next
    case (peer_lost us vs i)
    with ops [of Async_receive] show ?thesis by simp
  next
    case (write_some data i m)
    with ops [of "Async_write data"] show ?thesis by simp
  next
    case (write_done us data vs)
    with ops [of "Async_write data"] show ?thesis by simp
  next
    case (write_failed us data vs i)
    with ops [of "Async_write data"] show ?thesis by simp
  next
    case (accept us k vs i js)
    with settledD(4) [OF set] show ?thesis by simp
  next
    case (read_block us k vs i block rest)
    with reads(3) [of k i] show ?thesis by simp
  next
    case (read_end us k vs i)
    with reads(2) [of k i] show ?thesis by simp
  next
    case (read_aborted us k vs)
    with reads' [of k] show ?thesis by simp
  next
    case (closes n)
    with settledD(3) [OF set] show ?thesis by simp
  qed
qed

lemma resting_steps:
  assumes "(net_step Q srt resolve)\<^sup>*\<^sup>* s t" and "resting pend s" and "bounded_contract Q pend"
  shows "resting pend t \<and> polled s t"
  using assms(1)
proof (induction rule: rtranclp_induct)
  case base
  with assms(2) show ?case by (simp add: polled_refl)
next
  case (step t u)
  with resting_step [OF _ assms(3), of t srt resolve u] show ?case by (blast intro: polled_trans)
qed

section \<open>A connection that is up\<close>

definition conn_ok :: "resolver \<Rightarrow> 'q network \<Rightarrow> bool" where
  "conn_ok resolve s \<longleftrightarrow> client_ok s \<and> serving (log_server s) \<and> linked s \<and> reaching resolve s"

lemma net_step_conn_ok:
  assumes "net_step Q srt resolve s t" and "conn_ok resolve s" and "is_std_sort srt"
  shows "conn_ok resolve t"
  using assms net_step_client_ok [OF assms(1)] net_step_serving [OF assms(1)] net_step_linked [OF assms(1)]
    net_step_reaching [OF assms(1)]
  by (simp add: conn_ok_def)

text \<open>
  When everything has settled, the connection is established and the server reads from it,
  whatever was closed and retried before.
\<close>

lemma settled_up:
  assumes "settled pend s" and "conn_ok resolve s"
  shows "ConnectionState (client s) = SEND_LOOP" and "connections (log_server s) = 1" and "resting pend s"
    and "\<exists>i k. client_conn s = Some i \<and> peer s i = Some k \<and> Reading (log_server s) = [k] \<and> wire s i = []"
    and "Ready (client s) = [Posted]"
proof -
  let ?c = "client s" and ?v = "log_server s"
  have inv: "control_inv ?c" "live_inv ?c" "chain_inv ?c" "serving ?v" "linked s" "reaching_client resolve (client_conn s \<noteq> None) ?c"
    using assms(2) by (simp_all add: conn_ok_def client_ok_def reaching_def)
  note set = settledD [OF assms(1)]
  have ready: "set (Ready ?c) \<subseteq> {Posted}" using set(2) by auto
  then have "concat (map done_ctl (Ready ?c)) = []" by auto
  with inv(1) have "mset (concat (map op_ctl (Inflight ?c))) = {#ConnectionState ?c#}"
    by (simp add: control_inv_def control_def)
  then have "ConnectionState ?c \<in> set (concat (map op_ctl (Inflight ?c)))" by (simp flip: set_mset_mset)
  then obtain op where op: "op \<in> set (Inflight ?c)" "ConnectionState ?c \<in> set (op_ctl op)" by auto
  have nw: "Async_wait \<notin> set (Inflight ?c)"
    using set(1) [of Async_wait] inv(6) by (auto simp: reaching_client_def)
  with set(1) [OF op(1)] op(1) have recv: "op = Async_receive" by blast
  with op show st: "ConnectionState ?c = SEND_LOOP" by simp
  have so: "SocketOpen ?c" "client_conn s \<noteq> None" using inv(6) op(1) recv by (auto simp: reaching_client_def)
  then show rest: "resting pend s" using assms(1) nw inv(5) by (simp add: resting_def)
  obtain i where i: "client_conn s = Some i" using so(2) by blast
  have nc: "\<not> server_closed s i" using set(1) [OF op(1)] recv i by simp
  have len: "length (Accepting ?v) + length (Reading ?v) = 1" "one_client ?v" using inv(4) by (simp_all add: serving_def)
  have reads: "\<exists>j. peer s j = Some k \<and> wire s j = [] \<and> client_conn s = Some j" if "k \<in> set (Reading ?v)" for k
    by (rule set(6) [OF that])
  have "\<exists>k. peer s i = Some k \<and> k \<in> set (Reading ?v)"
    using linkedD(1) [OF inv(5) i]
  proof (elim conjE disjE exE)
    assume un: "i \<in> set (unaccepted s)"
    then have "Accepting ?v = []" using set(4) by auto
    with len(1) obtain k where "Reading ?v = [k]" by (auto simp: length_Suc_conv)
    with reads [of k] i linkedD(3) [OF inv(5) un] show ?thesis by auto
  qed (use nc in \<open>auto simp: server_closed_def\<close>)
  then obtain k where k: "peer s i = Some k" "k \<in> set (Reading ?v)" by blast
  with len(1) have one: "Reading ?v = [k]" by (cases "Reading ?v"; cases "tl (Reading ?v)") auto
  with len(2) show "connections ?v = 1" by (simp add: one_client_def)
  from reads [OF k(2)] i k one show "\<exists>i k. client_conn s = Some i \<and> peer s i = Some k \<and> Reading ?v = [k] \<and> wire s i = []"
    by auto
  have "sends ?c = 1" using inv(2) st so(1) by (simp add: live_inv_def)
  moreover have "\<not> is_write op'" if "op' \<in> set (Inflight ?c)" for op'
    using set(1) [OF that] by auto
  ultimately have "Ready ?c \<noteq> []" by (auto simp: sends_def filter_empty_conv)
  with set(2) show "Ready ?c = [Posted]" by simp
qed

end
