(* ===== verification/Network_Calm.thy ===== *)
theory Network_Calm
  imports Network
begin

text \<open>
  Runs of the network in which the server closes nothing: the first connection stays up, no
  operation fails, and every byte is on its way from the client's buffer to the server's parser.
\<close>

section \<open>The invariant\<close>

fun calm_done :: "completion \<Rightarrow> bool" where
  "calm_done (Resolved Err eps) = (\<not> Err)"
| "calm_done (Connected Err r) = (\<not> Err)"
| "calm_done (Written Err data) = (\<not> Err)"
| "calm_done c = (c = Posted)"

definition unconnected :: "'q network \<Rightarrow> bool" where
  "unconnected s \<longleftrightarrow> next_conn s = 0 \<and> client_conn s = None \<and> sends (client s) = 0
     \<and> ConnectionState (client s) \<noteq> SEND_LOOP \<and> (\<forall>r. Connected False r \<notin> set (Ready (client s)))"

definition connected :: "'q network \<Rightarrow> bool" where
  "connected s \<longleftrightarrow> next_conn s = 1 \<and> client_conn s = Some 0 \<and> SocketOpen (client s)
     \<and> (ConnectionState (client s) = SEND_LOOP \<or> (\<exists>r. Connected False r \<in> set (Ready (client s))))"

text \<open>What the server has made of the bytes that it read since its state was \<open>v0\<close>.\<close>

definition parsed :: "server \<Rightarrow> string \<Rightarrow> server \<Rightarrow> bool" where
  "parsed v0 b v \<longleftrightarrow> receivedBytes v = receivedBytes v0 + length b
     \<and> previousMessage v = previousMessage (fold receive_char b v0)
     \<and> currentMessage v = currentMessage (fold receive_char b v0)"

definition calm_server :: "server \<Rightarrow> 'q network \<Rightarrow> bool" where
  "calm_server v0 s \<longleftrightarrow> CloseRequests (log_server s) = 0 \<and> socketError (log_server s) = Success
     \<and> (\<forall>k \<in> set (Accepting (log_server s)) \<union> set (Reading (log_server s)). k \<notin> set (Closed (log_server s)))
     \<and> (\<forall>i. \<not> server_closed s i) \<and> parsed v0 (delivered s) (log_server s)"

definition calm_client :: "'q network \<Rightarrow> bool" where
  "calm_client s \<longleftrightarrow> Async_wait \<notin> set (Inflight (client s)) \<and> list_all calm_done (Ready (client s))
     \<and> (unconnected s \<or> connected s)
     \<and> delivered s @ wire s 0 = Sent (client s) @ take (written s) (MessageBuffer (client s))"

section \<open>Steps of the server\<close>

lemma receive_fields:
  fixes v w :: server
  assumes "previousMessage v = previousMessage w" and "currentMessage v = currentMessage w"
  shows "previousMessage (fold receive_char b v) = previousMessage (fold receive_char b w)
    \<and> currentMessage (fold receive_char b v) = currentMessage (fold receive_char b w)"
  using assms
proof (induction b arbitrary: v w)
  case (Cons c b)
  show ?case using Cons.IH [of "receive_char c v" "receive_char c w"] Cons.prems by (simp add: receive_char_def)
qed simp

lemma receive_count:
  fixes v :: server
  shows "receivedBytes (fold receive_char b v) = receivedBytes v" "socketError (fold receive_char b v) = socketError v"
    "CloseRequests (fold receive_char b v) = CloseRequests v"
  by (induction b arbitrary: v) (simp_all add: receive_char_def)

lemma parsed_read:
  assumes "parsed v0 b v"
  shows "parsed v0 (b @ block) (HandleRead Success block k (v\<lparr>Reading := ks\<rparr>))"
  using assms receive_fields [of "v\<lparr>Reading := ks, socketError := Success,
      receivedBytes := receivedBytes v + length block\<rparr>" "fold receive_char b v0" block]
  by (simp add: parsed_def HandleRead_def async_read_def read_bytes_def Let_def receive_count)

lemma read_success_frame:
  "CloseRequests (HandleRead Success block k v) = CloseRequests v" "socketError (HandleRead Success block k v) = Success"
  by (simp_all add: HandleRead_def async_read_def read_bytes_def Let_def receive_count)

lemma accept_frame:
  "socketError (OnConnectionAccept Success k v) = Success"
  "parsed v0 b (OnConnectionAccept Success k v) = parsed v0 b v"
  by (simp_all add: OnConnectionAccept_def async_read_def Let_def parsed_def)

lemma parsed_accepting [simp]: "parsed v0 b (v\<lparr>Accepting := ks\<rparr>) = parsed v0 b v"
  by (simp add: parsed_def)

lemma server_closed_iff: "server_closed s i \<longleftrightarrow> (\<exists>k. peer s i = Some k \<and> k \<in> set (Closed (log_server s)))"
  by (simp add: server_closed_def split: option.split)

lemma calm_server_cong:
  assumes "calm_server v0 s" and "log_server t = log_server s" and "peer t = peer s" and "delivered t = delivered s"
  shows "calm_server v0 t"
  using assms by (simp add: calm_server_def server_closed_iff)

lemma reading_zero:
  assumes "linked s" and "unconnected s \<or> connected s" and "peer s i = Some k"
  shows "i = 0" and "connected s"
  using linkedD(4) [OF assms(1,3)] assms(2) by (auto simp: unconnected_def connected_def)

lemma net_step_calm_server:
  assumes "net_step Q srt resolve s t" and "calm_server v0 s" and "calm_client s" and "linked s"
  shows "calm_server v0 t"
proof -
  have ph: "unconnected s \<or> connected s" using assms(3) by (simp add: calm_client_def)
  from assms(1) show ?thesis
  proof (cases rule: net_step.cases)
    case (accept us k vs i js)
    have "k \<notin> set (Closed (log_server s))" using assms(2) accept(2) by (simp add: calm_server_def)
    with assms(2) accept(2) show ?thesis unfolding accept(1)
      by (auto simp: calm_server_def accept_effect accept_frame server_closed_iff split: if_splits)
  next
    case (read_block us k vs i block rest)
    have "k \<notin> set (Closed (log_server s))" using assms(2) read_block(2) by (simp add: calm_server_def)
    with assms(2) read_block(2) show ?thesis unfolding read_block(1)
      by (auto simp: calm_server_def read_effect read_closed read_success_frame server_closed_iff parsed_read)
  next
    case (read_end us k vs i)
    with reading_zero [OF assms(4) ph read_end(3)] show ?thesis by (simp add: connected_def)
  next
    case (read_aborted us k vs)
    with assms(2) show ?thesis by (simp add: calm_server_def)
  next
    case (closes n)
    with assms(2) show ?thesis by (simp add: calm_server_def)
  next
    case (handler c cs)
    show ?thesis by (rule calm_server_cong [OF assms(2)]) (simp_all add: handler(1))
  qed (use calm_server_cong [OF assms(2), of t] in simp_all)
qed

section \<open>Steps of the client\<close>

lemma calm_clientI:
  assumes "Async_wait \<notin> set (Inflight (client s))" and "list_all calm_done (Ready (client s))"
    and "unconnected s \<or> connected s"
    and "delivered s @ wire s 0 = Sent (client s) @ take (written s) (MessageBuffer (client s))"
  shows "calm_client s"
  using assms by (simp add: calm_client_def)

lemma calm_complete:
  assumes "calm_client s" and "Inflight (client s) = us @ op # vs" and "completes op c" and "calm_done c"
    and "\<And>r. c \<noteq> Connected False r"
  shows "calm_client (complete (us @ vs) c s)"
proof (rule calm_clientI)
  have "sends (client (complete (us @ vs) c s)) = sends (client s)"
    using assms(2,3,5) by (cases op; cases c) (auto simp: sends_def)
  then show "unconnected (complete (us @ vs) c s) \<or> connected (complete (us @ vs) c s)"
    using assms(1,5) by (auto simp: calm_client_def unconnected_def connected_def)
qed (use assms in \<open>auto simp: calm_client_def\<close>)

lemma no_connected:
  assumes "control_inv c" and "st \<in> set (op_ctl op)" and "op \<in> set (Inflight c)"
  shows "Connected False r \<notin> set (Ready c)" and "ConnectionState c = st"
proof -
  show st: "ConnectionState c = st" using control_op [OF assms(1,3)] assms(2) by auto
  show "Connected False r \<notin> set (Ready c)"
  proof
    assume "Connected False r \<in> set (Ready c)"
    with assms show False by (auto simp: control_inv_def control_def dest!: split_list)
  qed
qed

lemma trySendMessage_state:
  "ConnectionState (trySendMessage Q c) = ConnectionState c" "Sent (trySendMessage Q c) = Sent c"
proof -
  have call: "ConnectionState s' = ConnectionState s \<and> Sent s' = Sent s" if "call_queued f s = (m, s')"
    for f m and s s' :: "'a impl"
    using that by (cases f) auto
  show "ConnectionState (trySendMessage Q c) = ConnectionState c" "Sent (trySendMessage Q c) = Sent c"
    by (auto simp: trySendMessage_def async_write_def start_op_def post_def split: option.splits prod.splits dest!: call)
qed

text \<open>A handler that ran while nothing was written, or that completed the write.\<close>

lemma calm_send:
  assumes "connected s" and "Inflight d = Inflight (client s) \<or> Inflight d = Inflight (client s) @ [Async_receive]"
    and "Async_wait \<notin> set (Inflight (client s))" and "list_all calm_done (Ready d)" and "SocketOpen d"
    and "ConnectionState d = SEND_LOOP"
    and "delivered s @ wire s 0 = Sent d"
  shows "calm_client (s\<lparr>client := trySendMessage Q d, client_conn := client_conn s, written := 0\<rparr>)"
proof -
  obtain ws ps where t: "Inflight (trySendMessage Q d) = Inflight d @ ws" "list_all is_write ws"
    "Ready (trySendMessage Q d) = Ready d @ ps" "set ps \<subseteq> {Posted}" "SocketOpen (trySendMessage Q d) = SocketOpen d"
    by (rule trySendMessage_ops [of Q d])
  have "Async_wait \<notin> set ws" using t(2) by (auto simp: list_all_iff)
  moreover have "list_all calm_done ps" using t(4) by (auto simp: list_all_iff)
  ultimately show ?thesis
    using assms t(5) by (intro calm_clientI) (auto simp: t(1,3) trySendMessage_state connected_def)
qed

lemma calm_runs:
  assumes "client_ok s" and "calm_client s" and "Ready (client s) = c # cs"
  shows "calm_client (client_runs Q srt c cs s)"
proof -
  let ?c = "client s" and ?d = "(client s)\<lparr>Ready := cs\<rparr>"
  have inv: "control_inv ?c" "chain_inv ?c" "live_inv ?c" "written_ok s" using assms(1) by (simp_all add: client_ok_def)
  have calm: "Async_wait \<notin> set (Inflight ?c)" "calm_done c" "list_all calm_done cs" "unconnected s \<or> connected s"
    "delivered s @ wire s 0 = Sent ?c @ take (written s) (MessageBuffer ?c)"
    using assms(2,3) by (simp_all add: calm_client_def)
  have ctl: "mset (done_ctl c) + control ?d = {#ConnectionState ?c#}"
    using inv(1) control_pop [OF assms(3)] by (simp add: control_inv_def)
  have pop: "sends ?c = (if is_send c then 1 else 0) + sends ?d" by (rule sends_pop [OF assms(3)])
  have only: "Connected False r \<notin> set cs" if "done_ctl c \<noteq> []" for r
    using that ctl by (cases "done_ctl c") (auto simp: control_def dest!: split_list)
  have w0: "written s = 0" if "sends ?c = 0 \<or> c = Posted"
  proof -
    have "\<not> writing ?c"
    proof
      assume w: "writing ?c"
      then have one: "sends ?c = 1" using writing_sends [OF inv(2)] by simp
      with that have "c = Posted" by simp
      with one pop have "sends ?d = 0" by simp
      with w \<open>c = Posted\<close> assms(3) show False
        by (auto simp: writing_def sends_def list_ex_iff filter_empty_conv)
    qed
    with inv(4) show ?thesis by (auto simp: written_ok_def)
  qed
  have loop: "connected s" "ConnectionState ?c = SEND_LOOP" if "is_send c"
  proof -
    have one: "sends ?c = 1" using that pop inv(2) by (simp add: chain_inv_def)
    with calm(4) show cn: "connected s" by (auto simp: unconnected_def)
    have "ConnectionState ?c \<noteq> CONNECT" using one inv(2) by (auto simp: chain_inv_def)
    then have "Connected False r \<notin> set (Ready ?c)" for r
      using control_done [OF inv(1), of "Connected False r"] by auto
    with cn show "ConnectionState ?c = SEND_LOOP" by (auto simp: connected_def)
  qed
  show ?thesis
  proof (cases c)
    case (Resolved Err eps)
    with ctl have st: "ConnectionState ?c \<noteq> SEND_LOOP" by auto
    have nc: "Connected False r \<notin> set (Ready ?c)" for r using only assms(3) Resolved by auto
    from st nc calm(4) have un: "unconnected s" by (auto simp: connected_def)
    let ?t = "tryConnect (make_QueryResult srt eps) ?d"
    have "run_handler Q srt c 0 ?d = ?t" using Resolved calm(2) by (simp add: resolverHandler_def)
    moreover have "sends ?t = 0" using un pop Resolved by (simp add: sends_def handler_ops unconnected_def)
    moreover have "ConnectionState ?t = CONNECT" "SocketOpen ?t" "Sent ?t = Sent ?c" "MessageBuffer ?t = MessageBuffer ?c"
      by (simp_all add: tryConnect_def async_connect_def setState_def start_op_def split: prod.split)
    ultimately show ?thesis using calm un nc assms(3) Resolved
      by (intro calm_clientI) (auto simp: client_runs_def Let_def handler_ops unconnected_def)
  next
    case (Connected Err r)
    with calm(2) have ok: "\<not> Err" by simp
    with calm(4) assms(3) Connected have cn: "connected s" by (auto simp: unconnected_def)
    from ctl Connected have "ConnectionState ?c = CONNECT" by simp
    with inv(2) have w: "written s = 0" by (intro w0) (auto simp: chain_inv_def le_Suc_eq)
    let ?u = "start_op Async_receive (setState SEND_LOOP ?d)"
    have "calm_client (s\<lparr>client := trySendMessage Q ?u, client_conn := client_conn s, written := 0\<rparr>)"
      by (rule calm_send [OF cn]) (use cn calm w in \<open>simp_all add: handler_ops start_op_def setState_def connected_def\<close>)
    moreover have "SocketOpen (trySendMessage Q ?u)"
      using cn by (simp add: trySendMessage_live connected_def start_op_def setState_def)
    ultimately show ?thesis using Connected ok w by (simp add: client_runs_def Let_def connectHandler_def)
  next
    case (Written Err data)
    with calm(2) have ok: "\<not> Err" by simp
    note lp = loop [unfolded Written, simplified]
    have data: "data = MessageBuffer ?c" "written s = length (MessageBuffer ?c)"
      using inv(2,4) assms(3) Written ok by (auto simp: chain_inv_def written_ok_def)
    let ?u = "?d\<lparr>Sent := Sent ?c @ data, MessageBuffer := []\<rparr>"
    have "calm_client (s\<lparr>client := trySendMessage Q ?u, client_conn := client_conn s, written := 0\<rparr>)"
      by (rule calm_send [OF lp(1)]) (use lp calm data in \<open>simp_all add: connected_def\<close>)
    moreover have "SocketOpen (trySendMessage Q ?u)" using lp(1) by (simp add: trySendMessage_live connected_def)
    ultimately show ?thesis using Written ok data
      by (simp add: client_runs_def Let_def sentMessageHandler_def)
  next
    case Posted
    note lp = loop [unfolded Posted, simplified]
    have w: "written s = 0" using w0 Posted by simp
    have "calm_client (s\<lparr>client := trySendMessage Q ?d, client_conn := client_conn s, written := 0\<rparr>)"
      by (rule calm_send [OF lp(1)]) (use lp calm w in \<open>simp_all add: connected_def\<close>)
    moreover have "SocketOpen (trySendMessage Q ?d)" using lp(1) by (simp add: trySendMessage_live connected_def)
    ultimately show ?thesis using Posted w by (simp add: client_runs_def Let_def)
  qed (use calm(2) in simp_all)
qed

lemma net_step_calm_client:
  assumes "net_step Q srt resolve s t" and "calm_client s" and "calm_server v0 s" and "conn_ok resolve s"
  shows "calm_client t"
proof -
  have ok: "client_ok s" "linked s" "reaching resolve s" "serving (log_server s)" "control_inv (client s)" "live_inv (client s)"
    using assms(4) by (simp_all add: conn_ok_def client_ok_def)
  have ph: "unconnected s \<or> connected s" using assms(2) by (simp add: calm_client_def)
  have nsc: "\<not> server_closed s i" for i using assms(3) by (simp add: calm_server_def)
  from assms(1) show ?thesis
  proof (cases rule: net_step.cases)
    case (resolved us vs)
    have "calm_done (lookup_result resolve (client s))"
      using ok(3) by (auto simp: reaching_def reaching_client_def lookup_result_def split: option.splits)
    then show ?thesis
      unfolding resolved(1) by (intro calm_complete [OF assms(2) resolved(2) lookup_completes]) (auto simp: lookup_result_def split: option.splits)
  next
    case (established us ep r vs)
    have st: "ConnectionState (client s) = CONNECT" "\<And>r. Connected False r \<notin> set (Ready (client s))"
      using no_connected [OF ok(5), of CONNECT "Async_connect ep r"] established(2) by auto
    with ph have un: "unconnected s" by (auto simp: connected_def)
    moreover have "SocketOpen (client s)" using st(1) ok(6) by (simp add: live_inv_def)
    ultimately show ?thesis using assms(2) established(2) unfolding established(1)
      by (intro calm_clientI) (auto simp: calm_client_def unconnected_def connected_def)
  next
    case (refused us ep r vs)
    with ok(3,4) show ?thesis
      by (simp add: reaching_def reaching_client_def test_endpoint_def listens_def serving_def)
  next
    case (timer us vs)
    with assms(2) show ?thesis by (simp add: calm_client_def)
  next
    case (peer_lost us vs i)
    with nsc show ?thesis by simp
  next
    case (write_failed us data vs i)
    with nsc show ?thesis by simp
  next
    case (write_done us data vs)
    then show ?thesis by (auto intro: calm_complete [OF assms(2) write_done(2)])
  next
    case (write_some data i m)
    have "i = 0" using write_some(3) ph by (auto simp: unconnected_def connected_def)
    moreover have "data = MessageBuffer (client s)" using ok(1) write_some(2) by (simp add: client_ok_def chain_inv_def)
    moreover have "take (written s) data @ drop (written s) (take m data) = take m data"
      using write_some(4) by (metis append_take_drop_id less_imp_le_nat min.absorb1 take_take)
    moreover have "delivered s @ wire s 0 = Sent (client s) @ take (written s) (MessageBuffer (client s))"
      using assms(2) by (simp add: calm_client_def)
    ultimately have "(delivered s @ wire s 0) @ drop (written s) (take m data) = Sent (client s) @ take m (MessageBuffer (client s))"
      by (simp only: append_assoc)
    with \<open>i = 0\<close> have "delivered t @ wire t 0 = Sent (client t) @ take (written t) (MessageBuffer (client t))"
      unfolding write_some(1) by simp
    then show ?thesis using assms(2) unfolding calm_client_def write_some(1)
      by (simp add: unconnected_def connected_def)
  next
    case (handler c cs)
    with calm_runs [OF ok(1) assms(2)] show ?thesis by simp
  next
    case (accept us k vs i js)
    with assms(2) show ?thesis by (simp add: calm_client_def unconnected_def connected_def)
  next
    case (read_block us k vs i block rest)
    with reading_zero(1) [OF ok(2) ph read_block(3)] assms(2) show ?thesis
      by (simp add: calm_client_def unconnected_def connected_def)
  qed (use assms(2) in \<open>simp_all add: calm_client_def unconnected_def connected_def\<close>)
qed

end
