(* ===== verification/Network_Test.thy ===== *)
theory Network_Test
  imports Network_Calm
begin

text \<open>
  The tests of \<open>unit_tests/GraylogInterfaceTest.cpp\<close> that need a network, as programs over the
  network of client and test server. The threads of both sides go on between any two actions of
  a test; where the test sleeps, it goes on in a settled state, and where it waits for a flush,
  when the promise is ready or the network has settled.
\<close>

section \<open>Test programs\<close>

text \<open>An expectation reads (and by reading may reset) the server, and the client's status.\<close>

datatype net_op =
    Construct string int
  | Send string
  | Start_flush nat
  | CloseConnections
  | Destruct
  | Sleep
  | Expect "server \<Rightarrow> Status \<Rightarrow> bool \<times> server"
  | Queue_size "nat \<Rightarrow> bool"
  | Wait_flush nat
  | Flush_returns nat bool

text \<open>When a test goes on: the time of a sleep, and that of an expected flush, suffices for the network to settle.\<close>

fun goes_on :: "('q \<Rightarrow> nat \<Rightarrow> queued list) \<Rightarrow> net_op \<Rightarrow> 'q network \<Rightarrow> bool" where
  "goes_on pend Sleep s = settled pend s"
| "goes_on pend (Wait_flush p) s = (future_ready (Promises (client s) p) \<or> settled pend s)"
| "goes_on pend op s = True"

fun act_on :: "'q bounded_queue_ops \<Rightarrow> 'q \<Rightarrow> nat \<Rightarrow> net_op \<Rightarrow> 'q network \<Rightarrow> bool \<times> 'q network" where
  "act_on Q q0 thr (Construct host port) s =
     (True, s\<lparr>client := Impl host port q0, client_conn := None, written := 0, history := [], delivered := []\<rparr>)"
| "act_on Q q0 thr (Send Msg) s =
     (True, s\<lparr>client := sendMessage Q thr Msg (client s),
              history := history s @ enqueued Q thr (MsgFunc Msg) (client s)\<rparr>)"
| "act_on Q q0 thr (Start_flush p) s =
     (True, s\<lparr>client := flush_start Q thr p (client s),
              history := history s @ enqueued Q thr (FlushFunc p) (client s)\<rparr>)"
| "act_on Q q0 thr CloseConnections s = (True, serve CloseAllConnections s)"
| "act_on Q q0 thr Destruct s = (True, s\<lparr>client := destroy_Impl (client s), client_conn := None, written := 0\<rparr>)"
| "act_on Q q0 thr Sleep s = (True, s)"
| "act_on Q q0 thr (Wait_flush p) s = (True, s)"
| "act_on Q q0 thr (Expect P) s =
     (let (ok, v) = P (log_server s) (getConnectionStatus (client s)) in (ok, s\<lparr>log_server := v\<rparr>))"
| "act_on Q q0 thr (Queue_size P) s = (P (queueSize Q (client s)), s)"
| "act_on Q q0 thr (Flush_returns p r) s = (flush_result p (client s) = r, s)"

fun passes ::
  "'q bounded_queue_ops \<Rightarrow> (endpoint list \<Rightarrow> endpoint list) \<Rightarrow> resolver \<Rightarrow> ('q \<Rightarrow> nat \<Rightarrow> queued list) \<Rightarrow> 'q \<Rightarrow> nat
     \<Rightarrow> net_op list \<Rightarrow> 'q network \<Rightarrow> bool" where
  "passes Q srt resolve pend q0 thr [] s = True"
| "passes Q srt resolve pend q0 thr (op # ops) s =
     (\<forall>t. (net_step Q srt resolve)\<^sup>*\<^sup>* s t \<longrightarrow> goes_on pend op t \<longrightarrow>
        (case act_on Q q0 thr op t of (ok, u) \<Rightarrow> ok \<and> passes Q srt resolve pend q0 thr ops u))"

definition connections_are :: "int \<Rightarrow> net_op" where
  "connections_are n = Expect (\<lambda>v st. (GetNrOfConnections v = n, v))"

definition latest_message :: "string \<Rightarrow> net_op" where
  "latest_message m = Expect (\<lambda>v st. case GetLatestMessage v of (l, v') \<Rightarrow> (l = m, v'))"

definition last_error :: "error_code \<Rightarrow> net_op" where
  "last_error e = Expect (\<lambda>v st. case GetLastSocketError v of (l, v') \<Rightarrow> (l = e, v'))"

definition received_bytes :: "nat \<Rightarrow> net_op" where
  "received_bytes n = Expect (\<lambda>v st. (GetReceivedBytes v = n, v))"

definition status_is :: "Status \<Rightarrow> net_op" where
  "status_is x = Expect (\<lambda>v st. (st = x, v))"

definition status_is_not :: "Status \<Rightarrow> net_op" where
  "status_is_not x = Expect (\<lambda>v st. (st \<noteq> x, v))"

definition TearDown :: "net_op list" where
  "TearDown = [CloseConnections, Expect (\<lambda>v st. (True, snd (GetLastSocketError v))),
     Expect (\<lambda>v st. (True, snd (GetLatestMessage v))), Expect (\<lambda>v st. (True, ClearReceivedBytes v))]"

section \<open>The tests\<close>

text \<open>
  \<open>server_silent\<close>: three expectations that most tests start with or repeat. \<open>flush\<close> enqueues
  its closure and waits; \<open>emptyQueue\<close> compares the size of the queue with zero.
\<close>

definition server_silent :: "int \<Rightarrow> net_op list" where
  "server_silent n = [connections_are n, latest_message [], last_error Success]"

definition UnknownHostTest :: "net_op list" where
  "UnknownHostTest =
     [Construct ''no_host'' testPort, Sleep] @ server_silent 0 @ [status_is_not SEND_LOOP, Destruct] @ TearDown"

definition connection_test :: "string \<Rightarrow> net_op list" where
  "connection_test host =
     server_silent 0
     @ [Construct host testPort, Sleep] @ server_silent 1 @ [status_is SEND_LOOP, Destruct]
     @ [Sleep, connections_are 0, latest_message [], last_error eof] @ TearDown"

definition ConnectionTest :: "net_op list" where
  "ConnectionTest = connection_test ''localhost''"

definition IPv6ConnectionTest :: "net_op list" where
  "IPv6ConnectionTest = connection_test ''::1''"

definition WrongPortTest :: "net_op list" where
  "WrongPortTest =
     [Construct ''localhost'' (testPort + 1), Sleep] @ server_silent 0 @ [status_is_not SEND_LOOP, Destruct] @ TearDown"

definition CloseConnectionTest :: "net_op list" where
  "CloseConnectionTest =
     [Construct ''localhost'' testPort, Sleep, status_is SEND_LOOP, connections_are 1, CloseConnections,
      Sleep, status_is SEND_LOOP, connections_are 1, Destruct,
      Sleep, connections_are 0] @ TearDown"

definition testString :: string where
  "testString = ''This is a test string!''"

definition MessageTransmissionTest :: "net_op list" where
  "MessageTransmissionTest =
     [Construct ''localhost'' testPort, Send testString, Sleep, last_error Success,
      received_bytes (length testString + 1), latest_message testString, connections_are 1, Destruct] @ TearDown"

definition TargetString :: string where
  "TargetString = concat (replicate 30000 ''This is a test string!'')"

definition LargeMessageTransmissionTest :: "net_op list" where
  "LargeMessageTransmissionTest =
     [Construct ''localhost'' testPort, Send TargetString, Sleep, last_error Success,
      received_bytes (length TargetString + 1), latest_message TargetString, connections_are 1, Destruct] @ TearDown"

definition test_lines :: "string list" where
  "test_lines = [''This is a test.'',
     ''!'' @ [CHR 0x22] @ ''#'' @ [CHR 0xE2, CHR 0x82, CHR 0xAC] @ ''%&/()=?*^_-.,:;'',
     ''Another line bites the dust.'']"

definition totalBytes :: "string list \<Rightarrow> nat" where
  "totalBytes ms = sum_list (map (\<lambda>ln. length ln + 1) ms)"

definition MultipleMessagesTest :: "net_op list" where
  "MultipleMessagesTest =
     [Construct ''localhost'' testPort, Sleep] @ map Send test_lines
     @ [Sleep, last_error Success, latest_message (last test_lines), received_bytes (totalBytes test_lines),
        connections_are 1, Destruct] @ TearDown"

text \<open>The tests of the queue and of \<open>flush\<close>; a server listens only in \<open>FlushSuccess\<close>. \<open>json\<close> is the
  serialised message.\<close>

definition TestQueueSize :: "string \<Rightarrow> net_op list" where
  "TestQueueSize json = [Construct ''localhost'' testPort, Send json, Queue_size (\<lambda>n. n = 1), Destruct]"

definition TestQueueSizeLimit :: "string \<Rightarrow> net_op list" where
  "TestQueueSizeLimit json = [Construct ''localhost'' testPort] @ replicate (64 * 4) (Send json)
     @ [Queue_size (\<lambda>n. 64 - 20 \<le> n \<and> n \<le> 64 + 20), Destruct]"

text \<open>\<open>QueueLengthTest.cpp\<close>: the parser that the test sets is not used by this handler.\<close>

definition QueueLength_GraylogInterfaceTest :: "string \<Rightarrow> net_op list" where
  "QueueLength_GraylogInterfaceTest json = [Construct ''some_addr'' 22222] @ replicate 50 (Send json)
     @ [Queue_size (\<lambda>n. n = 50), Destruct]"

definition OnInitialisationQueueEmpty :: "net_op list" where
  "OnInitialisationQueueEmpty =
     [Construct ''localhost'' testPort, Queue_size (\<lambda>n. n = 0), Queue_size (\<lambda>n. n = 0), Destruct]"

definition QueueSizeOneIsNotEmpty :: "net_op list" where
  "QueueSizeOneIsNotEmpty =
     [Construct ''localhost'' testPort, Send ''tst_msg'', Send ''tst_msg'', Queue_size (\<lambda>n. n \<ge> 1),
      Queue_size (\<lambda>n. n \<le> 2), Queue_size (\<lambda>n. n \<noteq> 0), Destruct]"

definition FlushFail :: "net_op list" where
  "FlushFail =
     [Construct ''localhost'' testPort, Send ''tst_msg'', Start_flush 0, Flush_returns 0 False, Destruct]"

definition FlushSuccess :: "net_op list" where
  "FlushSuccess = [Construct ''localhost'' testPort, Start_flush 0, Wait_flush 0, Flush_returns 0 True, Destruct]"

section \<open>The surroundings of a test\<close>

text \<open>
  The resolver as the tests expect it; the queue of \<open>moodycamel\<close> with capacity \<open>n\<close>, as far as one
  thread uses it; a server on which nothing happens, and none. \<open>used q p\<close> is a ghost: the number of
  closures that thread \<open>p\<close> has ever enqueued. The constructor allocates whole blocks of 32 slots,
  at least \<open>n\<close> slots for one producer, and \<open>try_enqueue\<close> never allocates: the first \<open>n\<close> closures are
  accepted (a slot that was emptied need not be available again), and none when all slots are
  occupied. \<open>size_approx\<close> is exact while no operation is in progress.
\<close>

definition resolver_law :: "resolver \<Rightarrow> bool" where
  "resolver_law resolve \<longleftrightarrow> (\<forall>service. resolve ''no_host'' service = None)
     \<and> (\<forall>host \<in> {''localhost'', ''::1''}. \<forall>port \<in> {testPort, testPort + 1}.
         \<exists>eps. resolve host (show_int port) = Some eps \<and> eps \<noteq> [] \<and> list_all (\<lambda>ep. int (ep_port ep) = port) eps)"

definition slots :: "nat \<Rightarrow> nat" where
  "slots n = 32 * ((n + 31) div 32)"

definition queue_law ::
  "'q bounded_queue_ops \<Rightarrow> ('q \<Rightarrow> nat \<Rightarrow> queued list) \<Rightarrow> ('q \<Rightarrow> nat \<Rightarrow> nat) \<Rightarrow> nat \<Rightarrow> bool" where
  "queue_law Q pend used n \<longleftrightarrow>
     (\<forall>p f q q'. b_try_enqueue Q p f q = (True, q') \<longrightarrow> used q' = (used q)(p := Suc (used q p)))
     \<and> (\<forall>p f q q'. b_try_enqueue Q p f q = (False, q') \<longrightarrow> used q' = used q)
     \<and> (\<forall>q r q'. b_wait_dequeue_timed Q q = (r, q') \<longrightarrow> used q' = used q)
     \<and> (\<forall>p q. (\<forall>p'. p' \<noteq> p \<longrightarrow> used q p' = 0) \<longrightarrow>
          b_size_approx Q q = length (pend q p)
          \<and> (\<forall>f. used q p < n \<longrightarrow> fst (b_try_enqueue Q p f q))
          \<and> (\<forall>f. slots n \<le> length (pend q p) \<longrightarrow> \<not> fst (b_try_enqueue Q p f q)))"

definition idle_server :: "server \<Rightarrow> bool" where
  "idle_server v \<longleftrightarrow> serving v \<and> Reading v = [] \<and> CloseRequests v = 0 \<and> socketError v = Success
     \<and> previousMessage v = [] \<and> currentMessage v = [] \<and> receivedBytes v = 0
     \<and> (\<forall>k \<in> set (Accepting v). k < NextSocket v \<and> k \<notin> set (Closed v))"

definition no_server :: "server \<Rightarrow> bool" where
  "no_server v \<longleftrightarrow> \<not> AcceptorOpen v \<and> Reading v = [] \<and> CloseRequests v = 0"

definition fresh_network :: "'q \<Rightarrow> server \<Rightarrow> 'q network" where
  "fresh_network q0 v = \<lparr>client = destroy_Impl (Impl [] 0 q0), log_server = v, unaccepted = [], peer = (\<lambda>_. None),
     wire = (\<lambda>_. []), next_conn = 0, client_conn = None, written = 0, history = [], delivered = []\<rparr>"

section \<open>Running test programs\<close>

lemma passes_Cons:
  assumes "\<And>t. (net_step Q srt resolve)\<^sup>*\<^sup>* s t \<Longrightarrow>
      fst (act_on Q q0 thr op t) \<and> passes Q srt resolve pend q0 thr ops (snd (act_on Q q0 thr op t))"
  shows "passes Q srt resolve pend q0 thr (op # ops) s"
  using assms by (simp add: case_prod_beta)

lemma TearDown_passes: "passes Q srt resolve pend q0 thr TearDown s"
  by (simp add: TearDown_def)

text \<open>Steps that keep an invariant.\<close>

lemma steps_inv:
  assumes "(net_step Q srt resolve)\<^sup>*\<^sup>* s t" and "I s" and "\<And>s t. I s \<Longrightarrow> net_step Q srt resolve s t \<Longrightarrow> I t"
  shows "I t"
  using assms by (induction rule: rtranclp_induct) auto

text \<open>
  Expectations in a resting state: the threads only poll, so what one of them finds the next
  ones find too, up to what the test itself resets.
\<close>

fun expects :: "(server \<Rightarrow> Status \<Rightarrow> bool \<times> server) list \<Rightarrow> server \<Rightarrow> Status \<Rightarrow> bool \<times> server" where
  "expects [] v st = (True, v)"
| "expects (P # Ps) v st = (case P v st of (ok, v') \<Rightarrow> (case expects Ps v' st of (oks, w) \<Rightarrow> (ok \<and> oks, w)))"

definition same_sockets :: "server \<Rightarrow> server \<Rightarrow> bool" where
  "same_sockets v w \<longleftrightarrow> Accepting w = Accepting v \<and> Reading w = Reading v \<and> Closed w = Closed v
     \<and> CloseRequests w = CloseRequests v \<and> NextSocket w = NextSocket v \<and> AcceptorOpen w = AcceptorOpen v
     \<and> connections w = connections v \<and> existingSockets w = existingSockets v"

definition keeps_sockets :: "(server \<Rightarrow> Status \<Rightarrow> bool \<times> server) \<Rightarrow> bool" where
  "keeps_sockets P \<longleftrightarrow> (\<forall>v st. same_sockets v (snd (P v st)))"

lemma keeps_socketsD: "keeps_sockets P \<Longrightarrow> P v st = (ok, w) \<Longrightarrow> same_sockets v w"
  unfolding keeps_sockets_def by (metis snd_conv)

lemma resting_server:
  assumes "resting pend s" and "same_sockets (log_server s) v"
  shows "resting pend (s\<lparr>log_server := v\<rparr>)"
proof -
  have "linked (s\<lparr>log_server := v\<rparr>)"
    by (rule linked_mono [where s = s]) (use assms in \<open>simp_all add: resting_def same_sockets_def\<close>)
  moreover have "server_closed (s\<lparr>log_server := v\<rparr>) i = server_closed s i" for i
    using assms(2) by (simp add: server_closed_def same_sockets_def split: option.split)
  ultimately show ?thesis using assms unfolding resting_def settled_def by (simp add: same_sockets_def)
qed

lemma polled_server: "polled s t \<Longrightarrow> polled (s\<lparr>log_server := v\<rparr>) (t\<lparr>log_server := v\<rparr>)"
  by (simp add: polled_def)

lemma passes_expects:
  assumes "resting pend s" and "bounded_contract Q pend" and "list_all keeps_sockets Ps"
    and "fst (expects Ps (log_server s) (ConnectionState (client s)))"
    and "I s" and "\<And>t u. I t \<Longrightarrow> net_step Q srt resolve t u \<Longrightarrow> I u"
    and "\<And>t v. I t \<Longrightarrow> same_sockets (log_server t) v \<Longrightarrow> I (t\<lparr>log_server := v\<rparr>)"
    and "\<And>t. resting pend t \<Longrightarrow> I t \<Longrightarrow>
      polled (s\<lparr>log_server := snd (expects Ps (log_server s) (ConnectionState (client s)))\<rparr>) t \<Longrightarrow>
      passes Q srt resolve pend q0 thr ops t"
  shows "passes Q srt resolve pend q0 thr (map Expect Ps @ ops) s"
  using assms(1,3,4,5,8)
proof (induction Ps arbitrary: s)
  case Nil
  then show ?case by (simp add: polled_refl)
next
  case (Cons P Ps)
  show ?case
    unfolding list.map append_Cons
  proof (rule passes_Cons)
    fix t assume st: "(net_step Q srt resolve)\<^sup>*\<^sup>* s t"
    from resting_steps [OF st Cons.prems(1) assms(2)] have rt: "resting pend t" "polled s t" by blast+
    have "I t" by (rule steps_inv [where I = I, OF st Cons.prems(4) assms(6)])
    let ?v = "log_server s" and ?st = "ConnectionState (client s)"
    have st: "log_server t = ?v" "ConnectionState (client t) = ?st" using rt(2) by (simp_all add: polled_def)
    obtain ok v where P: "P ?v ?st = (ok, v)" by fastforce
    obtain oks w where Ps: "expects Ps v ?st = (oks, w)" by fastforce
    have ok: "ok" "oks" using Cons.prems(3) P Ps by simp_all
    let ?u = "t\<lparr>log_server := v\<rparr>"
    have same: "same_sockets ?v v" using keeps_socketsD [of P ?v ?st ok v] P Cons.prems(2) by simp
    then have u: "resting pend ?u" "I ?u" using rt(1) \<open>I t\<close> by (auto intro: resting_server assms(7) simp: st)
    have "passes Q srt resolve pend q0 thr (map Expect Ps @ ops) ?u"
    proof (rule Cons.IH [OF u(1) _ _ u(2)])
      show "list_all keeps_sockets Ps" using Cons.prems(2) by simp
      show "fst (expects Ps (log_server ?u) (ConnectionState (client ?u)))" using Ps ok(2) st(2) by simp
      fix x assume x: "resting pend x" "I x"
        "polled (?u\<lparr>log_server := snd (expects Ps (log_server ?u) (ConnectionState (client ?u)))\<rparr>) x"
      have "polled (s\<lparr>log_server := w\<rparr>) x"
        using x(3) polled_server [OF rt(2), of w] Ps st(2) by (simp add: polled_def)
      then show "passes Q srt resolve pend q0 thr ops x" using Cons.prems(5) [OF x(1,2)] P Ps by simp
    qed
    then show "fst (act_on Q q0 thr (Expect P) t)
        \<and> passes Q srt resolve pend q0 thr (map Expect Ps @ ops) (snd (act_on Q q0 thr (Expect P) t))"
      using P ok(1) st by (simp add: getConnectionStatus_def)
  qed
qed

text \<open>A network in which nothing can happen, because no operation is outstanding.\<close>

definition quiet :: "'q network \<Rightarrow> bool" where
  "quiet s \<longleftrightarrow> Inflight (client s) = [] \<and> Ready (client s) = [] \<and> unaccepted s = []
     \<and> Reading (log_server s) = [] \<and> CloseRequests (log_server s) = 0"

lemma quiet_stuck: "quiet s \<Longrightarrow> \<not> net_step Q srt resolve s t"
  by (auto simp: quiet_def elim: net_stepE)

lemma quiet_steps: "(net_step Q srt resolve)\<^sup>*\<^sup>* s t \<Longrightarrow> quiet s \<Longrightarrow> t = s"
  by (metis converse_rtranclpE quiet_stuck)

lemma passes_quiet:
  assumes "quiet s" and "list_all keeps_sockets Ps"
    and "fst (expects Ps (log_server s) (ConnectionState (client s)))"
    and "\<And>u. quiet u \<Longrightarrow> u = s\<lparr>log_server := snd (expects Ps (log_server s) (ConnectionState (client s)))\<rparr> \<Longrightarrow>
      passes Q srt resolve pend q0 thr ops u"
  shows "passes Q srt resolve pend q0 thr (map Expect Ps @ ops) s"
  using assms
proof (induction Ps arbitrary: s)
  case (Cons P Ps)
  obtain ok v where P: "P (log_server s) (ConnectionState (client s)) = (ok, v)" by fastforce
  obtain oks w where Ps: "expects Ps v (ConnectionState (client s)) = (oks, w)" by fastforce
  have ok: "ok" "oks" using Cons.prems(3) P Ps by simp_all
  let ?u = "s\<lparr>log_server := v\<rparr>"
  have "same_sockets (log_server s) v"
    using keeps_socketsD [of P "log_server s" "ConnectionState (client s)" ok v] P Cons.prems(2) by simp
  with Cons.prems(1) have u: "quiet ?u" by (simp add: quiet_def same_sockets_def)
  have "passes Q srt resolve pend q0 thr (map Expect Ps @ ops) ?u"
    by (rule Cons.IH [OF u]) (use Cons.prems P Ps ok in simp_all)
  with quiet_steps [OF _ Cons.prems(1)] P ok(1) show ?case
    unfolding list.map append_Cons
    by (intro passes_Cons) (auto simp: getConnectionStatus_def dest!: quiet_steps [OF _ Cons.prems(1)])
qed simp

text \<open>Lists of expectations as the tests write them.\<close>

fun expectation :: "net_op \<Rightarrow> server \<Rightarrow> Status \<Rightarrow> bool \<times> server" where
  "expectation (Expect P) = P"
| "expectation op = (\<lambda>v st. (False, v))"

definition expect_all :: "net_op list \<Rightarrow> server \<Rightarrow> Status \<Rightarrow> bool \<times> server" where
  "expect_all ops = expects (map expectation ops)"

definition expectations :: "net_op list \<Rightarrow> bool" where
  "expectations ops \<longleftrightarrow> ops = map Expect (map expectation ops) \<and> list_all keeps_sockets (map expectation ops)"

lemma expect_all_simps [simp]:
  "expect_all [] v st = (True, v)"
  "expect_all (op # ops) v st = (case expectation op v st of (ok, v') \<Rightarrow> (case expect_all ops v' st of (oks, w) \<Rightarrow> (ok \<and> oks, w)))"
  by (simp_all add: expect_all_def)

lemmas expectation_defs = connections_are_def latest_message_def last_error_def received_bytes_def status_is_def status_is_not_def

lemma expectations_simps [simp]:
  "expectations []" "expectations (connections_are n # ops) = expectations ops"
  "expectations (latest_message m # ops) = expectations ops" "expectations (last_error e # ops) = expectations ops"
  "expectations (received_bytes k # ops) = expectations ops" "expectations (status_is x # ops) = expectations ops"
  "expectations (status_is_not x # ops) = expectations ops"
  by (simp_all add: expectations_def expectation_defs keeps_sockets_def same_sockets_def GetLatestMessage_def GetLastSocketError_def)

lemma expectation_simps [simp]:
  "expectation (connections_are n) v st = (GetNrOfConnections v = n, v)"
  "expectation (latest_message m) v st = (fst (GetLatestMessage v) = m, snd (GetLatestMessage v))"
  "expectation (last_error e) v st = (fst (GetLastSocketError v) = e, snd (GetLastSocketError v))"
  "expectation (received_bytes k) v st = (GetReceivedBytes v = k, v)"
  "expectation (status_is x) v st = (st = x, v)" "expectation (status_is_not x) v st = (st \<noteq> x, v)"
  by (simp_all add: expectation_defs split: prod.split)

lemma passes_expectations:
  assumes "resting pend s" and "bounded_contract Q pend" and "expectations xs"
    and "fst (expect_all xs (log_server s) (ConnectionState (client s)))"
    and "I s" and "\<And>t u. I t \<Longrightarrow> net_step Q srt resolve t u \<Longrightarrow> I u"
    and "\<And>t v. I t \<Longrightarrow> same_sockets (log_server t) v \<Longrightarrow> I (t\<lparr>log_server := v\<rparr>)"
    and "\<And>t. resting pend t \<Longrightarrow> I t \<Longrightarrow>
      polled (s\<lparr>log_server := snd (expect_all xs (log_server s) (ConnectionState (client s)))\<rparr>) t \<Longrightarrow>
      passes Q srt resolve pend q0 thr ops t"
  shows "passes Q srt resolve pend q0 thr (xs @ ops) s"
proof -
  have "passes Q srt resolve pend q0 thr (map Expect (map expectation xs) @ ops) s"
    by (rule passes_expects [OF assms(1,2) _ _ assms(5-7)])
      (use assms(3,4,8) in \<open>simp_all add: expectations_def expect_all_def\<close>)
  then show ?thesis using assms(3) unfolding expectations_def by metis
qed

lemma passes_quiet_expectations:
  assumes "quiet s" and "expectations xs" and "fst (expect_all xs (log_server s) (ConnectionState (client s)))"
    and "\<And>u. quiet u \<Longrightarrow> u = s\<lparr>log_server := snd (expect_all xs (log_server s) (ConnectionState (client s)))\<rparr> \<Longrightarrow>
      passes Q srt resolve pend q0 thr ops u"
  shows "passes Q srt resolve pend q0 thr (xs @ ops) s"
proof -
  have "passes Q srt resolve pend q0 thr (map Expect (map expectation xs) @ ops) s"
    by (rule passes_quiet [OF assms(1)]) (use assms(2,3,4) in \<open>simp_all add: expectations_def expect_all_def\<close>)
  then show ?thesis using assms(2) unfolding expectations_def by metis
qed

lemma passes_Sleep:
  assumes "\<And>t. (net_step Q srt resolve)\<^sup>*\<^sup>* s t \<Longrightarrow> settled pend t \<Longrightarrow> passes Q srt resolve pend q0 thr ops t"
  shows "passes Q srt resolve pend q0 thr (Sleep # ops) s"
  using assms by simp

end
