(* ===== verification/Network_Far.thy ===== *)
theory Network_Far
  imports Network_Test
begin

text \<open>
  Tests whose client cannot reach the server: the host is unknown, the port is wrong, or nothing
  listens. The client never leaves the states in which it looks for an endpoint, and its queue
  keeps what it is given.
\<close>

section \<open>A client that cannot reach the server\<close>

text \<open>No endpoint that the client knows is one where the server accepts connections (\<open>b\<close>: it does accept).\<close>

definition far_ep :: "bool \<Rightarrow> endpoint \<Rightarrow> bool" where
  "far_ep b ep \<longleftrightarrow> \<not> (b \<and> test_endpoint ep)"

definition far_query :: "bool \<Rightarrow> QueryResult \<Rightarrow> bool" where
  "far_query b r \<longleftrightarrow> list_all (far_ep b) (EndpointList r)"

fun far_op :: "bool \<Rightarrow> async_op \<Rightarrow> bool" where
  "far_op b (Async_connect ep r) = (far_ep b ep \<and> far_query b r)"
| "far_op b op = (op = Async_resolve \<or> op = Async_wait)"

fun far_done :: "bool \<Rightarrow> completion \<Rightarrow> bool" where
  "far_done b (Resolved Err eps) = list_all (far_ep b) eps"
| "far_done b (Connected Err r) = (Err \<and> far_query b r)"
| "far_done b c = (c = Waited)"

definition far_client :: "bool \<Rightarrow> resolver \<Rightarrow> 'q \<Rightarrow> (nat \<Rightarrow> promise_state) \<Rightarrow> 'q impl \<Rightarrow> bool" where
  "far_client b resolve q ps c \<longleftrightarrow> list_all (far_op b) (Inflight c) \<and> list_all (far_done b) (Ready c)
     \<and> far_done b (lookup_result resolve c) \<and> ConnectionState c \<noteq> SEND_LOOP
     \<and> LogMessages c = q \<and> Promises c = ps"

definition no_contact :: "resolver \<Rightarrow> server \<Rightarrow> 'q \<Rightarrow> (nat \<Rightarrow> promise_state) \<Rightarrow> 'q network \<Rightarrow> bool" where
  "no_contact resolve v q ps s \<longleftrightarrow> far_client (AcceptorOpen v) resolve q ps (client s) \<and> log_server s = v \<and> unaccepted s = []
     \<and> Reading v = [] \<and> CloseRequests v = 0"

lemma far_members:
  "far_client b resolve q ps c \<Longrightarrow> LogMessages d = LogMessages c \<Longrightarrow> Promises d = Promises c \<Longrightarrow> HostAddress d = HostAddress c \<Longrightarrow> HostPort d = HostPort c \<Longrightarrow>
     list_all (far_op b) (Inflight d) \<Longrightarrow> list_all (far_done b) (Ready d) \<Longrightarrow> ConnectionState d \<noteq> SEND_LOOP \<Longrightarrow> far_client b resolve q ps d"
  using lookup_members [of d c resolve] by (simp add: far_client_def)

lemma handler_queue:
  "LogMessages (close_socket c) = LogMessages c" "Promises (close_socket c) = Promises c"
  "LogMessages (reConnect d c) = LogMessages c" "Promises (reConnect d c) = Promises c"
  "LogMessages (tryConnect r c) = LogMessages c" "Promises (tryConnect r c) = Promises c"
  "LogMessages (doAddressQuery c) = LogMessages c" "Promises (doAddressQuery c) = Promises c"
  "LogMessages (start_op op c) = LogMessages c" "Promises (start_op op c) = Promises c"
  "LogMessages (setState st c) = LogMessages c" "Promises (setState st c) = Promises c"
  by (simp_all add: close_socket_def reConnect_def expires_after_def cancel_ops_def setState_def start_op_def
      tryConnect_def async_connect_def doAddressQuery_def split: prod.splits)

lemma far_next: "far_query b r \<Longrightarrow> far_ep b (fst (getNextEndpoint r)) \<and> far_query b (snd (getNextEndpoint r))"
proof -
  assume far: "far_query b r"
  have "far_ep b endpoint_default" by (simp add: far_ep_def test_endpoint_def testPort_def endpoint_default_def)
  moreover have "far_ep b (EndpointList r ! n)" if "n < length (EndpointList r)" for n
    using far that by (simp add: far_query_def list_all_iff)
  moreover have "EndpointList (snd (getNextEndpoint r)) = EndpointList r" by (simp add: getNextEndpoint_def)
  ultimately show ?thesis using far by (simp add: far_query_def getNextEndpoint_def)
qed

lemma far_make:
  assumes "is_std_sort srt" and "list_all (far_ep b) eps"
  shows "far_query b (make_QueryResult srt eps)"
proof -
  have "set (srt eps) = set eps" using assms(1) by (auto simp: is_std_sort_def dest: mset_eq_setD)
  with assms(2) show ?thesis by (simp add: far_query_def make_QueryResult_def copy_endpoints_append list_all_iff)
qed

lemma far_close:
  assumes "far_client b resolve q ps c"
  shows "far_client b resolve q ps (close_socket c)"
proof (rule far_members [OF assms])
  have "far_done b (aborted op)" if "far_op b op" "on_socket op" for op
    using that by (cases op) simp_all
  with assms show "list_all (far_done b) (Ready (close_socket c))"
    by (auto simp: far_client_def handler_ops list_all_iff)
qed (use assms in \<open>auto simp: far_client_def handler_ops handler_members handler_queue list_all_iff conn_simps\<close>)

lemma far_try:
  assumes "far_client b resolve q ps c" and "far_query b r"
  shows "far_client b resolve q ps (tryConnect r c)"
  by (rule far_members [OF assms(1)])
    (use assms far_next [OF assms(2)] in \<open>auto simp: far_client_def handler_ops handler_members handler_queue conn_simps\<close>)

lemma far_reconnect:
  assumes "far_client b resolve q ps c"
  shows "far_client b resolve q ps (reConnect d c)"
  by (rule far_members [OF assms])
    (use assms in \<open>auto simp: far_client_def handler_ops handler_members handler_queue list_all_iff conn_simps\<close>)

lemma far_handler:
  assumes "far_client b resolve q ps c" and "Ready c = e # cs" and "is_std_sort srt"
  shows "far_client b resolve q ps (run_handler Q srt e n (c\<lparr>Ready := cs\<rparr>))"
proof -
  have e: "far_done b e" using assms(1,2) by (simp add: far_client_def)
  have c: "far_client b resolve q ps (c\<lparr>Ready := cs\<rparr>)"
    by (rule far_members [OF assms(1)]) (use assms(1,2) in \<open>simp_all add: far_client_def\<close>)
  have s: "far_client b resolve q ps (setState ADDR_RETRY_WAIT (c\<lparr>Ready := cs\<rparr>))"
    by (rule far_members [OF c]) (use c in \<open>simp_all add: far_client_def handler_ops handler_members handler_queue conn_simps\<close>)
  show ?thesis
  proof (cases e)
    case (Resolved Err eps)
    with e show ?thesis by (auto simp: resolverHandler_def intro!: far_try [OF c] far_make [OF assms(3)] far_reconnect [OF s])
  next
    case (Connected Err r)
    with e show ?thesis
      by (auto simp: connectHandler_def Let_def intro!: far_try far_reconnect far_close [OF c])
  next
    case Waited
    show ?thesis unfolding Waited run_handler.simps
      by (rule far_members [OF c]) (use c in \<open>simp_all add: far_client_def handler_ops handler_members handler_queue conn_simps\<close>)
  qed (use e in simp_all)
qed

lemma far_complete:
  assumes "far_client b resolve q ps c" and "Inflight c = us @ op # vs" and "far_done b e"
  shows "far_client b resolve q ps (c\<lparr>Inflight := us @ vs, Ready := Ready c @ [e]\<rparr>)"
  by (rule far_members [OF assms(1)]) (use assms in \<open>simp_all add: far_client_def\<close>)

lemma no_contact_step:
  assumes "no_contact resolve v q ps s" and "net_step Q srt resolve s t" and "is_std_sort srt"
  shows "no_contact resolve v q ps t"
proof -
  have far: "far_client (AcceptorOpen v) resolve q ps (client s)" using assms(1) by (simp add: no_contact_def)
  have op: "far_op (AcceptorOpen v) op" if "op \<in> set (Inflight (client s))" for op
    using far that by (simp add: far_client_def list_all_iff)
  from assms(2) show ?thesis
  proof (cases rule: net_step.cases)
    case (resolved us vs)
    have "far_done (AcceptorOpen v) (lookup_result resolve (client s))" using far by (simp add: far_client_def)
    with assms(1) far_complete [OF far resolved(2)] resolved(1) show ?thesis by (simp add: no_contact_def)
  next
    case (established us ep r vs)
    with op [of "Async_connect ep r"] assms(1) show ?thesis
      by (simp add: listens_def far_ep_def test_endpoint_def no_contact_def)
  next
    case (refused us ep r vs)
    with op [of "Async_connect ep r"] assms(1) far_complete [OF far refused(2)] show ?thesis by (simp add: no_contact_def)
  next
    case (timer us vs)
    with assms(1) far_complete [OF far timer(2)] show ?thesis by (simp add: no_contact_def)
  next
    case (peer_lost us vs i)
    with op [of Async_receive] show ?thesis by simp
  next
    case (write_some data i m)
    with op [of "Async_write data"] show ?thesis by simp
  next
    case (write_done us data vs)
    with op [of "Async_write data"] show ?thesis by simp
  next
    case (write_failed us data vs i)
    with op [of "Async_write data"] show ?thesis by simp
  next
    case (handler c cs)
    with assms(1) far_handler [OF far handler(2) assms(3), of Q] show ?thesis
      by (simp add: no_contact_def client_runs_def Let_def)
  qed (use assms(1) in \<open>simp_all add: no_contact_def\<close>)
qed

lemma no_contact_steps:
  "(net_step Q srt resolve)\<^sup>*\<^sup>* s t \<Longrightarrow> no_contact resolve v q ps s \<Longrightarrow> is_std_sort srt \<Longrightarrow> no_contact resolve v q ps t"
  by (rule steps_inv) (auto intro: no_contact_step)

text \<open>
  A test in such a network computes: the server, the queue and the promises change only by what
  the test does.
\<close>

fun far_pass ::
  "'q bounded_queue_ops \<Rightarrow> nat \<Rightarrow> net_op list \<Rightarrow> server \<Rightarrow> 'q \<Rightarrow> (nat \<Rightarrow> promise_state) \<Rightarrow> bool" where
  "far_pass Q thr [] v q ps = True"
| "far_pass Q thr (Send m # ops) v q ps = far_pass Q thr ops v (snd (b_try_enqueue Q thr (MsgFunc m) q)) ps"
| "far_pass Q thr (Start_flush p # ops) v q ps =
     (let (ok, q') = b_try_enqueue Q thr (FlushFunc p) q
      in far_pass Q thr ops v q' (if ok then ps else ps(p := drop_promise (ps p))))"
| "far_pass Q thr (Sleep # ops) v q ps = far_pass Q thr ops v q ps"
| "far_pass Q thr (Expect P # ops) v q ps =
     (keeps_sockets P \<and> (\<forall>st. st \<noteq> SEND_LOOP \<longrightarrow> P v st = (True, snd (P v CONNECT)))
      \<and> far_pass Q thr ops (snd (P v CONNECT)) q ps)"
| "far_pass Q thr (Queue_size P # ops) v q ps = (P (b_size_approx Q q) \<and> far_pass Q thr ops v q ps)"
| "far_pass Q thr (Flush_returns p r # ops) v q ps = (future_ready (ps p) = r \<and> far_pass Q thr ops v q ps)"
| "far_pass Q thr (op # ops) v q ps = False"

lemma no_contact_client:
  assumes "no_contact resolve v q ps s" and "log_server t = log_server s" and "unaccepted t = unaccepted s"
    and "Inflight (client t) = Inflight (client s)" and "Ready (client t) = Ready (client s)"
    and "HostAddress (client t) = HostAddress (client s)" and "HostPort (client t) = HostPort (client s)"
    and "ConnectionState (client t) = ConnectionState (client s)"
    and "LogMessages (client t) = q'" and "Promises (client t) = ps'"
  shows "no_contact resolve v q' ps' t"
  using assms by (simp add: no_contact_def far_client_def lookup_result_def)

lemma no_contact_server:
  assumes "no_contact resolve v q ps s" and "t = s\<lparr>log_server := w\<rparr>" and "Reading w = Reading v"
    and "CloseRequests w = CloseRequests v" and "AcceptorOpen w = AcceptorOpen v"
  shows "no_contact resolve w q ps t"
  using assms by (simp add: no_contact_def)

lemma passes_far:
  assumes "far_pass Q thr ops v q ps" and "no_contact resolve v q ps s" and "is_std_sort srt"
    and "\<And>t. passes Q srt resolve pend q0 thr rest t"
  shows "passes Q srt resolve pend q0 thr (ops @ rest) s"
  using assms(1,2)
proof (induction ops arbitrary: v q ps s)
  case Nil
  then show ?case using assms(4) by simp
next
  case (Cons op ops)
  have run: "passes Q srt resolve pend q0 thr (op # ops @ rest) s"
    if act: "\<And>t. no_contact resolve v q ps t \<Longrightarrow> \<exists>w r qs. fst (act_on Q q0 thr op t)
      \<and> no_contact resolve w r qs (snd (act_on Q q0 thr op t)) \<and> far_pass Q thr ops w r qs"
  proof (rule passes_Cons)
    fix t assume st: "(net_step Q srt resolve)\<^sup>*\<^sup>* s t"
    note t = no_contact_steps [OF this Cons.prems(2) assms(3)]
    obtain w r qs where u: "fst (act_on Q q0 thr op t)" "no_contact resolve w r qs (snd (act_on Q q0 thr op t))"
      "far_pass Q thr ops w r qs" using act [OF t] by blast
    from Cons.IH [OF u(3,2)] have p: "passes Q srt resolve pend q0 thr (ops @ rest) (snd (act_on Q q0 thr op t))" .
    with u(1) show "fst (act_on Q q0 thr op t) \<and> passes Q srt resolve pend q0 thr (ops @ rest) (snd (act_on Q q0 thr op t))"
      by blast
  qed
  show ?case
    unfolding append_Cons
  proof (rule run)
    fix t assume t: "no_contact resolve v q ps t"
    then have st: "log_server t = v" "ConnectionState (client t) \<noteq> SEND_LOOP" "LogMessages (client t) = q"
      "Promises (client t) = ps"
      by (simp_all add: no_contact_def far_client_def)
    show "\<exists>w r qs. fst (act_on Q q0 thr op t) \<and> no_contact resolve w r qs (snd (act_on Q q0 thr op t))
      \<and> far_pass Q thr ops w r qs"
    proof (cases op)
      case (Send m)
      have "no_contact resolve v (snd (b_try_enqueue Q thr (MsgFunc m) q)) ps (snd (act_on Q q0 thr op t))"
        unfolding Send by (rule no_contact_client [OF t]) (simp_all add: sendMessage_def st)
      with Cons.prems(1) Send show ?thesis by auto
    next
      case (Start_flush p)
      obtain ok q' where e: "b_try_enqueue Q thr (FlushFunc p) q = (ok, q')" by fastforce
      have "no_contact resolve v q' (if ok then ps else ps(p := drop_promise (ps p))) (snd (act_on Q q0 thr op t))"
        unfolding Start_flush by (rule no_contact_client [OF t]) (cases ok; simp add: flush_start_def st e)+
      with Cons.prems(1) Start_flush e show ?thesis by auto
    next
      case (Expect P)
      obtain ok w where P: "P v (ConnectionState (client t)) = (ok, w)" by fastforce
      have pr: "keeps_sockets P" "ok" "w = snd (P v CONNECT)" "far_pass Q thr ops w q ps"
        using Cons.prems(1) P st(2) unfolding Expect by (simp_all only: far_pass.simps) (metis fst_conv snd_conv)+
      have "same_sockets v w" using keeps_socketsD [of P v "ConnectionState (client t)" ok w] pr(1) P by simp
      then have "no_contact resolve w q ps (snd (act_on Q q0 thr op t))"
        unfolding Expect by (intro no_contact_server [OF t]) (simp_all add: st(1) getConnectionStatus_def P same_sockets_def)
      moreover have "fst (act_on Q q0 thr op t)" using P pr(2) st(1) by (simp add: Expect getConnectionStatus_def)
      ultimately show ?thesis using pr(4) by blast
    next
      case Sleep
      with Cons.prems(1) t show ?thesis by auto
    next
      case (Queue_size P)
      with Cons.prems(1) t st show ?thesis by (auto simp: queueSize_def)
    next
      case (Flush_returns p r)
      with Cons.prems(1) t st show ?thesis by (auto simp: flush_result_def)
    qed (use Cons.prems(1) in simp_all)
  qed
qed

end
