(* ===== verification/Network_Suite.thy ===== *)
theory Network_Suite
  imports Network_Far
begin

text \<open>
  The tests of the Graylog connection pass: those whose client reaches no server by
  \<open>Network_Far\<close>, those with one connection by \<open>Network_Calm\<close>, and the test that closes the
  connections by the invariant of \<open>Network\<close>.
\<close>

section \<open>Tests without a connection\<close>

lemma passes_now:
  assumes "quiet s" and "fst (act_on Q q0 thr op s)"
    and "passes Q srt resolve pend q0 thr ops (snd (act_on Q q0 thr op s))"
  shows "passes Q srt resolve pend q0 thr (op # ops) s"
  by (rule passes_Cons) (use assms(2,3) in \<open>auto dest!: quiet_steps [OF _ assms(1)]\<close>)

lemma fresh_quiet: "Reading v = [] \<Longrightarrow> CloseRequests v = 0 \<Longrightarrow> quiet (fresh_network q0 v)"
  by (simp add: quiet_def fresh_network_def destroy_Impl_def)

lemma passes_end: "(\<And>t. passes Q srt resolve pend q0 thr ops t) \<Longrightarrow> passes Q srt resolve pend q0 thr (Destruct # ops) s"
  by simp

lemma far_test:
  assumes "far_pass Q thr ops v q0 (\<lambda>_. Unset)" and "Reading v = []" and "CloseRequests v = 0"
    and "far_done (AcceptorOpen v) (lookup_result resolve (Impl host port q0))" and "is_std_sort srt"
    and "\<And>t. passes Q srt resolve pend q0 thr rest t"
  shows "passes Q srt resolve pend q0 thr (Construct host port # ops @ rest) (fresh_network q0 v)"
proof (rule passes_now [OF fresh_quiet [OF assms(2,3)]])
  have "no_contact resolve v q0 (\<lambda>_. Unset) (snd (act_on Q q0 thr (Construct host port) (fresh_network q0 v)))"
    using assms(2-4)
    by (simp add: no_contact_def far_client_def fresh_network_def)
      (simp add: Impl_def doAddressQuery_def setState_def start_op_def)
  with assms(1,5,6) show "passes Q srt resolve pend q0 thr (ops @ rest)
      (snd (act_on Q q0 thr (Construct host port) (fresh_network q0 v)))"
    by (intro passes_far)
qed simp_all

lemma lookup_Impl: "lookup_result resolve (Impl host port q0) =
    (case resolve host (show_int port) of None \<Rightarrow> Resolved True [] | Some eps \<Rightarrow> Resolved False eps)"
  by (simp add: lookup_result_def Impl_def doAddressQuery_def setState_def start_op_def)

lemma Impl_fields:
  "Inflight (Impl host port q0) = [Async_resolve]" "Ready (Impl host port q0) = []"
  "ConnectionState (Impl host port q0) = ADDR_LOOKUP" "Sent (Impl host port q0) = []" "MessageBuffer (Impl host port q0) = []"
  by (simp_all add: Impl_def doAddressQuery_def setState_def start_op_def)

lemma far_no_server: "\<not> b \<Longrightarrow> far_done b (lookup_result resolve c)"
  by (simp add: lookup_result_def far_ep_def list_all_iff split: option.split)

lemma keeps_sockets_expectations:
  "connections_are n = Expect P \<Longrightarrow> keeps_sockets P" "latest_message m = Expect P \<Longrightarrow> keeps_sockets P"
  "last_error e = Expect P \<Longrightarrow> keeps_sockets P" "received_bytes k = Expect P \<Longrightarrow> keeps_sockets P"
  "status_is x = Expect P \<Longrightarrow> keeps_sockets P" "status_is_not x = Expect P \<Longrightarrow> keeps_sockets P"
  by (auto simp: expectation_defs keeps_sockets_def same_sockets_def GetLatestMessage_def GetLastSocketError_def)

lemma idle_expectations:
  assumes "idle_server v"
  shows "GetNrOfConnections v = 0" "fst (GetLatestMessage v) = []" "snd (GetLatestMessage v) = v"
    "GetLastSocketError v = (Success, v)"
  using assms
  by (simp_all add: idle_server_def serving_def one_client_def GetNrOfConnections_def GetLatestMessage_def
      GetLastSocketError_def)

lemma silent_far:
  assumes "idle_server v"
  shows "far_pass Q thr (Sleep # server_silent 0 @ [status_is_not SEND_LOOP]) v q ps"
  using idle_expectations [OF assms] keeps_sockets_expectations
  by (auto simp: server_silent_def expectation_defs keeps_sockets_def same_sockets_def case_prod_beta GetLatestMessage_def
      GetLastSocketError_def)

lemma UnknownHost_passes:
  assumes "idle_server v" and "resolver_law resolve" and "is_std_sort srt"
  shows "passes Q srt resolve pend q0 thr UnknownHostTest (fresh_network q0 v)"
  using far_test [OF silent_far [OF assms(1)] _ _ _ assms(3) passes_end [OF TearDown_passes], where resolve = resolve and host = "''no_host''" and port = testPort and ?q0.0 = q0]
    assms(1,2)
  by (simp add: UnknownHostTest_def idle_server_def resolver_law_def lookup_Impl)

lemma WrongPort_passes:
  assumes "idle_server v" and "resolver_law resolve" and "is_std_sort srt"
  shows "passes Q srt resolve pend q0 thr WrongPortTest (fresh_network q0 v)"
proof -
  obtain eps where "resolve ''localhost'' (show_int (testPort + 1)) = Some eps"
    "list_all (\<lambda>ep. int (ep_port ep) = testPort + 1) eps"
    using assms(2) unfolding resolver_law_def by blast
  then have "far_done (AcceptorOpen v) (lookup_result resolve (Impl ''localhost'' (testPort + 1) q0))"
    by (simp add: lookup_Impl far_ep_def test_endpoint_def list_all_iff)
  with far_test [OF silent_far [OF assms(1)] _ _ this assms(3) passes_end [OF TearDown_passes]] assms(1) show ?thesis
    by (simp add: WrongPortTest_def idle_server_def)
qed

text \<open>The queue, used by one thread: it has enqueued \<open>u\<close> closures, and \<open>fs\<close> are still there.\<close>

definition held_by :: "('q \<Rightarrow> nat \<Rightarrow> queued list) \<Rightarrow> ('q \<Rightarrow> nat \<Rightarrow> nat) \<Rightarrow> nat \<Rightarrow> 'q \<Rightarrow> queued list \<Rightarrow> nat \<Rightarrow> bool" where
  "held_by pend used thr q fs u \<longleftrightarrow> pend q = (\<lambda>_. [])(thr := fs) \<and> used q = (\<lambda>_. 0)(thr := u)"

lemma enqueue_room:
  assumes "bounded_contract Q pend" and "queue_law Q pend used n" and "held_by pend used thr q fs u"
  shows "b_size_approx Q q = length fs"
    and "u < n \<Longrightarrow> \<exists>q'. b_try_enqueue Q thr f q = (True, q') \<and> held_by pend used thr q' (fs @ [f]) (Suc u)"
    and "slots n \<le> length fs \<Longrightarrow> held_by pend used thr (snd (b_try_enqueue Q thr f q)) fs u"
    and "held_by pend used thr (snd (b_try_enqueue Q thr f q)) (fs @ [f]) (Suc u)
      \<or> held_by pend used thr (snd (b_try_enqueue Q thr f q)) fs u"
proof -
  have q: "pend q = (\<lambda>_. [])(thr := fs)" "used q = (\<lambda>_. 0)(thr := u)" using assms(3) by (simp_all add: held_by_def)
  have "\<forall>p'. p' \<noteq> thr \<longrightarrow> used q p' = 0" using q(2) by simp
  with assms(2) have law: "b_size_approx Q q = length (pend q thr)" "used q thr < n \<Longrightarrow> fst (b_try_enqueue Q thr f q)"
    "slots n \<le> length (pend q thr) \<Longrightarrow> \<not> fst (b_try_enqueue Q thr f q)"
    unfolding queue_law_def by blast+
  obtain ok q' where e: "b_try_enqueue Q thr f q = (ok, q')" by fastforce
  have "pend q' = (if ok then (pend q)(thr := pend q thr @ [f]) else pend q)"
    using assms(1) e unfolding bounded_contract_def by (cases ok) auto
  moreover have "used q' = (if ok then (used q)(thr := Suc (used q thr)) else used q)"
    using assms(2) e unfolding queue_law_def by (cases ok) auto
  ultimately have q': "held_by pend used thr q' (if ok then fs @ [f] else fs) (if ok then Suc u else u)"
    using q by (simp add: held_by_def)
  show "b_size_approx Q q = length fs" using law(1) q by simp
  show "\<exists>q'. b_try_enqueue Q thr f q = (True, q') \<and> held_by pend used thr q' (fs @ [f]) (Suc u)" if "u < n"
    using law(2) that e q' q(2) by auto
  show "held_by pend used thr (snd (b_try_enqueue Q thr f q)) fs u" if "slots n \<le> length fs"
    using law(3) that e q' q(1) by auto
  show "held_by pend used thr (snd (b_try_enqueue Q thr f q)) (fs @ [f]) (Suc u)
      \<or> held_by pend used thr (snd (b_try_enqueue Q thr f q)) fs u"
    using e q' by (cases ok) simp_all
qed

text \<open>Sends that nobody consumes: the first \<open>n\<close> are kept, and never more than there are slots.\<close>

lemma far_sends:
  assumes "bounded_contract Q pend" and "queue_law Q pend used n" and "held_by pend used thr q fs (length fs)"
    and "length fs \<le> slots n"
    and "\<And>q' gs. held_by pend used thr q' gs (length gs) \<Longrightarrow> length gs \<le> slots n
      \<Longrightarrow> length fs + k \<le> length gs \<or> n \<le> length gs \<Longrightarrow> length gs \<le> length fs + k \<Longrightarrow> far_pass Q thr ops v q' ps"
  shows "far_pass Q thr (replicate k (Send m) @ ops) v q ps"
  using assms(3,4,5)
proof (induction k arbitrary: q fs)
  case 0
  then show ?case by simp
next
  case (Suc k)
  note room = enqueue_room [OF assms(1,2) Suc.prems(1)]
  obtain gs where gs: "held_by pend used thr (snd (b_try_enqueue Q thr (MsgFunc m) q)) gs (length gs)"
    "gs = fs @ [MsgFunc m] \<and> length fs < slots n \<or> gs = fs \<and> n \<le> length fs"
  proof (cases "length fs < n")
    case True
    then have "length fs < slots n" by (simp add: slots_def)
    with True room(2) [of "MsgFunc m"] that [of "fs @ [MsgFunc m]"] show ?thesis by auto
  next
    case False
    with room(3,4) [of "MsgFunc m"] that [of fs] that [of "fs @ [MsgFunc m]"] show ?thesis by (cases "length fs < slots n") auto
  qed
  have "far_pass Q thr (replicate k (Send m) @ ops) v (snd (b_try_enqueue Q thr (MsgFunc m) q)) ps"
    by (rule Suc.IH [OF gs(1)]) (use gs(2) Suc.prems(2,3) in auto)
  then show ?case by simp
qed

text \<open>Handlers take from the queue and do not enqueue.\<close>

lemma used_send:
  assumes "queue_law Q pend used n"
  shows "used (LogMessages (trySendMessage Q c)) = used (LogMessages c)"
proof -
  have deq: "used q' = used q" if "b_wait_dequeue_timed Q q = (r, q')" for q r q'
    using assms that unfolding queue_law_def by blast
  show ?thesis
  proof (cases "SocketOpen c \<and> length (MessageBuffer c) \<le> MessageAdditionLimit")
    case False
    then show ?thesis by (auto simp: trySendMessage_def async_write_def handler_queue)
  next
    case True
    obtain r q where rq: "b_wait_dequeue_timed Q (LogMessages c) = (r, q)" by fastforce
    show ?thesis
    proof (cases r)
      case None
      with True rq deq [OF rq] show ?thesis by (auto simp: trySendMessage_def async_write_def post_def handler_queue)
    next
      case (Some f)
      obtain m d where d: "call_queued f (c\<lparr>LogMessages := q\<rparr>) = (m, d)" by fastforce
      then have "LogMessages d = q" by (cases f) (auto simp: set_value_def)
      with True Some rq d deq [OF rq] show ?thesis
        by (auto simp: trySendMessage_def async_write_def post_def handler_queue)
    qed
  qed
qed

lemma used_handler:
  assumes "queue_law Q pend used n"
  shows "used (LogMessages (run_handler Q srt e k c)) = used (LogMessages c)"
  using used_send [OF assms]
  by (cases e) (auto simp: resolverHandler_def connectHandler_def receiveHandler_def sentMessageHandler_def Let_def handler_queue)

lemma used_step:
  assumes "net_step Q srt resolve s t" and "queue_law Q pend used n"
  shows "used (LogMessages (client t)) = used (LogMessages (client s))"
  using assms(1) by (cases rule: net_step.cases) (simp_all add: client_runs_def Let_def used_handler [OF assms(2)])

lemma used_steps:
  assumes "(net_step Q srt resolve)\<^sup>*\<^sup>* s t" and "queue_law Q pend used n"
  shows "used (LogMessages (client t)) = used (LogMessages (client s))"
  using assms(1) by (induction rule: rtranclp_induct) (simp_all add: used_step [OF _ assms(2)])

lemma queue_test:
  assumes "far_pass Q thr ops v q0 (\<lambda>_. Unset)" and "no_server v" and "is_std_sort srt"
  shows "passes Q srt resolve pend q0 thr (Construct host port # ops @ [Destruct]) (fresh_network q0 v)"
  using assms by (intro far_test far_no_server) (simp_all add: no_server_def)

lemma queue_tests_pass:
  fixes q0 :: "nat \<Rightarrow> 'q"
  assumes "\<And>n. bounded_contract (Q n) pend" and "\<And>n. queue_law (Q n) pend used n" and "\<And>n. pend (q0 n) = (\<lambda>_. [])"
    and "\<And>n. used (q0 n) = (\<lambda>_. 0)" and "no_server v" and "is_std_sort srt"
  shows "passes (Q 100) srt resolve pend (q0 100) thr (TestQueueSize json) (fresh_network (q0 100) v)"
    and "passes (Q 64) srt resolve pend (q0 64) thr (TestQueueSizeLimit json) (fresh_network (q0 64) v)"
    and "passes (Q 50) srt resolve pend (q0 50) thr (QueueLength_GraylogInterfaceTest json) (fresh_network (q0 50) v)"
    and "passes (Q 10) srt resolve pend (q0 10) thr OnInitialisationQueueEmpty (fresh_network (q0 10) v)"
    and "passes (Q 10) srt resolve pend (q0 10) thr QueueSizeOneIsNotEmpty (fresh_network (q0 10) v)"
    and "passes (Q 10) srt resolve pend (q0 10) thr FlushFail (fresh_network (q0 10) v)"
proof -
  note room = enqueue_room [OF assms(1,2)]
  have q0: "held_by pend used thr (q0 n) [] 0" for n using assms(3,4) by (simp add: held_by_def fun_eq_iff)
  then have q0': "held_by pend used thr (q0 n) [] (length [])" for n by simp
  have "far_pass (Q 100) thr [Send json, Queue_size (\<lambda>n. n = 1)] v (q0 100) (\<lambda>_. Unset)"
  proof -
    obtain q1 where "b_try_enqueue (Q 100) thr (MsgFunc json) (q0 100) = (True, q1)" "held_by pend used thr q1 [MsgFunc json] 1"
      using room(2) [OF q0, of 100 "MsgFunc json"] by auto
    with room(1) [of thr q1 "[MsgFunc json]" 1 100] show ?thesis by simp
  qed
  from queue_test [OF this assms(5,6)]
  show "passes (Q 100) srt resolve pend (q0 100) thr (TestQueueSize json) (fresh_network (q0 100) v)"
    by (simp add: TestQueueSize_def)
  have "far_pass (Q 64) thr (replicate (64 * 4) (Send json) @ [Queue_size (\<lambda>n. 64 - 20 \<le> n \<and> n \<le> 64 + 20)]) v (q0 64) (\<lambda>_. Unset)"
    by (rule far_sends [OF assms(1,2) q0']) (use room(1) in \<open>auto simp: slots_def\<close>)
  from queue_test [OF this assms(5,6)]
  show "passes (Q 64) srt resolve pend (q0 64) thr (TestQueueSizeLimit json) (fresh_network (q0 64) v)"
    by (simp add: TestQueueSizeLimit_def)
  have "far_pass (Q 50) thr (replicate 50 (Send json) @ [Queue_size (\<lambda>n. n = 50)]) v (q0 50) (\<lambda>_. Unset)"
    by (rule far_sends [OF assms(1,2) q0']) (use room(1) in \<open>auto simp: slots_def\<close>)
  from queue_test [OF this assms(5,6)]
  show "passes (Q 50) srt resolve pend (q0 50) thr (QueueLength_GraylogInterfaceTest json) (fresh_network (q0 50) v)"
    by (simp add: QueueLength_GraylogInterfaceTest_def)
  have "far_pass (Q 10) thr [Queue_size (\<lambda>n. n = 0), Queue_size (\<lambda>n. n = 0)] v (q0 10) (\<lambda>_. Unset)"
    using room(1) [OF q0, of 10] by simp
  from queue_test [OF this assms(5,6)]
  show "passes (Q 10) srt resolve pend (q0 10) thr OnInitialisationQueueEmpty (fresh_network (q0 10) v)"
    by (simp add: OnInitialisationQueueEmpty_def)
  obtain q1 where q1: "b_try_enqueue (Q 10) thr (MsgFunc ''tst_msg'') (q0 10) = (True, q1)"
    "held_by pend used thr q1 [MsgFunc ''tst_msg''] 1"
    using room(2) [OF q0, of 10 "MsgFunc ''tst_msg''"] by auto
  obtain q2 where q2: "b_try_enqueue (Q 10) thr (MsgFunc ''tst_msg'') q1 = (True, q2)"
    "held_by pend used thr q2 [MsgFunc ''tst_msg'', MsgFunc ''tst_msg''] (Suc 1)"
    using room(2) [OF q1(2), of 10 "MsgFunc ''tst_msg''"] by auto
  have "far_pass (Q 10) thr [Send ''tst_msg'', Send ''tst_msg'', Queue_size (\<lambda>n. n \<ge> 1), Queue_size (\<lambda>n. n \<le> 2),
      Queue_size (\<lambda>n. n \<noteq> 0)] v (q0 10) (\<lambda>_. Unset)"
    using q1 q2 room(1) [OF q2(2), of 10] by simp
  from queue_test [OF this assms(5,6)]
  show "passes (Q 10) srt resolve pend (q0 10) thr QueueSizeOneIsNotEmpty (fresh_network (q0 10) v)"
    by (simp add: QueueSizeOneIsNotEmpty_def)
  obtain q3 where "b_try_enqueue (Q 10) thr (FlushFunc 0) q1 = (True, q3)"
    using room(2) [OF q1(2), of 10 "FlushFunc 0"] by auto
  with q1 have "far_pass (Q 10) thr [Send ''tst_msg'', Start_flush 0, Flush_returns 0 False] v (q0 10) (\<lambda>_. Unset)"
    by simp
  from queue_test [OF this assms(5,6)]
  show "passes (Q 10) srt resolve pend (q0 10) thr FlushFail (fresh_network (q0 10) v)"
    by (simp add: FlushFail_def)
qed

section \<open>Tests with one connection\<close>

definition calm_run ::
  "'q bounded_queue_ops \<Rightarrow> (endpoint list \<Rightarrow> endpoint list) \<Rightarrow> resolver \<Rightarrow> 'q impl \<Rightarrow> server \<Rightarrow> 'q network \<Rightarrow> bool" where
  "calm_run Q srt resolve c0 v0 s \<longleftrightarrow> conn_ok resolve s \<and> calm_client s \<and> calm_server v0 s
     \<and> conn_run Q srt True c0 (history s) (client s)"

lemma net_step_history: "net_step Q srt resolve s t \<Longrightarrow> history t = history s"
  by (induction rule: net_step.induct) simp_all

lemma calm_run_step:
  assumes "net_step Q srt resolve s t" and "calm_run Q srt resolve c0 v0 s" and "is_std_sort srt"
  shows "calm_run Q srt resolve c0 v0 t"
proof -
  have s: "conn_ok resolve s" "calm_client s" "calm_server v0 s" "client_ok s" "linked s"
    "conn_run Q srt True c0 (history s) (client s)"
    using assms(2) by (simp_all add: calm_run_def conn_ok_def)
  have "conn_run Q srt True c0 (history s) (client t)"
    using net_step_client [OF assms(1) s(4)] run_io [OF s(6)] s(6) by auto
  with net_step_conn_ok [OF assms(1) s(1) assms(3)] net_step_calm_client [OF assms(1) s(2,3,1)]
    net_step_calm_server [OF assms(1) s(3,2,5)] net_step_history [OF assms(1)] show ?thesis
    by (simp add: calm_run_def)
qed

lemma calm_run_steps:
  assumes "(net_step Q srt resolve)\<^sup>*\<^sup>* s t" and "calm_run Q srt resolve c0 v0 s" and "is_std_sort srt"
  shows "calm_run Q srt resolve c0 v0 t \<and> history t = history s"
  using assms(1)
proof (induction rule: rtranclp_induct)
  case base
  with assms(2) show ?case by simp
next
  case (step t u)
  with calm_run_step [OF step.hyps(2) _ assms(3)] net_step_history [OF step.hyps(2)] show ?case by auto
qed

text \<open>The client of a test, on the server of the fixture.\<close>

definition reachable_host :: "resolver \<Rightarrow> string \<Rightarrow> bool" where
  "reachable_host resolve host \<longleftrightarrow>
     (\<exists>eps. resolve host (show_int testPort) = Some eps \<and> eps \<noteq> [] \<and> list_all test_endpoint eps)"

lemma law_reachable: "resolver_law resolve \<Longrightarrow> host \<in> {''localhost'', ''::1''} \<Longrightarrow> reachable_host resolve host"
  unfolding resolver_law_def reachable_host_def test_endpoint_def by blast

lemma Impl_client_ok:
  assumes "client s = Impl host port q0" and "written s = 0"
  shows "client_ok s"
proof -
  have "constructed (client s)" using assms(1) by (auto simp: constructed_def)
  moreover have "live_inv (client s)" unfolding assms(1) by (simp add: Impl_def live_inv_def conn_simps)
  ultimately show ?thesis using assms by (simp add: client_ok_def constructed_control constructed_chain written_ok_def Impl_fields)
qed

lemma fresh_test:
  fixes q0 :: 'q
  assumes "idle_server v" and "reachable_host resolve host"
  shows "calm_run Q srt resolve (Impl host testPort q0) v (snd (act_on Q q0 thr (Construct host testPort) (fresh_network q0 v)))"
proof -
  define s where "s = snd (act_on Q q0 thr (Construct host testPort) (fresh_network q0 v))"
  have c: "client s = Impl host testPort q0" "log_server s = v" "unaccepted s = []" "peer s = (\<lambda>_. None)"
    "next_conn s = 0" "client_conn s = None" "written s = 0" "history s = []" "delivered s = []" "wire s = (\<lambda>_. [])"
    by (simp_all add: s_def fresh_network_def)
  have v: "serving v" "\<forall>k \<in> set (Accepting v). k < NextSocket v \<and> k \<notin> set (Closed v)" "Reading v = []"
    "CloseRequests v = 0" "socketError v = Success"
    using assms(1) by (simp_all add: idle_server_def)
  have "linked s" by (rule linkedI) (use v(2) in \<open>simp_all add: c\<close>)
  moreover have "reaching resolve s"
    using assms(2) by (auto simp: reaching_def reaching_client_def c(1) Impl_fields lookup_Impl reachable_host_def)
  ultimately have "conn_ok resolve s"
    using v(1) Impl_client_ok [OF c(1,7)] by (simp add: conn_ok_def c(2))
  moreover have "calm_client s" by (simp add: calm_client_def c Impl_fields unconnected_def sends_def)
  moreover have "calm_server v s" using v by (simp add: calm_server_def c parsed_def server_closed_iff)
  moreover have "conn_run Q srt True (Impl host testPort q0) (history s) (client s)"
    by (simp only: c run_start)
  ultimately show ?thesis unfolding s_def [symmetric] by (simp add: calm_run_def)
qed

text \<open>Sending: the client's thread is the only producer, and the queue has room.\<close>

definition sent_by :: "nat \<Rightarrow> string list \<Rightarrow> (nat \<times> queued) list" where
  "sent_by thr ms = map (\<lambda>m. (thr, MsgFunc m)) ms"

lemma of_producer_sent_by: "of_producer p (sent_by thr ms) = (if p = thr then map MsgFunc ms else [])"
  unfolding sent_by_def by (induction ms) auto

lemma calm_cong:
  assumes "calm_run Q srt resolve c0 v0 s" and "t = s\<lparr>client := (client s)\<lparr>LogMessages := q\<rparr>, history := h\<rparr>"
    and "conn_run Q srt True c0 h (client t)"
  shows "calm_run Q srt resolve c0 v0 t"
proof -
  have c: "control_inv (client t) = control_inv (client s)" "chain_inv (client t) = chain_inv (client s)"
    "live_inv (client t) = live_inv (client s)" "written_ok t = written_ok s" "linked t = linked s"
    "reaching resolve t = reaching resolve s" "calm_client t = calm_client s" "calm_server v0 t = calm_server v0 s"
    "log_server t = log_server s" "history t = h"
    unfolding assms(2)
    by (simp_all add: control_inv_def control_def chain_inv_def live_inv_def sends_def written_ok_def writing_def linked_def
        reaching_def reaching_client_def lookup_result_def calm_client_def unconnected_def connected_def calm_server_def
        server_closed_iff)
  show ?thesis using assms(1,3) by (simp add: calm_run_def conn_ok_def client_ok_def c)
qed

lemma passes_calm_sends:
  fixes q0 :: 'q
  assumes "bounded_contract Q pend" and "queue_law Q pend used n" and "pend q0 = (\<lambda>_. [])" and "is_std_sort srt"
    and "calm_run Q srt resolve (Impl host port q0) v0 s" and "history s = sent_by thr sent"
    and "length sent + length ms \<le> n" and "used (LogMessages (client s)) = (\<lambda>_. 0)(thr := length sent)"
    and "\<And>t. calm_run Q srt resolve (Impl host port q0) v0 t \<Longrightarrow> history t = sent_by thr (sent @ ms) \<Longrightarrow>
      passes Q srt resolve pend q0 thr ops t"
  shows "passes Q srt resolve pend q0 thr (map Send ms @ ops) s"
  using assms(5-9)
proof (induction ms arbitrary: s sent)
  case Nil
  then show ?case by simp
next
  case (Cons m ms)
  show ?case
    unfolding list.map append_Cons
  proof (rule passes_Cons)
    fix t assume st: "(net_step Q srt resolve)\<^sup>*\<^sup>* s t"
    with calm_run_steps [OF this Cons.prems(1) assms(4)] Cons.prems(2)
    have t: "calm_run Q srt resolve (Impl host port q0) v0 t" "history t = sent_by thr sent" by simp_all
    then have run: "conn_run Q srt True (Impl host port q0) (sent_by thr sent) (client t)" by (simp add: calm_run_def)
    from run_accounted [OF assms(1,3) run] obtain ts where ts: "accounted pend (sent_by thr sent) ts (client t)" by blast
    let ?fs = "pend (LogMessages (client t)) thr"
    have only: "pend (LogMessages (client t)) p = []" if "p \<noteq> thr" for p
      using accountedD [OF ts, of p] that by (simp add: of_producer_sent_by)
    have "pend (LogMessages (client t)) = (\<lambda>_. [])(thr := ?fs)" using only by auto
    moreover have "used (LogMessages (client t)) = (\<lambda>_. 0)(thr := length sent)"
      by (rule trans [OF used_steps [OF st assms(2)] Cons.prems(4)])
    ultimately have held: "held_by pend used thr (LogMessages (client t)) ?fs (length sent)" by (simp add: held_by_def)
    have "length sent < n" using Cons.prems(3) by simp
    from enqueue_room(2) [OF assms(1,2) held this, of "MsgFunc m"] obtain q where
      q: "b_try_enqueue Q thr (MsgFunc m) (LogMessages (client t)) = (True, q)" "used q = (\<lambda>_. 0)(thr := Suc (length sent))"
      by (auto simp: held_by_def)
    then have e: "enqueued Q thr (MsgFunc m) (client t) = [(thr, MsgFunc m)]" by (simp add: enqueued_def)
    let ?u = "snd (act_on Q q0 thr (Send m) t)"
    have h: "history ?u = sent_by thr (sent @ [m])" using t(2) e by (simp add: sent_by_def)
    have "calm_run Q srt resolve (Impl host port q0) v0 ?u"
    proof (rule calm_cong [OF t(1)])
      show "?u = t\<lparr>client := (client t)\<lparr>LogMessages := snd (b_try_enqueue Q thr (MsgFunc m) (LogMessages (client t)))\<rparr>,
          history := sent_by thr (sent @ [m])\<rparr>"
        using t(2) e by (simp add: sendMessage_def sent_by_def)
      show "conn_run Q srt True (Impl host port q0) (sent_by thr (sent @ [m])) (client ?u)"
        using run_send [OF run, of thr m] e by (simp add: sent_by_def)
    qed
    then have "passes Q srt resolve pend q0 thr (map Send ms @ ops) ?u"
      by (rule Cons.IH [OF _ h]) (use Cons.prems(3,5) q in \<open>simp_all add: sendMessage_def\<close>)
    then show "fst (act_on Q q0 thr (Send m) t) \<and> passes Q srt resolve pend q0 thr (map Send ms @ ops) ?u" by simp
  qed
qed

text \<open>What a settled run has made of the messages.\<close>

lemma settled_calm:
  fixes q0 :: 'q
  assumes "calm_run Q srt resolve (Impl host port q0) v0 s" and "settled pend s" and "bounded_contract Q pend"
    and "pend q0 = (\<lambda>_. [])" and "history s = sent_by thr ms" and "\<forall>m \<in> set ms. m \<noteq> [] \<and> nul \<notin> set m"
    and "currentMessage v0 = []"
  shows "resting pend s" and "ConnectionState (client s) = SEND_LOOP" and "connections (log_server s) = 1"
    and "socketError (log_server s) = Success" and "receivedBytes (log_server s) = receivedBytes v0 + totalBytes ms"
    and "previousMessage (log_server s) = (if ms = [] then previousMessage v0 else last ms)"
    and "\<exists>k. Reading (log_server s) = [k] \<and> peer s 0 = Some k \<and> wire s 0 = []"
proof -
  have s: "conn_ok resolve s" "calm_client s" "calm_server v0 s" "conn_run Q srt True (Impl host port q0) (history s) (client s)"
    using assms(1) by (simp_all add: calm_run_def)
  note up = settled_up [OF assms(2) s(1)]
  from up(1-3) show "resting pend s" "ConnectionState (client s) = SEND_LOOP" "connections (log_server s) = 1" by simp_all
  obtain k where k: "client_conn s = Some 0" "peer s 0 = Some k" "Reading (log_server s) = [k]" "wire s 0 = []"
    using up(4) s(2) by (auto simp: calm_client_def unconnected_def connected_def)
  then show "\<exists>k. Reading (log_server s) = [k] \<and> peer s 0 = Some k \<and> wire s 0 = []" by blast
  have q: "MessageBuffer (client s) = []" "pend (LogMessages (client s)) = (\<lambda>_. [])"
    using settledD(2) [OF assms(2)] up(5) by auto
  from run_accounted [OF assms(3,4) s(4)] obtain ts where ts: "accounted pend (history s) ts (client s)" by blast
  have "ts = history s"
  proof (rule of_producer_only)
    show "\<forall>x \<in> set (history s). fst x = thr" by (auto simp: assms(5) sent_by_def)
    show "of_producer thr (history s) = of_producer thr ts" using accountedD [OF ts, of thr] q(2) by simp
  qed (rule taken_in_history [OF ts])
  then have "delivered s = frames (sent_by thr ms)"
    using ts s(2) k(4) q(1) assms(5) by (simp add: accounted_def calm_client_def)
  also have "\<dots> = concat (map (\<lambda>m. m @ [nul]) ms)"
    using assms(6) by (simp add: sent_by_def frames_def comp_def cong: map_cong)
  finally have d: "delivered s = concat (map (\<lambda>m. m @ [nul]) ms)" .
  have p: "parsed v0 (delivered s) (log_server s)" using s(3) by (simp add: calm_server_def)
  show "socketError (log_server s) = Success" using s(3) by (simp add: calm_server_def)
  show "receivedBytes (log_server s) = receivedBytes v0 + totalBytes ms"
    using p by (simp add: parsed_def d totalBytes_def length_concat comp_def)
  show "previousMessage (log_server s) = (if ms = [] then previousMessage v0 else last ms)"
    using p receive_frames [of ms v0] assms(6,7) by (simp add: parsed_def d)
qed

text \<open>Expectations at the end of a transmission, whatever they read first.\<close>

lemma passes_transmitted:
  fixes q0 :: 'q
  assumes "calm_run Q srt resolve (Impl host port q0) v0 s" and "is_std_sort srt" and "bounded_contract Q pend"
    and "pend q0 = (\<lambda>_. [])" and "history s = sent_by thr ms" and "\<forall>m \<in> set ms. m \<noteq> [] \<and> nul \<notin> set m"
    and "idle_server v0" and "ms \<noteq> []" and "expectations xs"
    and "\<And>v. connections v = 1 \<Longrightarrow> socketError v = Success \<Longrightarrow> receivedBytes v = totalBytes ms \<Longrightarrow>
      previousMessage v = last ms \<Longrightarrow> fst (expect_all xs v SEND_LOOP)"
  shows "passes Q srt resolve pend q0 thr (Sleep # xs @ Destruct # TearDown) s"
proof (rule passes_Sleep)
  fix t assume st: "(net_step Q srt resolve)\<^sup>*\<^sup>* s t" and set: "settled pend t"
  from calm_run_steps [OF st assms(1,2)] assms(5)
  have t: "calm_run Q srt resolve (Impl host port q0) v0 t" "history t = sent_by thr ms" by simp_all
  have v0: "currentMessage v0 = []" "receivedBytes v0 = 0" using assms(7) by (simp_all add: idle_server_def)
  note facts = settled_calm [OF t(1) set assms(3,4) t(2) assms(6) v0(1)]
  show "passes Q srt resolve pend q0 thr (xs @ Destruct # TearDown) t"
    by (rule passes_expectations [where I = "\<lambda>_. True", OF facts(1) assms(3,9)])
      (use assms(8,10) facts v0 passes_end [OF TearDown_passes] in simp_all)
qed

lemma transmission_passes:
  assumes "bounded_contract Q pend" and "queue_law Q pend used n" and "pend q0 = (\<lambda>_. [])" and "is_std_sort srt"
    and "idle_server v" and "resolver_law resolve" and "used q0 = (\<lambda>_. 0)" and "length ms \<le> n" and "ms \<noteq> []"
    and "\<forall>m \<in> set ms. m \<noteq> [] \<and> nul \<notin> set m" and "expectations xs"
    and "\<And>v. connections v = 1 \<Longrightarrow> socketError v = Success \<Longrightarrow> receivedBytes v = totalBytes ms \<Longrightarrow>
      previousMessage v = last ms \<Longrightarrow> fst (expect_all xs v SEND_LOOP)"
    and "pause = [] \<or> pause = [Sleep]"
  shows "passes Q srt resolve pend q0 thr
    (Construct ''localhost'' testPort # pause @ map Send ms @ Sleep # xs @ Destruct # TearDown) (fresh_network q0 v)"
proof (rule passes_now)
  show "quiet (fresh_network q0 v)" using assms(5) by (simp add: fresh_quiet idle_server_def)
  let ?s = "snd (act_on Q q0 thr (Construct ''localhost'' testPort) (fresh_network q0 v))"
  let ?run = "calm_run Q srt resolve (Impl ''localhost'' testPort q0) v"
  have "?run ?s" by (rule fresh_test [OF assms(5) law_reachable [OF assms(6)]]) simp
  moreover have "history ?s = sent_by thr []" by (simp add: sent_by_def)
  moreover have "used (LogMessages (client ?s)) = (\<lambda>_. 0)"
    using assms(7) by (simp add: Impl_def doAddressQuery_def setState_def start_op_def)
  ultimately have s: "?run ?s" "history ?s = sent_by thr []" "used (LogMessages (client ?s)) = (\<lambda>_. 0)" .
  have send: "passes Q srt resolve pend q0 thr (map Send ms @ Sleep # xs @ Destruct # TearDown) t"
    if "?run t" "history t = sent_by thr []" "used (LogMessages (client t)) = (\<lambda>_. 0)" for t
  proof (rule passes_calm_sends [OF assms(1-4) that(1,2)])
    show "length [] + length ms \<le> n" using assms(8) by simp
    show "used (LogMessages (client t)) = (\<lambda>_. 0)(thr := length [])" using that(3) by (simp add: fun_eq_iff)
    show "passes Q srt resolve pend q0 thr (Sleep # xs @ Destruct # TearDown) u"
      if "?run u" "history u = sent_by thr ([] @ ms)" for u
      using that by (intro passes_transmitted [OF _ assms(4,1,3) _ assms(10,5,9,11,12)]) simp_all
  qed
  then show "passes Q srt resolve pend q0 thr (pause @ map Send ms @ Sleep # xs @ Destruct # TearDown) ?s"
    using assms(13)
  proof (elim disjE)
    assume pause: "pause = []"
    show ?thesis unfolding pause append_Nil by (rule send [OF s])
  next
    assume pause: "pause = [Sleep]"
    show ?thesis
      unfolding pause append_Cons append_Nil
    proof (rule passes_Sleep)
      fix t assume st: "(net_step Q srt resolve)\<^sup>*\<^sup>* ?s t"
      from calm_run_steps [OF this s(1) assms(4)] s(2) have "?run t" "history t = sent_by thr []" by simp_all
      moreover have "used (LogMessages (client t)) = (\<lambda>_. 0)" using used_steps [OF st assms(2)] s(3) by simp
      ultimately show "passes Q srt resolve pend q0 thr (map Send ms @ Sleep # xs @ Destruct # TearDown) t" by (rule send)
    qed
  qed
qed simp_all

lemma serving_same: "same_sockets v w \<Longrightarrow> serving w = serving v"
  by (simp add: same_sockets_def serving_def one_client_def)

lemma idle_fields: "idle_server v \<Longrightarrow> quiet (fresh_network q0 v)" "idle_server v \<Longrightarrow> currentMessage v = []"
  "idle_server v \<Longrightarrow> previousMessage v = []" "idle_server v \<Longrightarrow> socketError v = Success"
  by (simp_all add: idle_server_def fresh_quiet)

text \<open>A client that has gone away.\<close>

definition gone :: "'q network \<Rightarrow> bool" where
  "gone s \<longleftrightarrow> Inflight (client s) = [] \<and> Ready (client s) = [] \<and> client_conn s = None \<and> serving (log_server s)"

lemma gone_step: "gone s \<Longrightarrow> net_step Q srt resolve s t \<Longrightarrow> gone t"
  using net_step_serving [of Q srt resolve s t] by (auto simp: gone_def elim!: net_stepE)

lemma gone_steps: "(net_step Q srt resolve)\<^sup>*\<^sup>* s t \<Longrightarrow> gone s \<Longrightarrow> gone t"
  by (erule steps_inv [where I = gone]) (auto intro: gone_step)

lemma gone_settled:
  assumes "gone s" and "settled pend s"
  shows "quiet s" and "connections (log_server s) = 0"
proof -
  have r: "Reading (log_server s) = []"
    using settledD(6) [OF assms(2)] assms(1) by (cases "Reading (log_server s)") (auto simp: gone_def)
  then show "connections (log_server s) = 0" using assms(1) by (simp add: gone_def serving_def one_client_def)
  have "unaccepted s = []" using settledD(4) [OF assms(2)] assms(1) r by (auto simp: gone_def serving_def)
  with assms(1) r settledD(3) [OF assms(2)] show "quiet s" by (simp add: quiet_def gone_def)
qed

lemma gone_destroyed: "serving (log_server s) \<Longrightarrow> gone (snd (act_on Q q0 thr Destruct s))"
  by (simp add: gone_def destroy_Impl_def)

text \<open>A client that goes away from a resting connection: the server reads the end of the stream.\<close>

definition hung_up :: "nat \<Rightarrow> 'q network \<Rightarrow> bool" where
  "hung_up k s \<longleftrightarrow> gone s \<and> unaccepted s = [] \<and> Reading (log_server s) = [k] \<and> Accepting (log_server s) = []
     \<and> CloseRequests (log_server s) = 0 \<and> k \<notin> set (Closed (log_server s)) \<and> (\<forall>i. peer s i = Some k \<longrightarrow> wire s i = [])"

definition end_read :: "nat \<Rightarrow> 'q network \<Rightarrow> 'q network" where
  "end_read k s = serve (\<lambda>v. HandleRead eof [] k (v\<lparr>Reading := []\<rparr>)) s"

lemma split_single: "us @ k' # vs = [k] \<longleftrightarrow> us = [] \<and> vs = [] \<and> k' = k"
  by (cases us) auto

lemma hung_up_step: "hung_up k s \<Longrightarrow> net_step Q srt resolve s t \<Longrightarrow> t = end_read k s"
  by (auto simp: hung_up_def gone_def end_read_def split_single elim!: net_stepE)

lemma end_read_quiet: "hung_up k s \<Longrightarrow> quiet (end_read k s)"
  by (simp add: hung_up_def gone_def end_read_def quiet_def read_failed_effect)
    (simp add: HandleRead_def drop_connection_def RemoveSocket_def WaitForNewConnection_def Let_def)

lemma hung_up_steps:
  assumes "(net_step Q srt resolve)\<^sup>*\<^sup>* s t" and "hung_up k s"
  shows "t = s \<or> t = end_read k s"
  using assms(1)
proof (cases rule: converse_rtranclpE)
  case (step u)
  with hung_up_step [OF assms(2)] have "u = end_read k s" by blast
  with quiet_steps [OF step(2)] end_read_quiet [OF assms(2)] show ?thesis by simp
qed simp

lemma hung_up_settled:
  assumes "(net_step Q srt resolve)\<^sup>*\<^sup>* s t" and "hung_up k s" and "settled pend t"
  shows "t = end_read k s"
proof -
  have "t \<noteq> s"
  proof
    assume "t = s"
    with assms(2) gone_settled(1) [OF _ assms(3)] show False by (auto simp: hung_up_def quiet_def)
  qed
  with hung_up_steps [OF assms(1,2)] show ?thesis by simp
qed

lemma resting_hang_up:
  assumes "resting pend s" and "serving (log_server s)" and "Reading (log_server s) = [k]" and "peer s 0 = Some k"
    and "wire s 0 = []" and "next_conn s = 1"
  shows "hung_up k (snd (act_on Q q0 thr Destruct s))"
proof -
  have set: "settled pend s" and lk: "linked s" using assms(1) by (simp_all add: resting_def)
  have "unaccepted s = []"
  proof (cases "unaccepted s")
    case (Cons i js)
    with linkedD(3) [OF lk, of i] assms(4,6) have "i = 0" "peer s i = None" by auto
    with assms(4) show ?thesis by simp
  qed
  moreover have "wire s i = []" if "peer s i = Some k" for i
    using linkedD(6) [OF lk that assms(4)] assms(5) by simp
  moreover have "Accepting (log_server s) = []" using assms(2,3) by (simp add: serving_def)
  moreover have "gone (snd (act_on Q q0 thr Destruct s))" by (rule gone_destroyed [OF assms(2)])
  ultimately show ?thesis
    using assms(3) settledD(3) [OF set] settledD(5) [OF set, of k] by (simp add: hung_up_def)
qed

lemma connection_test_passes:
  fixes q0 :: 'q
  assumes "bounded_contract Q pend" and "pend q0 = (\<lambda>_. [])" and "is_std_sort srt"
    and "idle_server v" and "reachable_host resolve host"
  shows "passes Q srt resolve pend q0 thr (connection_test host) (fresh_network q0 v)"
proof -
  let ?rest = "[connections_are 0, latest_message [], last_error eof]"
  let ?after = "Destruct # Sleep # ?rest @ TearDown"
  let ?run = "calm_run Q srt resolve (Impl host testPort q0) v"
  let ?s = "snd (act_on Q q0 thr (Construct host testPort) (fresh_network q0 v))"
  note idle = idle_fields [OF assms(4)] idle_expectations [OF assms(4)]
  have run: "?run ?s" by (rule fresh_test [OF assms(4,5)])
  have after: "passes Q srt resolve pend q0 thr ?after t"
    if t: "resting pend t" "log_server t = w" "serving w" "Reading w = [k]" "peer t 0 = Some k" "wire t 0 = []" "next_conn t = 1"
      "previousMessage w = []" "connections w = 1" for t w k
  proof (rule passes_Cons)
    fix x assume x: "(net_step Q srt resolve)\<^sup>*\<^sup>* t x"
    note r = resting_steps [OF x t(1) assms(1)]
    define u where "u = snd (act_on Q q0 thr Destruct x)"
    have hung: "hung_up k u"
      unfolding u_def by (rule resting_hang_up [where pend = pend]) (use r t in \<open>simp_all add: polled_def\<close>)
    have "log_server u = w" using r t(2) by (simp add: u_def polled_def)
    then have ends: "connections (log_server (end_read k u)) = 0" "previousMessage (log_server (end_read k u)) = []"
      "socketError (log_server (end_read k u)) = eof"
      using t(8,9) by (simp_all add: end_read_def HandleRead_def drop_connection_def RemoveSocket_def
          WaitForNewConnection_def Let_def)
    have "passes Q srt resolve pend q0 thr (Sleep # ?rest @ TearDown) u"
    proof (rule passes_Sleep)
      fix y assume "(net_step Q srt resolve)\<^sup>*\<^sup>* u y" "settled pend y"
      then have y: "y = end_read k u" using hung_up_settled hung by blast
      show "passes Q srt resolve pend q0 thr (?rest @ TearDown) y"
        unfolding y
        by (rule passes_quiet_expectations [OF end_read_quiet [OF hung]])
          (simp_all add: ends TearDown_passes GetNrOfConnections_def GetLatestMessage_def GetLastSocketError_def)
    qed
    then show "fst (act_on Q q0 thr Destruct x) \<and> passes Q srt resolve pend q0 thr (Sleep # ?rest @ TearDown)
        (snd (act_on Q q0 thr Destruct x))"
      by (simp add: u_def)
  qed
  have connected: "passes Q srt resolve pend q0 thr (Sleep # (server_silent 1 @ [status_is SEND_LOOP]) @ ?after) ?s"
  proof (rule passes_Sleep)
    fix t assume "(net_step Q srt resolve)\<^sup>*\<^sup>* ?s t" and set: "settled pend t"
    from calm_run_steps [OF this(1) run assms(3)] have t: "?run t" "history t = sent_by thr []"
      by (simp_all add: sent_by_def)
    have "\<forall>m \<in> set []. m \<noteq> [] \<and> nul \<notin> set m" by simp
    note facts = settled_calm [OF t(1) set assms(1,2) t(2) this idle(2)]
    obtain k where k: "Reading (log_server t) = [k]" "peer t 0 = Some k" "wire t 0 = []" using facts(7) by blast
    have nc: "next_conn t = 1" "serving (log_server t)"
      using t(1) settled_up(1) [OF set] by (auto simp: calm_run_def calm_client_def unconnected_def connected_def conn_ok_def)
    let ?w = "(log_server t)\<lparr>previousMessage := [], socketError := Success\<rparr>"
    have w: "snd (expect_all (server_silent 1 @ [status_is SEND_LOOP]) (log_server t) (ConnectionState (client t))) = ?w"
      by (simp add: server_silent_def GetLatestMessage_def GetLastSocketError_def)
    show "passes Q srt resolve pend q0 thr ((server_silent 1 @ [status_is SEND_LOOP]) @ ?after) t"
    proof (rule passes_expectations [where I = "\<lambda>_. True", OF facts(1) assms(1)])
      show "fst (expect_all (server_silent 1 @ [status_is SEND_LOOP]) (log_server t) (ConnectionState (client t)))"
        using facts idle(3) by (simp add: server_silent_def GetNrOfConnections_def GetLatestMessage_def GetLastSocketError_def)
      fix x assume x: "resting pend x" "polled (t\<lparr>log_server := snd (expect_all (server_silent 1 @ [status_is SEND_LOOP])
          (log_server t) (ConnectionState (client t)))\<rparr>) x"
      have "serving ?w" using nc(2) serving_same [of "log_server t" ?w] by (simp add: same_sockets_def)
      with x k nc facts(3) show "passes Q srt resolve pend q0 thr ?after x"
        unfolding w by (intro after [where w = ?w and k = k]) (simp_all add: polled_def)
    qed (simp_all add: server_silent_def)
  qed
  show ?thesis
    unfolding connection_test_def
  proof (rule passes_quiet_expectations [OF idle(1)])
    show "fst (expect_all (server_silent 0) (log_server (fresh_network q0 v)) (ConnectionState (client (fresh_network q0 v))))"
      using idle by (simp add: server_silent_def fresh_network_def)
    fix u assume u: "quiet u" "u = (fresh_network q0 v)\<lparr>log_server := snd (expect_all (server_silent 0)
        (log_server (fresh_network q0 v)) (ConnectionState (client (fresh_network q0 v))))\<rparr>"
    then have "u = fresh_network q0 v" using idle by (simp add: server_silent_def fresh_network_def)
    moreover have "passes Q srt resolve pend q0 thr
        (Construct host testPort # Sleep # (server_silent 1 @ [status_is SEND_LOOP]) @ ?after) (fresh_network q0 v)"
      by (rule passes_now [OF idle(1) _ connected]) simp_all
    ultimately show "passes Q srt resolve pend q0 thr
        ([Construct host testPort, Sleep] @ server_silent 1 @ [status_is SEND_LOOP, Destruct]
          @ [Sleep, connections_are 0, latest_message [], last_error eof] @ TearDown) u"
      by (simp only: append_Cons append_Nil append_assoc)
  qed (simp add: server_silent_def)
qed

section \<open>The test that closes the connections\<close>

lemma conn_ok_server:
  assumes "conn_ok resolve s" and "Accepting v = Accepting (log_server s)" and "Reading v = Reading (log_server s)"
    and "Closed v = Closed (log_server s)" and "NextSocket v = NextSocket (log_server s)" and "serving v"
  shows "conn_ok resolve (s\<lparr>log_server := v\<rparr>)"
proof -
  have "linked (s\<lparr>log_server := v\<rparr>)"
    by (rule linked_mono [where s = s]) (use assms in \<open>simp_all add: conn_ok_def\<close>)
  with assms show ?thesis by (simp add: conn_ok_def client_ok_def written_ok_def reaching_def)
qed

lemma conn_ok_steps: "(net_step Q srt resolve)\<^sup>*\<^sup>* s t \<Longrightarrow> conn_ok resolve s \<Longrightarrow> is_std_sort srt \<Longrightarrow> conn_ok resolve t"
  by (erule steps_inv [where I = "conn_ok resolve"]) (auto intro: net_step_conn_ok)

lemma passes_up:
  assumes "conn_ok resolve s" and "bounded_contract Q pend" and "is_std_sort srt"
    and "\<And>t. conn_ok resolve t \<Longrightarrow> passes Q srt resolve pend q0 thr ops t"
  shows "passes Q srt resolve pend q0 thr (Sleep # [status_is SEND_LOOP, connections_are 1] @ ops) s"
proof (rule passes_Sleep)
  fix t assume st: "(net_step Q srt resolve)\<^sup>*\<^sup>* s t" and set: "settled pend t"
  have ok: "conn_ok resolve t" by (rule conn_ok_steps [OF st assms(1,3)])
  note up = settled_up [OF set ok]
  show "passes Q srt resolve pend q0 thr ([status_is SEND_LOOP, connections_are 1] @ ops) t"
  proof (rule passes_expectations [where I = "conn_ok resolve", OF up(3) assms(2) _ _ ok])
    show "fst (expect_all [status_is SEND_LOOP, connections_are 1] (log_server t) (ConnectionState (client t)))"
      using up(1,2) by (simp add: GetNrOfConnections_def)
    show "conn_ok resolve (x\<lparr>log_server := v\<rparr>)" if "conn_ok resolve x" "same_sockets (log_server x) v" for x v
      using that serving_same [OF that(2)] by (intro conn_ok_server) (simp_all add: same_sockets_def conn_ok_def)
  qed (use net_step_conn_ok [OF _ _ assms(3)] assms(4) in \<open>simp_all\<close>)
qed

lemma CloseConnection_passes:
  assumes "bounded_contract Q pend" and "is_std_sort srt" and "idle_server v" and "resolver_law resolve"
  shows "passes Q srt resolve pend q0 thr CloseConnectionTest (fresh_network q0 v)"
proof -
  let ?s = "snd (act_on Q q0 thr (Construct ''localhost'' testPort) (fresh_network q0 v))"
  let ?rest = "Destruct # Sleep # [connections_are 0] @ TearDown"
  have "calm_run Q srt resolve (Impl ''localhost'' testPort q0) v ?s"
    by (rule fresh_test [OF assms(3) law_reachable [OF assms(4)]]) simp
  then have ok: "conn_ok resolve ?s" by (simp add: calm_run_def)
  have over: "passes Q srt resolve pend q0 thr ?rest t" if "conn_ok resolve t" for t
  proof (rule passes_Cons)
    fix x assume "(net_step Q srt resolve)\<^sup>*\<^sup>* t x"
    from conn_ok_steps [OF this that assms(2)] have "gone (snd (act_on Q q0 thr Destruct x))"
      by (intro gone_destroyed) (simp add: conn_ok_def)
    then have "passes Q srt resolve pend q0 thr ([connections_are 0] @ TearDown) y"
      if "(net_step Q srt resolve)\<^sup>*\<^sup>* (snd (act_on Q q0 thr Destruct x)) y" "settled pend y" for y
      using gone_settled [OF gone_steps [OF that(1)] that(2)]
      by (intro passes_quiet_expectations) (simp_all add: GetNrOfConnections_def TearDown_passes del: act_on.simps)
    then show "fst (act_on Q q0 thr Destruct x) \<and> passes Q srt resolve pend q0 thr (Sleep # [connections_are 0] @ TearDown)
        (snd (act_on Q q0 thr Destruct x))"
      by (intro conjI passes_Sleep) simp_all
  qed
  have closing: "passes Q srt resolve pend q0 thr
      (CloseConnections # Sleep # [status_is SEND_LOOP, connections_are 1] @ ?rest) t" if "conn_ok resolve t" for t
  proof (rule passes_Cons)
    fix x assume "(net_step Q srt resolve)\<^sup>*\<^sup>* t x"
    from conn_ok_steps [OF this that assms(2)] have x: "conn_ok resolve x" .
    then have "serving (CloseAllConnections (log_server x))"
      by (auto simp: conn_ok_def serving_def one_client_def CloseAllConnections_def)
    with conn_ok_server [OF x, of "CloseAllConnections (log_server x)"]
    have "conn_ok resolve (serve CloseAllConnections x)" by (simp add: CloseAllConnections_def serve_def)
    from passes_up [OF this assms(1,2) over]
    show "fst (act_on Q q0 thr CloseConnections x) \<and> passes Q srt resolve pend q0 thr
        (Sleep # [status_is SEND_LOOP, connections_are 1] @ ?rest) (snd (act_on Q q0 thr CloseConnections x))"
      by simp
  qed
  have "passes Q srt resolve pend q0 thr (Construct ''localhost'' testPort # Sleep # [status_is SEND_LOOP, connections_are 1]
      @ CloseConnections # Sleep # [status_is SEND_LOOP, connections_are 1] @ ?rest) (fresh_network q0 v)"
    by (rule passes_now [OF idle_fields(1) [OF assms(3)] _ passes_up [OF ok assms(1,2) closing]]) simp_all
  then show ?thesis by (simp only: CloseConnectionTest_def append_Cons append_Nil)
qed

section \<open>All tests\<close>

lemma GraylogConnection_tests_pass:
  assumes "bounded_contract Q pend" and "queue_law Q pend used 100" and "pend q0 = (\<lambda>_. [])" and "is_std_sort srt"
    and "idle_server v" and "resolver_law resolve" and "used q0 = (\<lambda>_. 0)"
  shows "passes Q srt resolve pend q0 thr ConnectionTest (fresh_network q0 v)"
    and "passes Q srt resolve pend q0 thr IPv6ConnectionTest (fresh_network q0 v)"
    and "passes Q srt resolve pend q0 thr MessageTransmissionTest (fresh_network q0 v)"
    and "passes Q srt resolve pend q0 thr LargeMessageTransmissionTest (fresh_network q0 v)"
    and "passes Q srt resolve pend q0 thr MultipleMessagesTest (fresh_network q0 v)"
proof -
  show "passes Q srt resolve pend q0 thr ConnectionTest (fresh_network q0 v)"
    "passes Q srt resolve pend q0 thr IPv6ConnectionTest (fresh_network q0 v)"
    unfolding ConnectionTest_def IPv6ConnectionTest_def
    by (rule connection_test_passes [OF assms(1,3,4,5) law_reachable [OF assms(6)]]; simp)+
  note reads = totalBytes_def GetNrOfConnections_def GetLatestMessage_def GetLastSocketError_def GetReceivedBytes_def
  have one: "passes Q srt resolve pend q0 thr (Construct ''localhost'' testPort # [] @ map Send [m] @ Sleep
      # [last_error Success, received_bytes (length m + 1), latest_message m, connections_are 1]
      @ Destruct # TearDown) (fresh_network q0 v)" if "m \<noteq> []" "nul \<notin> set m" for m
    by (rule transmission_passes [OF assms, of "[m]"]) (use that in \<open>simp_all add: reads\<close>)
  have "nul \<notin> set testString" "testString \<noteq> []" by (simp_all add: testString_def nul_def)
  with one [of testString] show "passes Q srt resolve pend q0 thr MessageTransmissionTest (fresh_network q0 v)"
    by (simp only: MessageTransmissionTest_def append_Cons append_Nil list.map simp_thms)
  have "nul \<notin> set TargetString" "TargetString \<noteq> []" by (simp_all add: TargetString_def nul_def)
  with one [of TargetString] show "passes Q srt resolve pend q0 thr LargeMessageTransmissionTest (fresh_network q0 v)"
    by (simp only: LargeMessageTransmissionTest_def append_Cons append_Nil list.map simp_thms)
  have lines: "length test_lines \<le> 100" "test_lines \<noteq> []" "\<forall>m \<in> set test_lines. m \<noteq> [] \<and> nul \<notin> set m"
    by (simp_all add: test_lines_def nul_def)
  have "passes Q srt resolve pend q0 thr (Construct ''localhost'' testPort # [Sleep] @ map Send test_lines @ Sleep
      # [last_error Success, latest_message (last test_lines), received_bytes (totalBytes test_lines), connections_are 1]
      @ Destruct # TearDown) (fresh_network q0 v)"
    by (rule transmission_passes [OF assms lines]) (simp_all add: reads)
  then show "passes Q srt resolve pend q0 thr MultipleMessagesTest (fresh_network q0 v)"
    by (simp only: MultipleMessagesTest_def append_Cons append_Nil append_assoc)
qed

end
