(* ===== verification/Network_Passes.thy ===== *)
theory Network_Passes
  imports Network_Suite
begin

text \<open>
  The remaining test, \<open>flush\<close> with a server; that a network can settle; and the property: the
  tests of \<open>unit_tests/GraylogInterfaceTest.cpp\<close> that need a network pass.
\<close>

section \<open>Flush\<close>

text \<open>The promise of an accepted \<open>flush\<close> is fulfilled, or its closure is still in the queue.\<close>

definition flush_pending :: "('q \<Rightarrow> nat \<Rightarrow> queued list) \<Rightarrow> nat \<Rightarrow> 'q impl \<Rightarrow> bool" where
  "flush_pending pend p c \<longleftrightarrow> future_ready (Promises c p) \<or> (\<exists>thr. FlushFunc p \<in> set (pend (LogMessages c) thr))"

lemma flush_pending_cong:
  "LogMessages d = LogMessages c \<Longrightarrow> Promises d = Promises c \<Longrightarrow> flush_pending pend p d = flush_pending pend p c"
  by (simp add: flush_pending_def)

lemma flush_pending_send:
  assumes "bounded_contract Q pend" and "flush_pending pend p c"
  shows "flush_pending pend p (trySendMessage Q c)"
proof (cases "SocketOpen c \<and> length (MessageBuffer c) \<le> MessageAdditionLimit")
  case False
  then show ?thesis using assms(2) by (auto simp: trySendMessage_def async_write_def flush_pending_def handler_queue)
next
  case True
  obtain r q where rq: "b_wait_dequeue_timed Q (LogMessages c) = (r, q)" by fastforce
  show ?thesis
  proof (cases r)
    case None
    with bounded_none [OF assms(1)] rq have "pend q = pend (LogMessages c)" by simp
    with True None rq assms(2) show ?thesis
      by (auto simp: trySendMessage_def async_write_def post_def flush_pending_def handler_queue)
  next
    case (Some f)
    with bounded_some [OF assms(1)] rq obtain thr fs where q: "pend (LogMessages c) thr = f # fs"
      "pend q = (pend (LogMessages c))(thr := fs)" by blast
    obtain m d where d: "call_queued f (c\<lparr>LogMessages := q\<rparr>) = (m, d)" by fastforce
    have sub: "set (pend (LogMessages c) t) \<subseteq> insert f (set (pend q t))" for t using q by auto
    have "LogMessages d = q" "Promises d = (case f of MsgFunc msg \<Rightarrow> Promises c | FlushFunc p' \<Rightarrow> (Promises c)(p' := Satisfied))"
      using d by (cases f; auto simp: set_value_def)+
    with sub assms(2) have "flush_pending pend p d" unfolding flush_pending_def by (cases f) fastforce+
    moreover have "LogMessages (trySendMessage Q c) = LogMessages d \<and> Promises (trySendMessage Q c) = Promises d"
      using True Some rq d by (auto simp: trySendMessage_def async_write_def post_def handler_queue)
    ultimately show ?thesis by (simp add: flush_pending_def)
  qed
qed

lemma flush_pending_handler:
  assumes "bounded_contract Q pend" and "flush_pending pend p c"
  shows "flush_pending pend p (run_handler Q srt e n c)"
proof -
  note send = flush_pending_send [OF assms(1)]
  show ?thesis
    using assms(2)
    by (cases e) (auto simp: resolverHandler_def connectHandler_def receiveHandler_def sentMessageHandler_def Let_def
        flush_pending_def handler_queue intro!: send [unfolded flush_pending_def])
qed

lemma flush_pending_step:
  assumes "net_step Q srt resolve s t" and "bounded_contract Q pend" and "flush_pending pend p (client s)"
  shows "flush_pending pend p (client t)"
  using assms(1)
proof (cases rule: net_step.cases)
  case (handler c cs)
  have "flush_pending pend p ((client s)\<lparr>Ready := cs\<rparr>)" using assms(3) by (simp add: flush_pending_def)
  from flush_pending_handler [OF assms(2) this] show ?thesis by (simp add: handler(1) client_runs_def Let_def)
qed (use assms(3) in \<open>simp_all add: flush_pending_def\<close>)

text \<open>A promise that is ready stays so.\<close>

lemma flush_ready_send: "future_ready (Promises c p) \<Longrightarrow> future_ready (Promises (trySendMessage Q c) p)"
proof (cases "SocketOpen c \<and> length (MessageBuffer c) \<le> MessageAdditionLimit")
  case False
  then show "future_ready (Promises c p) \<Longrightarrow> ?thesis" by (auto simp: trySendMessage_def async_write_def handler_queue)
next
  case True
  assume ready: "future_ready (Promises c p)"
  obtain r q where rq: "b_wait_dequeue_timed Q (LogMessages c) = (r, q)" by fastforce
  show ?thesis
  proof (cases r)
    case None
    with True rq ready show ?thesis by (auto simp: trySendMessage_def async_write_def post_def handler_queue)
  next
    case (Some f)
    obtain m d where d: "call_queued f (c\<lparr>LogMessages := q\<rparr>) = (m, d)" by fastforce
    then have "future_ready (Promises d p)" using ready by (cases f) (auto simp: set_value_def)
    with True Some rq d show ?thesis by (auto simp: trySendMessage_def async_write_def post_def handler_queue)
  qed
qed

lemma flush_ready_handler: "future_ready (Promises c p) \<Longrightarrow> future_ready (Promises (run_handler Q srt e n c) p)"
  by (cases e) (auto simp: resolverHandler_def connectHandler_def receiveHandler_def sentMessageHandler_def Let_def
      handler_queue intro!: flush_ready_send)

lemma flush_ready_steps:
  assumes "(net_step Q srt resolve)\<^sup>*\<^sup>* s t" and "future_ready (Promises (client s) p)"
  shows "future_ready (Promises (client t) p)"
  using assms
proof (induction rule: rtranclp_induct)
  case (step t u)
  from step.hyps(2) step.IH [OF step.prems] show ?case
    by (cases rule: net_step.cases) (auto simp: client_runs_def Let_def intro!: flush_ready_handler)
qed

lemma flush_settled:
  assumes "calm_run Q srt resolve c0 v s" and "settled pend s" and "flush_pending pend p (client s)"
  shows "future_ready (Promises (client s) p)"
proof -
  have "conn_ok resolve s" using assms(1) by (simp add: calm_run_def)
  then have "Ready (client s) = [Posted]" by (rule settled_up(5) [OF assms(2)])
  then have "pend (LogMessages (client s)) = (\<lambda>_. [])" using settledD(2) [OF assms(2)] by simp
  with assms(3) show ?thesis by (simp add: flush_pending_def)
qed

lemma flush_passes:
  assumes "bounded_contract Q pend" and "queue_law Q pend used 10" and "pend q0 = (\<lambda>_. [])" and "is_std_sort srt"
    and "idle_server v" and "resolver_law resolve" and "used q0 = (\<lambda>_. 0)"
  shows "passes Q srt resolve pend q0 thr FlushSuccess (fresh_network q0 v)"
proof -
  let ?c = "Impl ''localhost'' testPort q0"
  let ?s = "snd (act_on Q q0 thr (Construct ''localhost'' testPort) (fresh_network q0 v))"
  let ?rest = "[Flush_returns 0 True, Destruct]"
  have run: "calm_run Q srt resolve ?c v ?s"
    by (rule fresh_test [OF assms(5) law_reachable [OF assms(6)]]) simp
  have fresh: "used (LogMessages (client ?s)) = (\<lambda>_. 0)"
    using assms(7) by (simp add: Impl_def doAddressQuery_def setState_def start_op_def)
  have "passes Q srt resolve pend q0 thr (Start_flush 0 # Wait_flush 0 # ?rest) ?s"
  proof (rule passes_Cons)
    fix t assume st: "(net_step Q srt resolve)\<^sup>*\<^sup>* ?s t"
    from calm_run_steps [OF this run assms(4)] have t: "calm_run Q srt resolve ?c v t" "history t = []" by simp_all
    then have r: "conn_run Q srt True ?c [] (client t)" by (simp add: calm_run_def)
    from run_accounted [OF assms(1,3) r] obtain ts where "accounted pend [] ts (client t)" by blast
    then have "pend (LogMessages (client t)) = (\<lambda>_. [])(thr := [])" by (auto simp: accounted_def)
    moreover have "used (LogMessages (client t)) = (\<lambda>_. 0)(thr := 0)"
      using used_steps [OF st assms(2)] fresh by (simp add: fun_eq_iff)
    ultimately have "held_by pend used thr (LogMessages (client t)) [] 0" by (simp add: held_by_def)
    from enqueue_room(2) [OF assms(1,2) this] obtain q where
      q: "b_try_enqueue Q thr (FlushFunc 0) (LogMessages (client t)) = (True, q)" "pend q = (\<lambda>_. [])(thr := [FlushFunc 0])"
      by (auto simp: held_by_def)
    define u where "u = snd (act_on Q q0 thr (Start_flush 0) t)"
    have u: "u = t\<lparr>client := (client t)\<lparr>LogMessages := q\<rparr>, history := [(thr, FlushFunc 0)]\<rparr>"
      using q t(2) by (simp add: u_def flush_start_def enqueued_def)
    have "conn_run Q srt True ?c [(thr, FlushFunc 0)] (client u)"
      using run_flush [OF r, of thr 0] q u by (simp add: enqueued_def flush_start_def)
    then have calm: "calm_run Q srt resolve ?c v u" by (rule calm_cong [OF t(1) u])
    have pd: "flush_pending pend 0 (client u)" using q(2) by (auto simp: u flush_pending_def)
    have ready: "future_ready (Promises (client x) 0)"
      if x: "(net_step Q srt resolve)\<^sup>*\<^sup>* u x" "goes_on pend (Wait_flush 0) x" for x
    proof (cases "settled pend x")
      case True
      have "flush_pending pend 0 (client x)"
        by (rule steps_inv [OF x(1), where I = "\<lambda>s. flush_pending pend 0 (client s)", OF pd])
          (rule flush_pending_step [OF _ assms(1)])
      with calm_run_steps [OF x(1) calm assms(4)] True show ?thesis by (blast intro: flush_settled)
    qed (use x(2) in simp)
    have "passes Q srt resolve pend q0 thr (Wait_flush 0 # ?rest) u"
      using flush_ready_steps [OF _ ready] by (simp add: flush_result_def)
    then show "fst (act_on Q q0 thr (Start_flush 0) t)
        \<and> passes Q srt resolve pend q0 thr (Wait_flush 0 # ?rest) (snd (act_on Q q0 thr (Start_flush 0) t))"
      by (simp add: u_def)
  qed
  then show ?thesis unfolding FlushSuccess_def
    by (intro passes_now [OF idle_fields(1) [OF assms(5)]]) simp_all
qed

section \<open>Settling\<close>

text \<open>
  A new client of a server that listens comes to rest: the address is looked up, the connection
  established and accepted, and the empty queue polled.
\<close>

lemma connection_settles:
  assumes "bounded_contract Q pend" and "pend q0 = (\<lambda>_. [])" and "idle_server v" and "reachable_host resolve host"
    and "is_std_sort srt"
  shows "\<exists>t. (net_step Q srt resolve)\<^sup>*\<^sup>* (snd (act_on Q q0 thr (Construct host testPort) (fresh_network q0 v))) t
    \<and> settled pend t"
proof -
  define s0 where "s0 = snd (act_on Q q0 thr (Construct host testPort) (fresh_network q0 v))"
  obtain eps where eps: "resolve host (show_int testPort) = Some eps" "eps \<noteq> []" "list_all test_endpoint eps"
    using assms(4) by (auto simp: reachable_host_def)
  obtain k where k: "Accepting v = [k]" "Reading v = []" "CloseRequests v = 0" "AcceptorOpen v" "k \<notin> set (Closed v)"
    using assms(3) by (auto simp: idle_server_def serving_def length_Suc_conv)
  let ?step = "net_step Q srt resolve"
  define r where "r = getNextEndpoint (make_QueryResult srt eps)"
  have far: "listens s (fst r)" if "log_server s = v" for s :: "'a network"
    using first_endpoint [OF assms(5) eps(2,3)] that k(4) by (simp add: listens_def test_endpoint_def r_def)
  have s0: "client s0 = Impl host testPort q0" "log_server s0 = v" "unaccepted s0 = []" "next_conn s0 = 0"
    "client_conn s0 = None" "written s0 = 0" "peer s0 = (\<lambda>_. None)" "wire s0 = (\<lambda>_. [])"
    by (simp_all add: s0_def fresh_network_def)
  define s1 where "s1 = complete [] (Resolved False eps) s0"
  have "lookup_result resolve (client s0) = Resolved False eps" using eps(1) by (simp add: s0(1) lookup_Impl)
  then have 1: "?step s0 s1"
    using net_step.resolved [of s0 "[]" "[]" Q srt resolve] by (simp add: s1_def s0(1) Impl_fields)
  have s1: "client s1 = (Impl host testPort q0)\<lparr>Inflight := [], Ready := [Resolved False eps]\<rparr>"
    by (simp add: s1_def s0(1) Impl_fields)
  define s2 where "s2 = client_runs Q srt (Resolved False eps) [] s1"
  have 2: "?step s1 s2" unfolding s2_def by (rule net_step.handler) (simp add: s1)
  have s2: "Inflight (client s2) = [Async_connect (fst r) (snd r)]" "Ready (client s2) = []" "SocketOpen (client s2)"
    "MessageBuffer (client s2) = []" "LogMessages (client s2) = q0" "log_server s2 = v" "unaccepted s2 = []" "next_conn s2 = 0"
    "peer s2 = (\<lambda>_. None)" "wire s2 = (\<lambda>_. [])" "written s2 = 0"
    by (simp_all add: s2_def client_runs_def s1 Let_def resolverHandler_def r_def s1_def s0 tryConnect_def async_connect_def
        setState_def start_op_def Impl_def doAddressQuery_def split: prod.split)
  define s3 where "s3 = (complete [] (Connected False (snd r)) s2)
    \<lparr>unaccepted := [0], client_conn := Some 0, next_conn := 1\<rparr>"
  have 3: "?step s2 s3"
    using net_step.established [of s2 "[]" "fst r" "snd r" "[]" Q srt resolve] far [OF s2(6)] by (simp add: s3_def s2)
  define c where "c = start_op Async_receive (setState SEND_LOOP ((client s3)\<lparr>Ready := []\<rparr>))"
  have c: "SocketOpen c" "MessageBuffer c = []" "LogMessages c = q0" "Ready c = []" "Inflight c = [Async_receive]"
    by (simp_all add: c_def s3_def s2 start_op_def setState_def)
  obtain q where q: "trySendMessage Q c = c\<lparr>LogMessages := q, Ready := [Posted]\<rparr>" "pend q = (\<lambda>_. [])"
    using poll_empty [OF assms(1) c(1,2) _ c(4)] assms(2) c(3) by auto
  define s4 where "s4 = client_runs Q srt (Connected False (snd r)) [] s3"
  have 4: "?step s3 s4" unfolding s4_def by (rule net_step.handler) (simp add: s3_def s2)
  have s4: "client s4 = c\<lparr>LogMessages := q, Ready := [Posted]\<rparr>" "client_conn s4 = Some 0" "log_server s4 = v"
    "unaccepted s4 = [0]" "peer s4 = (\<lambda>_. None)" "wire s4 = (\<lambda>_. [])"
    using c(1) by (simp_all add: s4_def client_runs_def Let_def connectHandler_def c_def [symmetric] q(1))
      (simp_all add: s3_def s2)
  define s5 where "s5 = serve (\<lambda>v. OnConnectionAccept Success k (v\<lparr>Accepting := []\<rparr>))
    (s4\<lparr>unaccepted := [], peer := (peer s4)(0 := Some k)\<rparr>)"
  have 5: "?step s4 s5"
    using net_step.accept [of s4 "[]" k "[]" 0 "[]" Q srt resolve] by (simp add: s4 k s5_def)
  have "settled pend s5"
    using k by (simp add: settled_def s5_def s4 c q(2) accept_effect server_closed_def)
  moreover have "R\<^sup>*\<^sup>* a f" if "R a b" "R b c" "R c d" "R d e" "R e f" for R and a b c d e f :: "'a network"
    using that by (meson converse_rtranclp_into_rtranclp r_into_rtranclp)
  ultimately show ?thesis using 1 2 3 4 5 unfolding s0_def by blast
qed

section \<open>Property\<close>

definition wrong_tests :: "net_op list list" where
  "wrong_tests = [UnknownHostTest, WrongPortTest]"

definition connected_tests :: "net_op list list" where
  "connected_tests = [ConnectionTest, IPv6ConnectionTest, CloseConnectionTest, MessageTransmissionTest,
     LargeMessageTransmissionTest, MultipleMessagesTest]"

definition queue_tests :: "string \<Rightarrow> (nat \<times> net_op list) list" where
  "queue_tests json = [(100, TestQueueSize json), (64, TestQueueSizeLimit json), (50, QueueLength_GraylogInterfaceTest json),
     (10, OnInitialisationQueueEmpty),
     (10, QueueSizeOneIsNotEmpty), (10, FlushFail)]"

text \<open>
  C11: the tests of the Graylog connection against the test server pass, under every schedule of the
  two service threads and the network, when a test that sleeps goes on in a settled state (and
  the first of them is reached) and the wait of \<open>flush\<close> ends when the promise is ready or, by its
  time limit, in a settled state. The queue is assumed to behave as documented: whole blocks of 32
  slots for the capacity, no allocation when full. With an unknown host or a wrong port the client never gets to
  the sending state; otherwise the server counts exactly one connection, gets every message
  intact and complete, sees the end of the stream when the client is destroyed and no error
  before, and the client reconnects by itself after the server has closed its connections.
  Without a server the queue keeps the messages and \<open>flush\<close> fails, with one it succeeds.
\<close>

theorem network_tests_pass:
  fixes q0 :: "nat \<Rightarrow> 'q"
  assumes "\<And>n. bounded_contract (Q n) pend" and "\<And>n. queue_law (Q n) pend used n"
    and "\<And>n. pend (q0 n) = (\<lambda>_. [])" and "\<And>n. used (q0 n) = (\<lambda>_. 0)" and "is_std_sort srt" and "resolver_law resolve" and "idle_server v" and "no_server w"
  shows "(\<forall>T \<in> set (wrong_tests @ connected_tests).
        passes (Q 100) srt resolve pend (q0 100) thr T (fresh_network (q0 100) v))
    \<and> passes (Q 10) srt resolve pend (q0 10) thr FlushSuccess (fresh_network (q0 10) v)
    \<and> (\<forall>(n, T) \<in> set (queue_tests json). passes (Q n) srt resolve pend (q0 n) thr T (fresh_network (q0 n) w))
    \<and> (\<exists>t. (net_step (Q 100) srt resolve)\<^sup>*\<^sup>*
          (snd (act_on (Q 100) (q0 100) thr (Construct ''localhost'' testPort) (fresh_network (q0 100) v))) t
        \<and> settled pend t)"
proof (intro conjI)
  note conn = GraylogConnection_tests_pass [OF assms(1,2,3,5,7,6,4)]
  show "\<forall>T \<in> set (wrong_tests @ connected_tests). passes (Q 100) srt resolve pend (q0 100) thr T (fresh_network (q0 100) v)"
    by (simp add: wrong_tests_def connected_tests_def conn UnknownHost_passes [OF assms(7,6,5)]
        WrongPort_passes [OF assms(7,6,5)] CloseConnection_passes [OF assms(1,5,7,6)])
  show "passes (Q 10) srt resolve pend (q0 10) thr FlushSuccess (fresh_network (q0 10) v)"
    by (rule flush_passes [OF assms(1,2,3,5,7,6,4)])
  show "\<forall>(n, T) \<in> set (queue_tests json). passes (Q n) srt resolve pend (q0 n) thr T (fresh_network (q0 n) w)"
    by (simp add: queue_tests_def queue_tests_pass [where Q = Q and ?q0.0 = q0, OF assms(1,2,3,4,8,5)])
  show "\<exists>t. (net_step (Q 100) srt resolve)\<^sup>*\<^sup>*
      (snd (act_on (Q 100) (q0 100) thr (Construct ''localhost'' testPort) (fresh_network (q0 100) v))) t \<and> settled pend t"
    by (rule connection_settles [OF assms(1,3,7) law_reachable [OF assms(6)] assms(5)]) simp
qed

text \<open>Surroundings in which it holds.\<close>

definition test_resolver :: resolver where
  "test_resolver host service =
     (if host = ''localhost'' \<or> host = ''::1''
      then Some [\<lparr>address = ''127.0.0.1'', is_v6 = False,
                  ep_port = (if service = show_int testPort then nat testPort else nat testPort + 1)\<rparr>]
      else None)"

lemma test_resolver_law: "resolver_law test_resolver"
proof -
  have "show_int (testPort + 1) \<noteq> show_int testPort" by code_simp
  then show ?thesis by (simp add: resolver_law_def test_resolver_def testPort_def)
qed

text \<open>
  A queue of whole blocks that remembers the closures that were taken from it (first) beside those
  that it still holds.
\<close>

type_synonym block_list = "(nat \<times> queued) list \<times> (nat \<times> queued) list"

definition block_queue :: "nat \<Rightarrow> block_list bounded_queue_ops" where
  "block_queue cap =
     \<lparr>b_try_enqueue = (\<lambda>p f (ts, xs). if length xs < slots cap then (True, (ts, xs @ [(p, f)])) else (False, (ts, xs))),
      b_wait_dequeue_timed = (\<lambda>(ts, xs). case xs of [] \<Rightarrow> (None, (ts, [])) | x # ys \<Rightarrow> (Some (snd x), (ts @ [x], ys))),
      b_size_approx = (\<lambda>(ts, xs). length xs)\<rparr>"

definition block_pend :: "block_list \<Rightarrow> nat \<Rightarrow> queued list" where
  "block_pend q = list_pend (snd q)"

definition block_used :: "block_list \<Rightarrow> nat \<Rightarrow> nat" where
  "block_used q p = length (of_producer p (fst q @ snd q))"

lemma block_contract: "bounded_contract (block_queue cap) block_pend"
  by (auto simp: bounded_contract_def block_queue_def block_pend_def list_pend_def fun_eq_iff split: list.splits if_splits)

lemma block_single:
  assumes "\<forall>p'. p' \<noteq> p \<longrightarrow> block_used q p' = 0"
  shows "length (block_pend q p) = length (snd q)"
proof -
  have "fst x = p" if "x \<in> set (snd q)" for x
    using that assms of_producer_set [of "snd x" "fst x" "snd q"]
    by (cases "fst x = p") (auto simp: block_used_def)
  then show ?thesis by (simp add: block_pend_def list_pend_def of_producer_def)
qed

lemma block_law: "queue_law (block_queue n) block_pend block_used n"
proof -
  have "length (block_pend q p) \<le> block_used q p" for q p by (simp add: block_pend_def block_used_def list_pend_def)
  moreover have "n \<le> slots n" by (simp add: slots_def)
  ultimately have room: "length (block_pend q p) < slots n" if "block_used q p < n" for q p
    using that by (meson le_trans not_le)
  have "b_size_approx (block_queue n) q = length (block_pend q p)
      \<and> (\<forall>f. block_used q p < n \<longrightarrow> fst (b_try_enqueue (block_queue n) p f q))
      \<and> (\<forall>f. slots n \<le> length (block_pend q p) \<longrightarrow> \<not> fst (b_try_enqueue (block_queue n) p f q))"
    if "\<forall>p'. p' \<noteq> p \<longrightarrow> block_used q p' = 0" for p q
    using block_single [OF that] room [of q p] by (cases q) (auto simp: block_queue_def)
  moreover have "block_used q' = (block_used q)(p := Suc (block_used q p))"
    if "b_try_enqueue (block_queue n) p f q = (True, q')" for p f q q'
    using that by (cases q) (auto simp: block_queue_def block_used_def fun_eq_iff split: if_splits)
  moreover have "block_used q' = block_used q" if "b_try_enqueue (block_queue n) p f q = (False, q')" for p f q q'
    using that by (cases q) (auto simp: block_queue_def split: if_splits)
  moreover have "block_used q' = block_used q" if "b_wait_dequeue_timed (block_queue n) q = (r, q')" for q r q'
    using that by (cases q) (auto simp: block_queue_def block_used_def fun_eq_iff split: list.splits)
  ultimately show ?thesis unfolding queue_law_def by blast
qed

lemma block_empty: "block_pend ([], []) = (\<lambda>_. [])" "block_used ([], []) = (\<lambda>_. 0)"
  by (simp_all add: block_pend_def block_used_def list_pend_def fun_eq_iff)

lemma listening_idle: "idle_server LogTestServer_listening"
  by (simp add: idle_server_def serving_def one_client_init)
    (simp add: LogTestServer_listening_def LogTestServer_def WaitForNewConnection_def Let_def test_server.defs)

definition stopped_server :: server where
  "stopped_server = LogTestServer_listening\<lparr>AcceptorOpen := False, Accepting := []\<rparr>"

lemma stopped_no_server: "no_server stopped_server"
  by (simp add: no_server_def stopped_server_def LogTestServer_listening_def LogTestServer_def WaitForNewConnection_def
      Let_def test_server.defs)

theorem network_tests_pass_witness:
  "list_all (\<lambda>T. passes (block_queue 100) v4_v6_sort test_resolver block_pend ([], []) 3 T
        (fresh_network ([], []) LogTestServer_listening))
      [UnknownHostTest, WrongPortTest, ConnectionTest, IPv6ConnectionTest, CloseConnectionTest, MessageTransmissionTest,
       LargeMessageTransmissionTest, MultipleMessagesTest]
    \<and> passes (block_queue 10) v4_v6_sort test_resolver block_pend ([], []) 3 FlushSuccess
        (fresh_network ([], []) LogTestServer_listening)
    \<and> passes (block_queue 64) v4_v6_sort test_resolver block_pend ([], []) 3 (TestQueueSizeLimit ''{}'')
        (fresh_network ([], []) stopped_server)
    \<and> passes (block_queue 10) v4_v6_sort test_resolver block_pend ([], []) 3 FlushFail
        (fresh_network ([], []) stopped_server)"
  using network_tests_pass [of block_queue block_pend block_used "\<lambda>_. ([], [])", OF block_contract block_law
      block_empty v4_v6_is_sort test_resolver_law listening_idle stopped_no_server, of 3 "''{}''"]
  unfolding wrong_tests_def connected_tests_def queue_tests_def by simp

end
