(* ===== verification/Network_Runs.thy ===== *)
theory Network_Runs
  imports Network_Passes
begin

text \<open>
  The composition under any use: clients on any threads send and flush, and the connections may
  be closed at any time, between the steps of the two service threads and the network.
\<close>

section \<open>Runs with their users\<close>

text \<open>\<open>closes\<close>: whether the server is ever asked to close its connections.\<close>

inductive user_step :: "'q bounded_queue_ops \<Rightarrow> bool \<Rightarrow> 'q network \<Rightarrow> 'q network \<Rightarrow> bool"
  for Q :: "'q bounded_queue_ops" and closes :: bool
  where
  user_sends: "user_step Q closes s (s\<lparr>client := sendMessage Q thr Msg (client s),
    history := history s @ enqueued Q thr (MsgFunc Msg) (client s)\<rparr>)"
| user_flushes: "user_step Q closes s (s\<lparr>client := flush_start Q thr p (client s),
    history := history s @ enqueued Q thr (FlushFunc p) (client s)\<rparr>)"
| user_closes: "closes \<Longrightarrow> user_step Q closes s (serve CloseAllConnections s)"

definition used_step ::
  "'q bounded_queue_ops \<Rightarrow> (endpoint list \<Rightarrow> endpoint list) \<Rightarrow> resolver \<Rightarrow> bool \<Rightarrow> 'q network \<Rightarrow> 'q network \<Rightarrow> bool" where
  "used_step Q srt resolve closes s t \<longleftrightarrow> net_step Q srt resolve s t \<or> user_step Q closes s t"

definition connecting :: "'q \<Rightarrow> server \<Rightarrow> string \<Rightarrow> 'q network" where
  "connecting q0 v host = (fresh_network q0 v)\<lparr>client := Impl host testPort q0\<rparr>"

lemma connecting_construct: "connecting q0 v host = snd (act_on Q q0 thr (Construct host testPort) (fresh_network q0 v))"
  by (simp add: connecting_def fresh_network_def)

section \<open>Invariants\<close>

text \<open>A call of a user changes the queue, a promise and the history.\<close>

lemma queue_change:
  assumes "t = s\<lparr>client := (client s)\<lparr>LogMessages := q, Promises := ps\<rparr>, history := h\<rparr>"
  shows "conn_ok resolve t = conn_ok resolve s" and "calm_client t = calm_client s" and "calm_server v0 t = calm_server v0 s"
proof -
  have c: "control_inv (client t) = control_inv (client s)" "chain_inv (client t) = chain_inv (client s)"
    "live_inv (client t) = live_inv (client s)" "written_ok t = written_ok s" "linked t = linked s"
    "reaching resolve t = reaching resolve s" "log_server t = log_server s"
    unfolding assms
    by (simp_all add: control_inv_def control_def chain_inv_def live_inv_def sends_def written_ok_def writing_def linked_def
        reaching_def reaching_client_def lookup_result_def)
  then show "conn_ok resolve t = conn_ok resolve s" by (simp add: conn_ok_def client_ok_def)
  show "calm_client t = calm_client s" "calm_server v0 t = calm_server v0 s"
    unfolding assms
    by (simp_all add: calm_client_def unconnected_def connected_def calm_server_def server_closed_iff sends_def)
qed

lemma user_queue:
  "\<exists>q ps. sendMessage Q thr Msg c = c\<lparr>LogMessages := q, Promises := ps\<rparr>"
  "\<exists>q ps. flush_start Q thr p c = c\<lparr>LogMessages := q, Promises := ps\<rparr>"
proof -
  have same: "c\<lparr>LogMessages := q\<rparr> = c\<lparr>LogMessages := q, Promises := Promises c\<rparr>" for q by (cases c) simp
  show "\<exists>q ps. sendMessage Q thr Msg c = c\<lparr>LogMessages := q, Promises := ps\<rparr>"
    unfolding sendMessage_def using same by blast
  obtain ok q where e: "b_try_enqueue Q thr (FlushFunc p) (LogMessages c) = (ok, q)" by fastforce
  show "\<exists>q ps. flush_start Q thr p c = c\<lparr>LogMessages := q, Promises := ps\<rparr>"
  proof (cases ok)
    case True
    then have "flush_start Q thr p c = c\<lparr>LogMessages := q\<rparr>" using e by (simp add: flush_start_def)
    with same show ?thesis by metis
  next
    case False
    with e show ?thesis by (auto simp: flush_start_def)
  qed
qed

definition used_inv ::
  "'q bounded_queue_ops \<Rightarrow> (endpoint list \<Rightarrow> endpoint list) \<Rightarrow> resolver \<Rightarrow> bool \<Rightarrow> 'q impl \<Rightarrow> server \<Rightarrow> 'q network \<Rightarrow> bool" where
  "used_inv Q srt resolve closes c0 v0 s \<longleftrightarrow> conn_ok resolve s \<and> conn_run Q srt True c0 (history s) (client s)
     \<and> (closes \<or> calm_client s \<and> calm_server v0 s)"

lemma used_inv_net:
  assumes "used_inv Q srt resolve closes c0 v0 s" and "net_step Q srt resolve s t" and "is_std_sort srt"
  shows "used_inv Q srt resolve closes c0 v0 t"
proof -
  have s: "conn_ok resolve s" "client_ok s" "linked s" "conn_run Q srt True c0 (history s) (client s)"
    using assms(1) by (simp_all add: used_inv_def conn_ok_def)
  have "conn_run Q srt True c0 (history s) (client t)"
    using net_step_client [OF assms(2) s(2)] run_io [OF s(4)] s(4) by auto
  moreover have "calm_client t \<and> calm_server v0 t" if "calm_client s \<and> calm_server v0 s"
    using that net_step_calm_client [OF assms(2) _ _ s(1)] net_step_calm_server [OF assms(2) _ _ s(3)] by blast
  ultimately show ?thesis
    using assms(1) net_step_conn_ok [OF assms(2) s(1) assms(3)] net_step_history [OF assms(2)] by (auto simp: used_inv_def)
qed

lemma used_inv_user:
  assumes "used_inv Q srt resolve closes c0 v0 s" and "user_step Q closes s t"
  shows "used_inv Q srt resolve closes c0 v0 t"
proof -
  have s: "conn_ok resolve s" "conn_run Q srt True c0 (history s) (client s)" "closes \<or> calm_client s \<and> calm_server v0 s"
    using assms(1) by (simp_all add: used_inv_def)
  have calls: ?thesis if t: "t = s\<lparr>client := d, history := h\<rparr>" and d: "\<exists>q ps. d = (client s)\<lparr>LogMessages := q, Promises := ps\<rparr>"
    and run: "conn_run Q srt True c0 h d" for d h
  proof -
    obtain q ps where "t = s\<lparr>client := (client s)\<lparr>LogMessages := q, Promises := ps\<rparr>, history := h\<rparr>" using t d by blast
    from queue_change [OF this] s t run show ?thesis by (simp add: used_inv_def)
  qed
  from assms(2) show ?thesis
  proof (cases rule: user_step.cases)
    case (user_sends thr Msg)
    show ?thesis by (rule calls [OF user_sends user_queue(1) run_send [OF s(2)]])
  next
    case (user_flushes thr p)
    show ?thesis by (rule calls [OF user_flushes user_queue(2) run_flush [OF s(2)]])
  next
    case user_closes
    have "serving (CloseAllConnections (log_server s))"
      using s(1) by (auto simp: conn_ok_def serving_def one_client_def CloseAllConnections_def)
    with conn_ok_server [OF s(1), of "CloseAllConnections (log_server s)"]
    have "conn_ok resolve t" by (simp add: user_closes CloseAllConnections_def serve_def)
    with s user_closes show ?thesis by (simp add: used_inv_def)
  qed
qed

lemma used_inv_steps:
  assumes "(used_step Q srt resolve closes)\<^sup>*\<^sup>* s t" and "used_inv Q srt resolve closes c0 v0 s" and "is_std_sort srt"
  shows "used_inv Q srt resolve closes c0 v0 t"
  using assms(1)
proof (induction rule: rtranclp_induct)
  case (step t u)
  then show ?case using used_inv_net [OF step.IH _ assms(3)] used_inv_user [OF step.IH] by (auto simp: used_step_def)
qed (rule assms(2))

section \<open>Property\<close>

definition arrived :: "(nat \<times> queued) list \<Rightarrow> 'q network \<Rightarrow> bool" where
  "arrived ts s \<longleftrightarrow> delivered s = frames ts \<and> receivedBytes (log_server s) = length (frames ts)
     \<and> socketError (log_server s) = Success
     \<and> (list_all (\<lambda>m. nul \<notin> set m) (sent_messages ts) \<longrightarrow>
          previousMessage (log_server s) = (if sent_messages ts = [] then [] else last (sent_messages ts)))"

text \<open>
  C3: the connection always recovers. However clients send and flush, and whenever the server
  closes its connections, in every settled state the client is in the sending state, the server
  counts one connection and reads from it, and all closures that the queue has accepted have
  been sent, each thread's in its order. When nothing was closed, the server has read exactly
  these bytes: it has counted them, its latest message is the last one sent, and it saw no error.
\<close>

theorem network_recovers:
  fixes q0 :: 'q
  assumes "bounded_contract Q pend" and "pend q0 = (\<lambda>_. [])" and "is_std_sort srt" and "idle_server v"
    and "reachable_host resolve host"
    and "(used_step Q srt resolve closes)\<^sup>*\<^sup>* (connecting q0 v host) t" and "settled pend t"
  shows "ConnectionState (client t) = SEND_LOOP \<and> connections (log_server t) = 1
    \<and> (\<exists>i k. client_conn t = Some i \<and> peer t i = Some k \<and> Reading (log_server t) = [k] \<and> k \<notin> set (Closed (log_server t)))
    \<and> (\<exists>ts. (\<forall>thr. of_producer thr ts = of_producer thr (history t)) \<and> Sent (client t) = frames ts
        \<and> (closes \<or> arrived ts t))"
proof -
  have "calm_run Q srt resolve (Impl host testPort q0) v (connecting q0 v host)"
    unfolding connecting_construct [where Q = Q and thr = 0] by (rule fresh_test [OF assms(4,5)])
  then have "used_inv Q srt resolve closes (Impl host testPort q0) v (connecting q0 v host)"
    by (simp add: calm_run_def used_inv_def)
  note inv = used_inv_steps [OF assms(6) this assms(3), unfolded used_inv_def]
  have ok: "conn_ok resolve t" and run: "conn_run Q srt True (Impl host testPort q0) (history t) (client t)"
    and calm: "closes \<or> calm_client t \<and> calm_server v t" using inv by blast+
  note up = settled_up [OF assms(7) ok] and set = settledD [OF assms(7)]
  obtain i k where k: "client_conn t = Some i" "peer t i = Some k" "Reading (log_server t) = [k]" "wire t i = []"
    using up(4) by blast
  have q: "MessageBuffer (client t) = []" "pend (LogMessages (client t)) = (\<lambda>_. [])" using set(2) up(5) by auto
  from run_accounted [OF assms(1,2) run] obtain ts where ts: "accounted pend (history t) ts (client t)" by blast
  have sent: "Sent (client t) = frames ts" using ts q(1) by (simp add: accounted_def)
  have "arrived ts t" if "\<not> closes"
  proof -
    have c: "calm_client t" "calm_server v t" using calm that by simp_all
    have "i = 0" using c(1) k(1) by (auto simp: calm_client_def unconnected_def connected_def)
    with c(1) k(4) q(1) sent have d: "delivered t = frames ts" by (simp add: calm_client_def)
    have v: "receivedBytes v = 0" "previousMessage v = []" "currentMessage v = []" using assms(4) by (simp_all add: idle_server_def)
    have p: "parsed v (frames ts) (log_server t)" "socketError (log_server t) = Success"
      using c(2) d by (simp_all add: calm_server_def)
    with d receive_frames [of "sent_messages ts" v] v(2,3) show ?thesis
      by (simp add: arrived_def parsed_def v(1) frames_sent list_all_iff)
  qed
  moreover have "of_producer thr ts = of_producer thr (history t)" for thr using accountedD [OF ts, of thr] q(2) by simp
  moreover have "k \<notin> set (Closed (log_server t))" using set(5) [of k] k(3) by simp
  ultimately show ?thesis using up(1,2) k sent by blast
qed

section \<open>A run\<close>

text \<open>One message, from the queue of the client to the parser of the server, and then rest.\<close>

lemma message_run:
  "\<exists>t. (used_step (bounded_list 5) v4_v6_sort test_resolver False)\<^sup>*\<^sup>* (connecting [] LogTestServer_listening ''localhost'') t
    \<and> history t = [(3, MsgFunc ''m'')] \<and> settled list_pend t"
proof -
  let ?Q = "bounded_list 5" and ?v = LogTestServer_listening and ?m = "[CHR ''m'', nul]"
  let ?net = "net_step ?Q v4_v6_sort test_resolver" and ?step = "used_step ?Q v4_v6_sort test_resolver False"
  let ?ep = "\<lparr>address = ''127.0.0.1'', is_v6 = False, ep_port = 2526\<rparr>" and ?eps = "[\<lparr>address = ''127.0.0.1'', is_v6 = False, ep_port = 2526\<rparr>]"
  let ?r = "\<lparr>EndpointList = ?eps, NextEndpoint = 1\<rparr>"
  have v: "Accepting ?v = [0]" "Reading ?v = []" "Closed ?v = []" "CloseRequests ?v = 0" "AcceptorOpen ?v"
    by code_simp+
  have endpoint: "getNextEndpoint (make_QueryResult v4_v6_sort ?eps) = (?ep, ?r)" by code_simp
  define s0 where "s0 = connecting ([] :: (nat \<times> queued) list) ?v ''localhost''"
  define u where "u = s0\<lparr>client := sendMessage ?Q 3 ''m'' (client s0), history := history s0 @ enqueued ?Q 3 (MsgFunc ''m'') (client s0)\<rparr>"
  have 0: "user_step ?Q False s0 u" unfolding u_def by (rule user_sends)
  have s0: "log_server s0 = ?v" "client s0 = Impl ''localhost'' testPort []" "unaccepted s0 = []" "peer s0 = (\<lambda>_. None)"
    "wire s0 = (\<lambda>_. [])" "next_conn s0 = 0" "written s0 = 0" "delivered s0 = []" "history s0 = []"
    by (simp_all add: s0_def connecting_def fresh_network_def)
  have u: "client u = (Impl ''localhost'' testPort [])\<lparr>LogMessages := [(3, MsgFunc ''m'')]\<rparr>" "history u = [(3, MsgFunc ''m'')]"
    "log_server u = ?v" "unaccepted u = []" "peer u = (\<lambda>_. None)" "wire u = (\<lambda>_. [])" "next_conn u = 0" "written u = 0"
    by (simp_all add: u_def s0 sendMessage_def enqueued_def bounded_list_def Impl_def doAddressQuery_def setState_def start_op_def)
  define s1 where "s1 = complete [] (Resolved False ?eps) u"
  have "lookup_result test_resolver (client u) = Resolved False ?eps"
    by (simp add: u(1) lookup_result_def Impl_def doAddressQuery_def setState_def start_op_def test_resolver_def testPort_def)
  then have 1: "?net u s1"
    using net_step.resolved [of u "[]" "[]" ?Q v4_v6_sort test_resolver] by (simp add: s1_def u(1) Impl_fields)
  define s2 where "s2 = client_runs ?Q v4_v6_sort (Resolved False ?eps) [] s1"
  have 2: "?net s1 s2" unfolding s2_def by (rule net_step.handler) (simp add: s1_def u(1) Impl_fields)
  have s2: "Inflight (client s2) = [Async_connect ?ep ?r]" "Ready (client s2) = []" "SocketOpen (client s2)"
    "MessageBuffer (client s2) = []" "LogMessages (client s2) = [(3, MsgFunc ''m'')]" "log_server s2 = ?v" "unaccepted s2 = []"
    "next_conn s2 = 0" "peer s2 = (\<lambda>_. None)" "wire s2 = (\<lambda>_. [])" "written s2 = 0" "history s2 = [(3, MsgFunc ''m'')]"
    using endpoint
    by (simp_all add: s2_def client_runs_def Let_def resolverHandler_def s1_def u tryConnect_def async_connect_def
        setState_def start_op_def Impl_def doAddressQuery_def)
  define s3 where "s3 = (complete [] (Connected False ?r) s2)\<lparr>unaccepted := [0], client_conn := Some 0, next_conn := 1\<rparr>"
  have "listens s2 ?ep" by (simp add: listens_def s2 v testPort_def)
  then have 3: "?net s2 s3"
    using net_step.established [of s2 "[]" ?ep ?r "[]" ?Q v4_v6_sort test_resolver] by (simp add: s3_def s2)
  define s4 where "s4 = client_runs ?Q v4_v6_sort (Connected False ?r) [] s3"
  have 4: "?net s3 s4" unfolding s4_def by (rule net_step.handler) (simp add: s3_def s2)
  have s4: "Inflight (client s4) = [Async_receive, Async_write ?m]" "Ready (client s4) = []" "SocketOpen (client s4)"
    "MessageBuffer (client s4) = ?m" "LogMessages (client s4) = []" "log_server s4 = ?v" "unaccepted s4 = [0]"
    "client_conn s4 = Some 0" "peer s4 = (\<lambda>_. None)" "wire s4 = (\<lambda>_. [])" "written s4 = 0" "history s4 = [(3, MsgFunc ''m'')]"
    by (simp_all add: s4_def client_runs_def Let_def connectHandler_def s3_def s2 start_op_def setState_def trySendMessage_def
        bounded_list_def async_write_def MessageAdditionLimit_def)
  define s5 where "s5 = serve (\<lambda>v. OnConnectionAccept Success 0 (v\<lparr>Accepting := []\<rparr>))
    (s4\<lparr>unaccepted := [], peer := (peer s4)(0 := Some 0)\<rparr>)"
  have 5: "?net s4 s5"
    using net_step.accept [of s4 "[]" 0 "[]" 0 "[]" ?Q v4_v6_sort test_resolver] by (simp add: s4 v s5_def)
  define s6 where "s6 = s5\<lparr>wire := (wire s5)(0 := wire s5 0 @ drop (written s5) (take 2 ?m)), written := 2\<rparr>"
  have 6: "?net s5 s6"
    unfolding s6_def by (rule net_step.write_some) (simp_all add: s5_def s4)
  define s7 where "s7 = complete [Async_receive] (Written False ?m) s6"
  have 7: "?net s6 s7"
    using net_step.write_done [of s6 "[Async_receive]" ?m "[]" ?Q v4_v6_sort test_resolver] by (simp add: s7_def s6_def s5_def s4)
  define s8 where "s8 = client_runs ?Q v4_v6_sort (Written False ?m) [] s7"
  have 8: "?net s7 s8" unfolding s8_def by (rule net_step.handler) (simp add: s7_def s6_def s5_def s4)
  have s8: "Inflight (client s8) = [Async_receive]" "Ready (client s8) = [Posted]" "MessageBuffer (client s8) = []"
    "LogMessages (client s8) = []" "client_conn s8 = Some 0" "history s8 = [(3, MsgFunc ''m'')]" "unaccepted s8 = []"
    "peer s8 0 = Some 0" "wire s8 = (\<lambda>_. [])(0 := ?m)" "log_server s8 = OnConnectionAccept Success 0 (?v\<lparr>Accepting := []\<rparr>)"
    by (simp_all add: s8_def client_runs_def Let_def sentMessageHandler_def s7_def s6_def s5_def s4 trySendMessage_def
        bounded_list_def post_def MessageAdditionLimit_def)
  define s9 where "s9 = serve (\<lambda>v. HandleRead Success ?m 0 (v\<lparr>Reading := []\<rparr>))
    (s8\<lparr>wire := (wire s8)(0 := []), delivered := delivered s8 @ ?m\<rparr>)"
  have 9: "?net s8 s9"
    using net_step.read_block [of s8 "[]" 0 "[]" 0 ?m "[]" ?Q v4_v6_sort test_resolver]
    by (simp add: s8 s9_def accept_effect v bufferSize_def)
  have "settled list_pend s9"
    by (simp add: settled_def s9_def s8 accept_effect read_effect read_closed read_success_frame v server_closed_def
        list_pend_empty)
  moreover have "history s9 = [(3, MsgFunc ''m'')]" by (simp add: s9_def s8)
  moreover have "?step\<^sup>*\<^sup>* s0 s9"
  proof -
    note chain = rtranclp.rtrancl_into_rtrancl [where r = ?step]
    have step: "?step a b" if "?net a b" for a b using that by (simp add: used_step_def)
    have "?step\<^sup>*\<^sup>* s0 u" using 0 by (simp add: used_step_def r_into_rtranclp)
    from chain [OF chain [OF chain [OF chain [OF this step [OF 1]] step [OF 2]] step [OF 3]] step [OF 4]]
    have "?step\<^sup>*\<^sup>* s0 s4" .
    from chain [OF chain [OF chain [OF chain [OF chain [OF this step [OF 5]] step [OF 6]] step [OF 7]] step [OF 8]] step [OF 9]]
    show ?thesis .
  qed
  ultimately show ?thesis unfolding s0_def by blast
qed

theorem network_recovers_witness:
  "\<exists>t ts. settled list_pend t \<and> history t = [(3, MsgFunc ''m'')] \<and> ConnectionState (client t) = SEND_LOOP
    \<and> connections (log_server t) = 1 \<and> (\<forall>thr. of_producer thr ts = of_producer thr [(3, MsgFunc ''m'')])
    \<and> Sent (client t) = frames ts \<and> arrived ts t"
proof -
  obtain t where t: "(used_step (bounded_list 5) v4_v6_sort test_resolver False)\<^sup>*\<^sup>*
      (connecting [] LogTestServer_listening ''localhost'') t" "history t = [(3, MsgFunc ''m'')]" "settled list_pend t"
    using message_run by blast
  have "reachable_host test_resolver ''localhost''" by (rule law_reachable [OF test_resolver_law]) simp
  from network_recovers [OF bounded_list_contract list_pend_empty v4_v6_is_sort listening_idle this t(1,3)] obtain ts where
    ts: "ConnectionState (client t) = SEND_LOOP" "connections (log_server t) = 1"
    "\<forall>thr. of_producer thr ts = of_producer thr (history t)" "Sent (client t) = frames ts" "arrived ts t" by blast
  from ts t(2,3) show ?thesis by (intro exI [of _ t] exI [of _ ts] conjI) simp_all
qed

end
