(* ===== verification/Spec2Isabelle.thy ===== *)
theory Spec2Isabelle
  imports Log_Prelude Log_Util Threaded_Executor Base_Handler Console_Interface File_Interface
    Graylog_Json Graylog_Connection Graylog_Machine Graylog_Delivery Graylog_Progress Test_Server
    Server_Sockets Process_Name Semaphore Logging_Base Logging_Sync Logger System Graylog_System
    Console_Logger Permute_Args Getopt Getopt_Safety Getopt_Parse Console_Tool Logging_Base_Test
    Handler_Test Blocking_Test Logger_Test Console_Run Message_Types Performance_Test Package_Test
    Network Network_Calm Network_Test Network_Far Network_Suite Network_Passes
    Network_Runs
begin

text \<open>
  A verification of graylog-logger, a C++ logging library that passes log messages to the
  console, to files and to a Graylog server (GELF messages over TCP).

  \<^bold>\<open>The program.\<close> Client threads call the free functions of \<open>Log.hpp\<close>. They forward to the
  singleton \<open>Logger\<close>, a \<open>LoggingBase\<close>: it drops messages above the minimum severity and sends
  everything else as closures to its worker thread (\<open>ThreadedExecutor\<close>, an unbounded
  multi-producer queue and a loop). The worker completes each message and calls \<open>addMessage\<close>
  of every registered \<open>BaseLogHandler\<close>. \<open>ConsoleInterface\<close> and \<open>FileInterface\<close> have a worker
  of their own; \<open>GraylogInterface\<close> serialises the message and puts it into the bounded queue of
  its connection, whose I/O thread runs the handlers of a state machine built on asio.

  \<^bold>\<open>The theories.\<close>
  \<^item> \<open>Log_Prelude\<close>: exceptions as values, integer conversions, the operations of strings and
    arrays that the code uses, promises, the locale \<open>transition_system\<close>.
  \<^item> \<open>Log_Util\<close> (\<open>LogUtil.hpp\<close>, \<open>LogUtil.cpp\<close>): severities, additional fields, log messages with
    \<open>addField\<close>, the default text of a message.
  \<^item> \<open>Threaded_Executor\<close> (\<open>ThreadedExecutor.hpp\<close>): the contract of the third-party queue
    (\<open>queue_contract\<close>, \<open>queue_live\<close>), the worker loop, destruction; the locale \<open>worker_object\<close>.
  \<^item> \<open>Base_Handler\<close> (\<open>BaseLogHandler\<close>): the contract of a handler as the locales \<open>log_handler\<close> and
    \<open>reliable_log_handler\<close>, interpreted in the theories of the three handler classes.
  \<^item> \<open>Console_Interface\<close>, \<open>File_Interface\<close>: the two handlers with workers; closures are
    datatypes, their bodies \<open>run_console\<close> and \<open>run_file\<close>. The file stream has a buffer; how much of
    a text it accepts and how much of its buffer gets written is up to a \<open>disk\<close>, a parameter
    (\<open>file_contains_prefix\<close>: what closing the file leaves in it).
  \<^item> \<open>Graylog_Json\<close> (\<open>logMsgToJSON\<close>): the GELF object of a message.
  \<^item> \<open>Graylog_Connection\<close> (\<open>GraylogConnection.cpp\<close>): all handlers of the connection, the client
    calls, and the step relation of the I/O thread. Asynchronous operations are data (in flight,
    ready); their outcome is chosen by the environment.
  \<^item> \<open>Graylog_Machine\<close>: invariants: one control operation, named by the status
    (\<open>control_inv\<close>, for any order of ready handlers); one chain of sends (\<open>chain_inv\<close>, for the
    first-in-first-out order of a service run by one thread).
  \<^item> \<open>Graylog_Delivery\<close>: what is sent: the framed messages taken from the queue; the meaning of
    \<open>flush\<close>; the bound of the buffer. \<open>Graylog_Progress\<close>: from every reachable state the
    connection can be established; endpoints are tried one after the other.
  \<^item> \<open>Test_Server\<close> (\<open>LogTestServer.cpp\<close>): the receiving side, and what arrives there.
    What a torn message does to it (\<open>torn_frame_on_next_connection\<close>).
    \<open>Server_Sockets\<close>: its connections, as a step relation over the outcomes of the service.
  \<^item> \<open>Process_Name\<close> (three versions of \<open>get_process_name\<close>), \<open>Semaphore\<close> (\<open>Semaphore.hpp\<close>, as a
    monitor with any number of threads).
  \<^item> \<open>Logging_Base\<close> (\<open>LoggingBase.hpp\<close>, \<open>LoggingBase.cpp\<close>): state, closures, client operations;
    \<open>Logging_Sync\<close>: a synchronous logger as abstract specification and the refinement proof, by
    a simulation that accounts for the closures still queued.
  \<^item> \<open>Logger\<close> (\<open>Logger.cpp\<close>, \<open>Log.cpp\<close>): the singleton and the public functions; the invariant
    that at most one console handler is registered.
  \<^item> \<open>System\<close>: the handlers of the three classes behind the virtual functions, and sessions of
    a logger with a console handler. \<open>Graylog_System\<close>: the client, the worker of the
    logger and the I/O thread of the connection interleaved, up to what the server receives.
  \<^item> \<open>Console_Logger\<close> (\<open>ConsoleLogger.cpp\<close>): the command line tool, over the results of
    \<open>getopt_long\<close>.
  \<^item> \<open>Permute_Args\<close>, \<open>Getopt\<close> (\<open>console_logger/getopt.h\<close>): the option parser of the Windows build,
    with its global variables as a state record and undefined behaviour as error values.
    \<open>Getopt_Safety\<close>: every call keeps the state well-formed, reads in bounds and consumes text;
    \<open>Getopt_Parse\<close>: what a well-formed command line is parsed to. \<open>Console_Tool\<close>: the tool with
    this parser and its own option table.
  \<^item> \<open>Logging_Base_Test\<close>, \<open>Handler_Test\<close> (\<open>unit_tests\<close>): the tests of the repository as programs,
    shown to pass under every schedule; what a handler in a block of its own does.
    \<open>Blocking_Test\<close>: the tests that stop a worker inside a closure, decided for every interleaving
    by a bounded search over an abstraction of the queue, with its soundness proof.
    \<open>Logger_Test\<close> (\<open>LoggerTest.cpp\<close>): a console handler replaced while it is in use, with the
    destructor that runs on the worker of the logger. \<open>Console_Run\<close>: the same threads when the
    handler is not replaced: end to end, what is logged is printed, at every moment in part and
    in the end completely.
  \<^item> \<open>Network\<close>: the connection and the test server together, over name resolution and TCP; its
    steps refine the steps of the I/O thread, and the invariants of both sides are connected
    (\<open>linked\<close>: which socket of the server belongs to which connection; \<open>settled_up\<close>: what is true when
    nothing is left to happen). \<open>Network_Test\<close>: the tests of \<open>GraylogInterfaceTest.cpp\<close> that use it,
    as programs, and what it means to pass. \<open>Network_Far\<close>: clients that reach no server;
    \<open>Network_Calm\<close>: runs in which the server closes nothing, with the path of every byte;
    \<open>Network_Suite\<close>, \<open>Network_Passes\<close>: every test passes. \<open>Network_Runs\<close>: the same network under
    any use by clients and by the thread that closes connections: it always recovers.
  \<^item> \<open>Message_Types\<close>: well-formed messages (tags that fit their values, different keys) are kept
    by every closure and every handler class; the locale \<open>typed_handlers\<close>.
  \<^item> \<open>Performance_Test\<close> (\<open>performance_test\<close>): the dummy handler, whose closures are counted as
    they run (a ghost, the closure has an empty body), and the benchmarks, with the worker of the
    logger and that of the handler interleaved with the client.
    \<open>Package_Test\<close> (\<open>test_package\<close>): its program, up to standard output.

  \<^bold>\<open>State.\<close> Each class is a record with the data members as fields; handlers are shared objects,
  so \<open>LoggingBase\<close> keeps pointers into a store. \<open>int\<close> values that the code does arithmetic on
  are words or mathematical integers with the conversions written out (\<open>to_int32\<close>,
  \<open>to_size_t\<close>). Exceptions are the left side of a sum; one that leaves a worker ends the program.

  \<^bold>\<open>Parameters.\<close> Code outside \<open>src/\<close> is an argument: the queues of moodycamel with their
  documented behaviour (order within a producer only, no loss, no duplication; the bounded one may
  refuse), \<open>std::sort\<close> (some sorted permutation), \<open>localtime\<close>, the file system, the JSON
  serialisation, \<open>fmt\<close>, the clock, the system calls, and the outcome of every asio operation
  (a write reports at most what it was given, and all of it unless it failed; closing a socket
  aborts the operations on it). In \<open>Network\<close> these outcomes are functions of the state of both
  sides; there the resolver is a parameter (\<open>resolver_law\<close>), and the bounded queue is used by one
  thread: it consists of whole blocks of 32 slots, enough for the capacity, accepts the first
  closures up to the capacity and, since \<open>try_enqueue\<close> does not allocate, none when all slots are
  occupied; whether an emptied slot can be used again is left open (\<open>queue_law\<close>, with a ghost
  count of what the thread enqueued).

  \<^bold>\<open>Bounds.\<close> The number of iterations given to \<open>ThreadFunction\<close> is the progress a worker has made,
  not a limit: the properties that need progress state that some number suffices
  (\<open>worker_stops\<close>, \<open>single_producer_drains\<close>), the others hold for every number.
  \<open>mac_path\<close> and \<open>win_path\<close> are partial functions that are proved to return. The loop over
  \<open>getopt_long\<close> has a bound on its calls; \<open>getopt_loop_ends\<close> gives one that is enough for every
  argument vector. A test that sleeps goes on in a settled state, and one that expects a flush to
  succeed waits until the promise is ready or the state is settled (\<open>goes_on\<close>); so the tests with
  the server say nothing about a sleep or a time limit that is too short.

  \<^bold>\<open>Not modelled.\<close> Timeouts as real time (a waiting call sees the progress made until its
  deadline); memory order and data races (\<open>getHandlers\<close> reads a vector that the worker changes);
  the bytes received from the server, which the code ignores;
  the text of the usage message; the disabled test \<open>MultipleCloseConnectionTest\<close>, whose sleeps are
  too short for the network to settle; the tests of the log file itself (its creation, the messages
  that the handler logs about it); the call count of \<open>AddMessageTest\<close>; \<open>main\<close> of the test framework.
\<close>

end
